theory Spec2Isabelle
  imports Main "HOL-Library.Word"
begin

section \<open>Command-log buffer of arcus-memcached (engines/default/cmdlogbuf.c)\<close>

text \<open>
  A shallow embedding of \<^verbatim>\<open>cmdlogbuf.c\<close>. The global \<^verbatim>\<open>log_gl\<close> is a record that
  every operation takes and returns. The operations are modelled one at a time (each runs
  to completion before the next starts), so the mutexes of the source do not appear.
  An \<^verbatim>\<open>assert\<close> that fails aborts the process: the operation returns \<open>None\<close>.
  A loop that may spin forever is a \<^theory_text>\<open>partial_function\<close> in the option monad, where
  \<open>None\<close> also stands for not returning.

  Unsigned C integers are naturals and signed ones are integers; every C operation that can
  wrap is written through \<open>u16\<close>, \<open>u32\<close>, \<open>u64\<close> or \<open>i32\<close>, which reduce the exact result
  into the range of the C type.
\<close>

subsection \<open>Machine integers\<close>

definition u16 :: "int \<Rightarrow> nat" where
  "u16 i = nat (i mod 65536)"

definition u32 :: "int \<Rightarrow> nat" where
  "u32 i = nat (i mod 4294967296)"

definition u64 :: "int \<Rightarrow> nat" where
  "u64 i = nat (i mod 18446744073709551616)"

definition i32 :: "int \<Rightarrow> int" where
  "i32 i = (i + 2147483648) mod 4294967296 - 2147483648"

subsection \<open>Constants\<close>

definition CMDLOG_BUFFER_SIZE :: nat where
  "CMDLOG_BUFFER_SIZE = 100 * 1024 * 1024"

definition CMDLOG_FLUSH_AUTO_SIZE :: nat where
  "CMDLOG_FLUSH_AUTO_SIZE = 32 * 1024"

definition CMDLOG_RECORD_MIN_SIZE :: nat where
  "CMDLOG_RECORD_MIN_SIZE = 16"

text \<open>
  Modelled from the spec: \<^verbatim>\<open>sizeof(LogHdr)\<close>. The type \<^verbatim>\<open>LogHdr\<close> is declared in
  \<^verbatim>\<open>cmdlogrec.h\<close>, which is not among the sources. The spec gives headers of 8 bytes, and so
  does the comment on \<^verbatim>\<open>CMDLOG_RECORD_MIN_SIZE\<close> (8 bytes header + 8 bytes body).
\<close>

definition sizeof_LogHdr :: nat where
  "sizeof_LogHdr = 8"

subsection \<open>Data\<close>

type_synonym byte = "8 word"

text \<open>
  Modelled from the spec: \<^verbatim>\<open>LogSN\<close> (declared in \<^verbatim>\<open>cmdlogrec.h\<close>) is a pair
  \<open>(filenum: u32, roffset: u64)\<close> ordered lexicographically; \<^verbatim>\<open>LOGSN_IS_LE\<close> and
  \<^verbatim>\<open>LOGSN_IS_GT\<close> are that order.
\<close>

record LogSN =
  filenum :: nat
  roffset :: nat

definition LOGSN_IS_LE :: "LogSN \<Rightarrow> LogSN \<Rightarrow> bool" where
  "LOGSN_IS_LE a b =
     (filenum a < filenum b \<or> (filenum a = filenum b \<and> roffset a \<le> roffset b))"

definition LOGSN_IS_GT :: "LogSN \<Rightarrow> LogSN \<Rightarrow> bool" where
  "LOGSN_IS_GT a b =
     (filenum a > filenum b \<or> (filenum a = filenum b \<and> roffset a > roffset b))"

record log_FSTATE =
  fd :: int
  fsync_ongoing :: bool
  size_fs :: nat

record log_FILE =
  curr :: log_FSTATE
  next_fs :: log_FSTATE

record log_FREQ =
  nflush :: nat
  dual_write :: bool

record log_BUFFER =
  data :: "nat \<Rightarrow> byte"
  size_lb :: nat
  head :: nat
  tail :: nat
  last_lb :: int
  fque :: "nat \<Rightarrow> log_FREQ"
  fqsz :: nat
  fbgn :: nat
  fend :: nat
  dw_end :: int

text \<open>
  The files behind the descriptors: the bytes of each, the offset of each descriptor, and
  the calls of \<^verbatim>\<open>fsync\<close> and \<^verbatim>\<open>close\<close> made so far (latest first). The system calls
  are taken to succeed: where one fails the source logs and aborts.
\<close>

record os_state =
  disk :: "int \<Rightarrow> byte list"
  fpos :: "int \<Rightarrow> nat"
  fsynced_fds :: "int list"
  closed_fds :: "int list"

record log_global =
  log_file :: log_FILE
  log_buffer :: log_BUFFER
  nxt_write_lsn :: LogSN
  nxt_flush_lsn :: LogSN
  nxt_fsync_lsn :: LogSN
  initialized :: bool
  os :: os_state

subsection \<open>Disk primitives\<close>

text \<open>\<^verbatim>\<open>disk_byte_write\<close>: the bytes go to the descriptor's offset, which moves past them.\<close>

definition disk_byte_write :: "int \<Rightarrow> byte list \<Rightarrow> os_state \<Rightarrow> os_state" where
  "disk_byte_write f bs e =
     e\<lparr>disk := (disk e)(f := take (fpos e f) (disk e f)
                              @ replicate (fpos e f - length (disk e f)) 0
                              @ bs
                              @ drop (fpos e f + length bs) (disk e f)),
       fpos := (fpos e)(f := fpos e f + length bs)\<rparr>"

definition disk_fsync :: "int \<Rightarrow> os_state \<Rightarrow> os_state" where
  "disk_fsync f e = e\<lparr>fsynced_fds := f # fsynced_fds e\<rparr>"

definition disk_close :: "int \<Rightarrow> os_state \<Rightarrow> os_state" where
  "disk_close f e = e\<lparr>closed_fds := f # closed_fds e\<rparr>"

subsection \<open>The flusher\<close>

text \<open>\<^verbatim>\<open>if ((++i) == fqsz) i = 0\<close> on a \<^verbatim>\<open>uint32_t\<close> index.\<close>

definition fq_next :: "nat \<Rightarrow> nat \<Rightarrow> nat" where
  "fq_next i q = (let j = u32 (int i + 1) in if j = q then 0 else j)"

text \<open>The bytes \<^verbatim>\<open>&data[p]\<close> .. of length \<open>n\<close>.\<close>

definition buf_bytes :: "log_BUFFER \<Rightarrow> nat \<Rightarrow> nat \<Rightarrow> byte list" where
  "buf_bytes lb p n = map (data lb) [p ..< p + n]"

definition do_log_file_write :: "byte list \<Rightarrow> bool \<Rightarrow> log_global \<Rightarrow> log_global option" where
  "do_log_file_write bs dual s =
     (let lf = log_file s in
      if fd (curr lf) = -1 then None
      else
        let e1 = disk_byte_write (fd (curr lf)) bs (os s);
            lf1 = lf\<lparr>curr := (curr lf)\<lparr>size_fs := u64 (int (size_fs (curr lf)) + int (length bs))\<rparr>\<rparr>
        in if dual \<and> fd (next_fs lf) \<noteq> -1
           then Some (s\<lparr>log_file :=
                          lf1\<lparr>next_fs := (next_fs lf)\<lparr>size_fs :=
                                 u64 (int (size_fs (next_fs lf)) + int (length bs))\<rparr>\<rparr>,
                        os := disk_byte_write (fd (next_fs lf)) bs e1\<rparr>)
           else Some (s\<lparr>log_file := lf1, os := e1\<rparr>))"

text \<open>\<^verbatim>\<open>if (head == last) { last = -1; head = 0; }\<close>, which the flusher does twice.\<close>

definition wrap_reclaim :: "log_BUFFER \<Rightarrow> log_BUFFER" where
  "wrap_reclaim lb = (if head lb = u32 (last_lb lb) then lb\<lparr>last_lb := -1, head := 0\<rparr> else lb)"

text \<open>\<^verbatim>\<open>if (fbgn == dw_end) { dw_end = -1; next_fhlsn_flag = true; }\<close>: the buffer.\<close>

definition end_cleanup :: "log_BUFFER \<Rightarrow> log_BUFFER" where
  "end_cleanup lb = (if fbgn lb = u32 (dw_end lb) then lb\<lparr>dw_end := -1\<rparr> else lb)"

text \<open>
  The first critical section of \<^verbatim>\<open>do_log_buff_flush\<close>: it returns the flush size, the
  dual-write flag of the selected request, \<^verbatim>\<open>next_fhlsn_flag\<close>, \<^verbatim>\<open>cleanup_process\<close> and
  the buffer; \<open>None\<close> when \<^verbatim>\<open>assert(nflush > 0)\<close> fails.
\<close>

definition flush_select ::
  "bool \<Rightarrow> log_BUFFER \<Rightarrow> (nat \<times> bool \<times> bool \<times> bool \<times> log_BUFFER) option" where
  "flush_select flush_all lb =
     (let cleanup_process = (dw_end lb \<noteq> -1);
          next_fhlsn_flag = (fbgn lb = u32 (dw_end lb));
          lb1 = end_cleanup lb
      in if fbgn lb1 \<noteq> fend lb1 then
           (if nflush (fque lb1 (fbgn lb1)) = 0 then None
            else Some (nflush (fque lb1 (fbgn lb1)), dual_write (fque lb1 (fbgn lb1)),
                       next_fhlsn_flag, cleanup_process, wrap_reclaim lb1))
         else if flush_all \<and> nflush (fque lb1 (fend lb1)) > 0 then
           Some (nflush (fque lb1 (fend lb1)), dual_write (fque lb1 (fend lb1)),
                 next_fhlsn_flag, cleanup_process,
                 wrap_reclaim (lb1\<lparr>fend := fq_next (fend lb1) (fqsz lb1)\<rparr>))
         else Some (0, False, next_fhlsn_flag, cleanup_process, lb1))"

text \<open>The last critical section: the request at \<open>fbgn\<close> is consumed.\<close>

definition flush_consume :: "nat \<Rightarrow> log_BUFFER \<Rightarrow> log_BUFFER" where
  "flush_consume n lb =
     (let lb1 = wrap_reclaim (lb\<lparr>head := u32 (int (head lb) + int n)\<rparr>)
      in lb1\<lparr>fque := (fque lb1)(fbgn lb1 := \<lparr>nflush = 0, dual_write = False\<rparr>),
             fbgn := fq_next (fbgn lb1) (fqsz lb1)\<rparr>)"

definition bump_filenum :: "LogSN \<Rightarrow> LogSN" where
  "bump_filenum l = l\<lparr>filenum := u32 (int (filenum l) + 1), roffset := 0\<rparr>"

definition add_roffset :: "nat \<Rightarrow> LogSN \<Rightarrow> LogSN" where
  "add_roffset n l = l\<lparr>roffset := u64 (int (roffset l) + int n)\<rparr>"

text \<open>The three steps of \<^verbatim>\<open>do_log_buff_flush\<close> after the selection: the flush LSN
  moves to the next file when \<^verbatim>\<open>next_fhlsn_flag\<close> is set; the bytes are written, in a
  cleanup only those of a dual-write request and only to \<^verbatim>\<open>curr.fd\<close>; the flush LSN moves
  past the bytes and the request is consumed.\<close>

definition flush_lsn_step :: "bool \<Rightarrow> log_BUFFER \<Rightarrow> log_global \<Rightarrow> log_global" where
  "flush_lsn_step next_fhlsn_flag lb s =
     s\<lparr>log_buffer := lb,
       nxt_flush_lsn := (if next_fhlsn_flag then bump_filenum (nxt_flush_lsn s)
                         else nxt_flush_lsn s)\<rparr>"

definition flush_write :: "bool \<Rightarrow> bool \<Rightarrow> byte list \<Rightarrow> log_global \<Rightarrow> log_global option" where
  "flush_write cleanup_process dual_write_flag bs s =
     (if cleanup_process
      then (if dual_write_flag then do_log_file_write bs False s else Some s)
      else do_log_file_write bs dual_write_flag s)"

definition flush_finish :: "nat \<Rightarrow> log_global \<Rightarrow> log_global" where
  "flush_finish n s =
     s\<lparr>nxt_flush_lsn := add_roffset n (nxt_flush_lsn s),
       log_buffer := flush_consume n (log_buffer s)\<rparr>"

definition do_log_buff_flush :: "bool \<Rightarrow> log_global \<Rightarrow> (nat \<times> log_global) option" where
  "do_log_buff_flush flush_all s =
     (case flush_select flush_all (log_buffer s) of
        None \<Rightarrow> None
      | Some (n, dual_write_flag, next_fhlsn_flag, cleanup_process, lb) \<Rightarrow>
          if n = 0 then Some (0, flush_lsn_step next_fhlsn_flag lb s)
          else
            (case flush_write cleanup_process dual_write_flag (buf_bytes lb (head lb) n)
                    (flush_lsn_step next_fhlsn_flag lb s) of
               None \<Rightarrow> None
             | Some s2 \<Rightarrow> Some (n, flush_finish n s2)))"

subsection \<open>The write path\<close>

text \<open>
  Modelled from the spec: the record codec (\<^verbatim>\<open>cmdlogrec.c\<close>, not among the sources). A
  record carries the \<^verbatim>\<open>body_length\<close> of its header (a \<^verbatim>\<open>uint32_t\<close>) and its serialised
  image, byte by byte; \<^verbatim>\<open>lrec_write_to_buffer\<close> serialises the record into
  \<open>data[tail .. tail + total_length)\<close>.
\<close>

record LogRec =
  body_length :: nat
  serial :: "nat \<Rightarrow> byte"

record log_waiter_t =
  lsn :: LogSN

definition lrec_write_to_buffer :: "LogRec \<Rightarrow> nat \<Rightarrow> nat \<Rightarrow> (nat \<Rightarrow> byte) \<Rightarrow> (nat \<Rightarrow> byte)" where
  "lrec_write_to_buffer logrec p len d =
     (\<lambda>i. if p \<le> i \<and> i < p + len then serial logrec (i - p) else d i)"

text \<open>
  One pass through the body of the \<^verbatim>\<open>while (1)\<close> of \<^verbatim>\<open>do_log_buff_write\<close>, up to
  its last \<^verbatim>\<open>break\<close>: \<open>Some (True, lb)\<close> when the loop is left with enough space,
  \<open>Some (False, lb)\<close> when space is lacking, \<open>None\<close> when an assertion fails. The buffer
  returned is wrapped where the source wraps it.
\<close>

definition space_check :: "nat \<Rightarrow> log_BUFFER \<Rightarrow> (bool \<times> log_BUFFER) option" where
  "space_check total_length lb =
     (if head lb \<le> tail lb then
        (if last_lb lb \<noteq> -1 then None
         else if total_length < u32 (int (size_lb lb) - int (tail lb)) then Some (True, lb)
         else if head lb > 0 then
           (let lb1 = lb\<lparr>last_lb := i32 (int (tail lb)), tail := 0,
                         fend := (if nflush (fque lb (fend lb)) > 0
                                  then fq_next (fend lb) (fqsz lb) else fend lb)\<rparr>
            in Some (total_length < head lb1, lb1))
         else Some (False, lb))
      else
        (if last_lb lb = -1 then None
         else Some (total_length < u32 (int (head lb) - int (tail lb)), lb)))"

text \<open>
  The loop itself. When the space is lacking it flushes one closed request and tries again;
  with nothing to flush it spins, since no other thread runs here.
\<close>

partial_function (option) buff_find_space :: "nat \<Rightarrow> log_global \<Rightarrow> log_global option" where
  "buff_find_space total_length s =
     (case space_check total_length (log_buffer s) of
        None \<Rightarrow> None
      | Some (enough, lb) \<Rightarrow>
          if enough then Some (s\<lparr>log_buffer := lb\<rparr>)
          else
            (case do_log_buff_flush False (s\<lparr>log_buffer := lb\<rparr>) of
               None \<Rightarrow> None
             | Some (n, s2) \<Rightarrow> buff_find_space total_length s2))"

text \<open>One pass through the \<^verbatim>\<open>while (total_length > 0)\<close> that spreads a record over
  flush requests: the bytes given to the request at \<open>fend\<close>, and the buffer.\<close>

definition fque_put :: "nat \<Rightarrow> bool \<Rightarrow> log_BUFFER \<Rightarrow> nat \<times> log_BUFFER" where
  "fque_put total_length dual lb =
     (let spare0 = u32 (int CMDLOG_FLUSH_AUTO_SIZE - int (nflush (fque lb (fend lb))));
          spare_length = (if spare0 \<ge> total_length then total_length else spare0);
          q = \<lparr>nflush = u16 (int (nflush (fque lb (fend lb))) + int spare_length),
               dual_write = dual\<rparr>;
          lb1 = lb\<lparr>fque := (fque lb)(fend lb := q)\<rparr>
      in (spare_length,
          if nflush q = CMDLOG_FLUSH_AUTO_SIZE
          then lb1\<lparr>fend := fq_next (fend lb1) (fqsz lb1)\<rparr> else lb1))"

partial_function (option) fque_append :: "nat \<Rightarrow> bool \<Rightarrow> log_BUFFER \<Rightarrow> log_BUFFER option" where
  "fque_append total_length dual lb =
     (if total_length > 0 then
        fque_append (u32 (int total_length - int (fst (fque_put total_length dual lb)))) dual
          (snd (fque_put total_length dual lb))
      else Some lb)"

definition total_length_of :: "LogRec \<Rightarrow> nat" where
  "total_length_of logrec = u32 (int sizeof_LogHdr + int (body_length logrec))"

text \<open>The buffer after the record is in place at \<open>tail\<close>: \<open>tail\<close> moves, and the open
  request is closed when its dual-write flag differs from the record's.\<close>

definition buff_place :: "LogRec \<Rightarrow> nat \<Rightarrow> bool \<Rightarrow> log_BUFFER \<Rightarrow> log_BUFFER" where
  "buff_place logrec total_length dual lb =
     lb\<lparr>data := lrec_write_to_buffer logrec (tail lb) total_length (data lb),
        tail := u32 (int (tail lb) + int total_length),
        fend := (if nflush (fque lb (fend lb)) > 0 \<and> dual_write (fque lb (fend lb)) \<noteq> dual
                 then fq_next (fend lb) (fqsz lb) else fend lb)\<rparr>"

definition do_log_buff_write ::
  "LogRec \<Rightarrow> log_waiter_t option \<Rightarrow> bool \<Rightarrow> log_global
     \<Rightarrow> (log_waiter_t option \<times> log_global) option" where
  "do_log_buff_write logrec waiter dual s =
     (let total_length = total_length_of logrec in
      if \<not> total_length < size_lb (log_buffer s) then None
      else
        (case buff_find_space total_length s of
           None \<Rightarrow> None
         | Some s1 \<Rightarrow>
             (case fque_append total_length dual
                     (buff_place logrec total_length dual (log_buffer s1)) of
                None \<Rightarrow> None
              | Some lb \<Rightarrow>
                  Some (map_option (\<lambda>w. w\<lparr>lsn := nxt_write_lsn s\<rparr>) waiter,
                        s1\<lparr>log_buffer := lb,
                           nxt_write_lsn := add_roffset total_length (nxt_write_lsn s1)\<rparr>))))"

definition log_record_write ::
  "LogRec \<Rightarrow> log_waiter_t option \<Rightarrow> bool \<Rightarrow> log_global
     \<Rightarrow> (log_waiter_t option \<times> log_global) option" where
  "log_record_write logrec waiter dual s = do_log_buff_write logrec waiter dual s"

subsection \<open>Sync and flush on demand\<close>

definition log_file_sync :: "log_global \<Rightarrow> log_global option" where
  "log_file_sync s =
     (let now_flush_lsn = nxt_flush_lsn s;
          fd0 = fd (curr (log_file s));
          next_fd = fd (next_fs (log_file s));
          lf1 = (log_file s)\<lparr>curr := (curr (log_file s))\<lparr>fsync_ongoing := True\<rparr>\<rparr>;
          lf2 = (if next_fd \<noteq> -1
                 then lf1\<lparr>next_fs := (next_fs lf1)\<lparr>fsync_ongoing := True\<rparr>\<rparr> else lf1)
      in if fd0 = -1 then None
         else
           (let e1 = disk_fsync fd0 (os s);
                e2 = (if next_fd \<noteq> -1 then disk_fsync next_fd e1 else e1);
                lf3 = (if fd0 = fd (curr lf2)
                       then lf2\<lparr>curr := (curr lf2)\<lparr>fsync_ongoing := False\<rparr>\<rparr> else lf2);
                e3 = (if fd0 = fd (curr lf2) then e2 else disk_close fd0 e2);
                lf4 = (if next_fd \<noteq> -1 then
                         (if next_fd = fd (curr lf3)
                          then lf3\<lparr>curr := (curr lf3)\<lparr>fsync_ongoing := False\<rparr>\<rparr>
                          else if next_fd = fd (next_fs lf3)
                          then lf3\<lparr>next_fs := (next_fs lf3)\<lparr>fsync_ongoing := False\<rparr>\<rparr>
                          else lf3)
                       else lf3);
                e4 = (if next_fd \<noteq> -1 \<and> next_fd \<noteq> fd (curr lf3) \<and> next_fd \<noteq> fd (next_fs lf3)
                      then disk_close next_fd e3 else e3)
            in Some (s\<lparr>log_file := lf4, nxt_fsync_lsn := now_flush_lsn, os := e4\<rparr>)))"

partial_function (option) log_buffer_flush :: "LogSN \<Rightarrow> log_global \<Rightarrow> log_global option" where
  "log_buffer_flush upto_lsn s =
     (if LOGSN_IS_LE (nxt_flush_lsn s) upto_lsn then
        (case do_log_buff_flush True s of
           None \<Rightarrow> None
         | Some (n, s1) \<Rightarrow>
             if n = 0 then None
             else if LOGSN_IS_GT (nxt_flush_lsn s1) upto_lsn then Some s1
             else log_buffer_flush upto_lsn s1)
      else Some s)"

subsection \<open>Rotation\<close>

text \<open>The loop of the abort branch: it clears \<open>dual_write\<close> from \<open>fbgn\<close> on, up to the
  first empty request.\<close>

partial_function (option) reset_dual_write :: "nat \<Rightarrow> log_BUFFER \<Rightarrow> log_BUFFER option" where
  "reset_dual_write index lb =
     (if nflush (fque lb index) > 0 then
        reset_dual_write (fq_next index (fqsz lb))
          (if dual_write (fque lb index)
           then lb\<lparr>fque := (fque lb)(index := (fque lb index)\<lparr>dual_write := False\<rparr>)\<rparr>
           else lb)
      else Some lb)"

definition cmdlog_complete_dual_write :: "bool \<Rightarrow> log_global \<Rightarrow> log_global option" where
  "cmdlog_complete_dual_write success s =
     (let lf = log_file s; lb = log_buffer s in
      if fd (next_fs lf) = -1 then Some s
      else if success then
        (let lb1 = (if nflush (fque lb (fend lb)) > 0
                    then lb\<lparr>fend := fq_next (fend lb) (fqsz lb)\<rparr> else lb)
         in if dw_end lb1 \<noteq> -1 then None
            else
              (let prev_fd = fd (curr lf);
                   prev_fsync_ongoing = fsync_ongoing (curr lf)
               in Some (s\<lparr>log_buffer := lb1\<lparr>dw_end := i32 (int (fend lb1))\<rparr>,
                          nxt_write_lsn := bump_filenum (nxt_write_lsn s),
                          log_file := \<lparr>curr = next_fs lf,
                                       next_fs = \<lparr>fd = -1, fsync_ongoing = False, size_fs = 0\<rparr>\<rparr>,
                          os := (if prev_fd \<noteq> -1 \<and> \<not> prev_fsync_ongoing
                                 then disk_close prev_fd (os s) else os s)\<rparr>)))
      else
        (case reset_dual_write (fbgn lb) lb of
           None \<Rightarrow> None
         | Some lb1 \<Rightarrow>
             (let prev_fd = fd (next_fs lf);
                  prev_fsync_ongoing = fsync_ongoing (next_fs lf)
              in Some (s\<lparr>log_buffer := lb1,
                         log_file := lf\<lparr>next_fs := \<lparr>fd = -1, fsync_ongoing = False, size_fs = 0\<rparr>\<rparr>,
                         os := (if prev_fd \<noteq> -1 \<and> \<not> prev_fsync_ongoing
                                then disk_close prev_fd (os s) else os s)\<rparr>))))"

text \<open>\<^verbatim>\<open>cmdlog_file_prepare\<close>; \<open>opened\<close> is what \<^verbatim>\<open>disk_open\<close> returned, a fresh
  descriptor at offset 0 or a negative number.\<close>

definition cmdlog_file_prepare :: "int \<Rightarrow> log_global \<Rightarrow> int \<times> log_global" where
  "cmdlog_file_prepare opened s =
     (if opened < 0 then (-1, s)
      else
        (let e = (os s)\<lparr>fpos := (fpos (os s))(opened := 0)\<rparr>;
             fresh = \<lparr>fd = opened, fsync_ongoing = False, size_fs = 0\<rparr>
         in if fd (curr (log_file s)) = -1
            then (0, s\<lparr>log_file := (log_file s)\<lparr>curr := fresh\<rparr>, os := e\<rparr>)
            else (0, s\<lparr>log_file := (log_file s)\<lparr>next_fs := fresh\<rparr>, os := e\<rparr>)))"

definition cmdlog_file_getsize :: "log_global \<Rightarrow> nat" where
  "cmdlog_file_getsize s =
     (if dw_end (log_buffer s) = -1 then size_fs (curr (log_file s)) else 0)"

subsection \<open>Initialisation\<close>

text \<open>\<^verbatim>\<open>cmdlog_buf_init\<close> with both allocations succeeding; \<open>bsz\<close> is
  \<^verbatim>\<open>CMDLOG_BUFFER_SIZE\<close>, \<open>e\<close> the files as they are.\<close>

definition buf_init :: "nat \<Rightarrow> os_state \<Rightarrow> log_global" where
  "buf_init bsz e =
     \<lparr>log_file = \<lparr>curr = \<lparr>fd = -1, fsync_ongoing = False, size_fs = 0\<rparr>,
                  next_fs = \<lparr>fd = -1, fsync_ongoing = False, size_fs = 0\<rparr>\<rparr>,
      log_buffer = \<lparr>data = (\<lambda>_. 0), size_lb = bsz, head = 0, tail = 0, last_lb = -1,
                    fque = (\<lambda>_. \<lparr>nflush = 0, dual_write = False\<rparr>),
                    fqsz = bsz div CMDLOG_RECORD_MIN_SIZE, fbgn = 0, fend = 0, dw_end = -1\<rparr>,
      nxt_write_lsn = \<lparr>filenum = 1, roffset = 0\<rparr>,
      nxt_flush_lsn = \<lparr>filenum = 1, roffset = 0\<rparr>,
      nxt_fsync_lsn = \<lparr>filenum = 1, roffset = 0\<rparr>,
      initialized = True,
      os = e\<rparr>"

definition cmdlog_buf_init :: "os_state \<Rightarrow> log_global" where
  "cmdlog_buf_init e = buf_init CMDLOG_BUFFER_SIZE e"

definition no_files :: os_state where
  "no_files = \<lparr>disk = (\<lambda>_. []), fpos = (\<lambda>_. 0), fsynced_fds = [], closed_fds = []\<rparr>"

subsection \<open>Recovery\<close>

datatype ENGINE_ERROR_CODE = ENGINE_SUCCESS | ENGINE_ENOMEM | ENGINE_FAILED

text \<open>
  Modelled from the spec: what \<^verbatim>\<open>cmdlog_file_apply\<close> takes from headers that are not among
  the sources. \<open>hdr_body_length\<close> reads \<^verbatim>\<open>body_length\<close> (a \<^verbatim>\<open>uint32_t\<close>) out of the
  bytes of a header, \<open>lrec_redo_from_record\<close> is the result of the codec's redo hook on a
  header and a body, and \<open>MAX_LOG_RECORD_SIZE\<close> is the constant of that name.
\<close>

record recovery_codec =
  hdr_body_length :: "byte list \<Rightarrow> nat"
  lrec_redo_from_record :: "byte list \<Rightarrow> byte list \<Rightarrow> ENGINE_ERROR_CODE"
  MAX_LOG_RECORD_SIZE :: nat

text \<open>\<^verbatim>\<open>read(fd, buf, n)\<close>: the bytes from the descriptor's offset on, at most \<open>n\<close>.\<close>

definition set_fpos :: "int \<Rightarrow> nat \<Rightarrow> os_state \<Rightarrow> os_state" where
  "set_fpos f n e = e\<lparr>fpos := (fpos e)(f := n)\<rparr>"

definition disk_read :: "int \<Rightarrow> nat \<Rightarrow> os_state \<Rightarrow> byte list \<times> os_state" where
  "disk_read f n e =
     (let bs = take n (drop (fpos e f) (disk e f))
      in (bs, set_fpos f (fpos e f + length bs) e))"

text \<open>\<^verbatim>\<open>lseek(fd, -n, SEEK_CUR)\<close>: the new offset, or \<open>None\<close> where it would be negative.\<close>

definition disk_seek_back :: "int \<Rightarrow> nat \<Rightarrow> os_state \<Rightarrow> (nat \<times> os_state) option" where
  "disk_seek_back f n e =
     (if fpos e f < n then None
      else Some (fpos e f - n, set_fpos f (fpos e f - n) e))"

text \<open>
  The \<^verbatim>\<open>while\<close> of \<^verbatim>\<open>cmdlog_file_apply\<close>: it returns \<^verbatim>\<open>ret\<close>, \<^verbatim>\<open>seek_offset\<close>, the
  files, and the records given to the redo hook, in order. \<^verbatim>\<open>seek_offset\<close> is an
  \<^verbatim>\<open>int\<close>: what is added to it is reduced by \<open>i32\<close>, and where the source compares it
  with the \<^verbatim>\<open>size_t\<close> \<^verbatim>\<open>curr.size\<close>, or subtracts it from it, it is converted to 64 bits
  without sign (\<open>u64\<close>). A failing \<^verbatim>\<open>lseek\<close> returns -1.
\<close>

function apply_loop ::
  "recovery_codec \<Rightarrow> int \<Rightarrow> bool \<Rightarrow> nat \<Rightarrow> int \<Rightarrow> os_state \<Rightarrow> (byte list \<times> byte list) list
     \<Rightarrow> int \<times> int \<times> os_state \<times> (byte list \<times> byte list) list" where
  "apply_loop c f ini sz seek_offset e tr =
     (if \<not> (ini \<and> u64 seek_offset < sz) then (0, seek_offset, e, tr)
      else if u64 (int sz - seek_offset) < sizeof_LogHdr then (0, seek_offset, e, tr)
      else if length (fst (disk_read f sizeof_LogHdr e)) \<noteq> sizeof_LogHdr
      then (-1, seek_offset, snd (disk_read f sizeof_LogHdr e), tr)
      else
        (let hb = fst (disk_read f sizeof_LogHdr e);
             e1 = snd (disk_read f sizeof_LogHdr e);
             nread = length hb;
             so = i32 (seek_offset + int nread);
             bl = hdr_body_length c hb
         in if u64 (int sz - so) < bl then
              (case disk_seek_back f nread e1 of
                 None \<Rightarrow> (-1, -1, e1, tr)
               | Some (off, e2) \<Rightarrow> (if i32 (int off) < 0 then -1 else 0, i32 (int off), e2, tr))
            else if bl > 0 then
              (if u32 (int (MAX_LOG_RECORD_SIZE c) - int nread) < bl then (-1, so, e1, tr)
               else if length (fst (disk_read f bl e1)) \<noteq> bl
               then (-1, so, snd (disk_read f bl e1), tr)
               else if lrec_redo_from_record c hb (fst (disk_read f bl e1)) = ENGINE_ENOMEM
               then (-1, i32 (so + int bl), snd (disk_read f bl e1),
                     tr @ [(hb, fst (disk_read f bl e1))])
               else apply_loop c f ini sz (i32 (so + int bl)) (snd (disk_read f bl e1))
                      (tr @ [(hb, fst (disk_read f bl e1))]))
            else apply_loop c f ini sz so e1 tr))"
  by pat_completeness auto
termination
proof (relation "measure (\<lambda>(c, f, ini, sz, seek_offset, e, tr). length (disk e f) - fpos e f)")
  show "wf (measure (\<lambda>(c, f, ini, sz, seek_offset, e, tr). length (disk e f) - fpos e f))"
    by simp
next
  fix c :: recovery_codec and f :: int and ini :: bool and sz :: nat and seek_offset :: int
    and e :: os_state and tr :: "(byte list \<times> byte list) list"
    and x xa xb xc xd
  assume "\<not> length (fst (disk_read f sizeof_LogHdr e)) \<noteq> sizeof_LogHdr"
    and "x = fst (disk_read f sizeof_LogHdr e)" and "xa = snd (disk_read f sizeof_LogHdr e)"
    and "xd = hdr_body_length c x"
  then show "((c, f, ini, sz, i32 (xc + int xd), snd (disk_read f xd xa),
               tr @ [(x, fst (disk_read f xd xa))]),
              c, f, ini, sz, seek_offset, e, tr)
             \<in> measure (\<lambda>(c, f, ini, sz, seek_offset, e, tr). length (disk e f) - fpos e f)"
    by (auto simp: disk_read_def set_fpos_def sizeof_LogHdr_def Let_def)
next
  fix c :: recovery_codec and f :: int and ini :: bool and sz :: nat and seek_offset :: int
    and e :: os_state and tr :: "(byte list \<times> byte list) list"
    and x xa xb xc xd
  assume "\<not> length (fst (disk_read f sizeof_LogHdr e)) \<noteq> sizeof_LogHdr"
    and "x = fst (disk_read f sizeof_LogHdr e)" and "xa = snd (disk_read f sizeof_LogHdr e)"
  then show "((c, f, ini, sz, xc, xa, tr), c, f, ini, sz, seek_offset, e, tr)
             \<in> measure (\<lambda>(c, f, ini, sz, seek_offset, e, tr). length (disk e f) - fpos e f)"
    by (auto simp: disk_read_def set_fpos_def sizeof_LogHdr_def Let_def)
qed

definition cmdlog_file_apply ::
  "recovery_codec \<Rightarrow> log_global \<Rightarrow> (int \<times> log_global \<times> (byte list \<times> byte list) list) option" where
  "cmdlog_file_apply c s =
     (let f = fd (curr (log_file s)) in
      if \<not> f > 0 then None
      else
        (let sz = length (disk (os s) f);
             s1 = s\<lparr>log_file := (log_file s)\<lparr>curr := (curr (log_file s))\<lparr>size_fs := sz\<rparr>\<rparr>\<rparr>
         in if sz = 0 then Some (0, s1, [])
            else
              (case apply_loop c f (initialized s) sz 0 (os s) [] of
                 (ret, seek_offset, e, tr) \<Rightarrow>
                   if ret < 0 then Some (ret, s1\<lparr>os := disk_close f e\<rparr>, tr)
                   else Some (ret,
                              s1\<lparr>log_file := (log_file s1)
                                    \<lparr>curr := (curr (log_file s1))\<lparr>size_fs := u64 seek_offset\<rparr>\<rparr>,
                                 os := e\<rparr>, tr))))"

subsection \<open>Sequences of operations\<close>

datatype log_op =
    Prepare int
  | RecordWrite LogRec bool
  | FlushOnce bool
  | BufferFlush LogSN
  | FileSync
  | CompleteDualWrite bool

fun step :: "log_op \<Rightarrow> log_global \<Rightarrow> log_global option" where
  "step (Prepare opened) s = Some (snd (cmdlog_file_prepare opened s))"
| "step (RecordWrite logrec dual) s = map_option snd (log_record_write logrec None dual s)"
| "step (FlushOnce flush_all) s = map_option snd (do_log_buff_flush flush_all s)"
| "step (BufferFlush upto_lsn) s = log_buffer_flush upto_lsn s"
| "step FileSync s = log_file_sync s"
| "step (CompleteDualWrite success) s = cmdlog_complete_dual_write success s"

fun run :: "log_op list \<Rightarrow> log_global \<Rightarrow> log_global option" where
  "run [] s = Some s"
| "run (x # xs) s = (case step x s of None \<Rightarrow> None | Some s1 \<Rightarrow> run xs s1)"

declare buff_find_space.simps [code]
declare fque_append.simps [code]
declare log_buffer_flush.simps [code]
declare reset_dual_write.simps [code]

text \<open>Sample inputs: the record with a body of \<open>n\<close> bytes whose image counts its bytes,
  and the state after \<^verbatim>\<open>cmdlog_buf_init\<close> with no file on disk.\<close>

definition rec_of :: "nat \<Rightarrow> LogRec" where
  "rec_of n = \<lparr>body_length = n, serial = (\<lambda>i. of_nat i)\<rparr>"

definition fresh :: log_global where
  "fresh = cmdlog_buf_init no_files"

subsection \<open>Log files as sequences of records\<close>

text \<open>
  A record in a file is a header followed by a body. It is complete when the header has
  \<^verbatim>\<open>sizeof(LogHdr)\<close> bytes and the body as many as the header says. A torn tail is what
  a crash leaves of the record being written: less than a header, or a header and less than
  its body; the empty tail is torn too. A record is replayable when it is complete, its body
  is not longer than \<^verbatim>\<open>MAX_LOG_RECORD_SIZE - sizeof(LogHdr)\<close>, and the redo hook does not
  answer it with \<^verbatim>\<open>ENGINE_ENOMEM\<close>.
\<close>

definition rec_image :: "byte list \<times> byte list \<Rightarrow> byte list" where
  "rec_image r = fst r @ snd r"

definition complete_rec :: "recovery_codec \<Rightarrow> byte list \<times> byte list \<Rightarrow> bool" where
  "complete_rec c r =
     (length (fst r) = sizeof_LogHdr \<and> length (snd r) = hdr_body_length c (fst r))"

definition torn_tail :: "recovery_codec \<Rightarrow> byte list \<Rightarrow> bool" where
  "torn_tail c t =
     (length t < sizeof_LogHdr
      \<or> length t - sizeof_LogHdr < hdr_body_length c (take sizeof_LogHdr t))"

definition replayable :: "recovery_codec \<Rightarrow> byte list \<times> byte list \<Rightarrow> bool" where
  "replayable c r =
     (complete_rec c r
      \<and> length (snd r) \<le> MAX_LOG_RECORD_SIZE c - sizeof_LogHdr
      \<and> lrec_redo_from_record c (fst r) (snd r) \<noteq> ENGINE_ENOMEM)"

text \<open>Sample inputs for recovery: a codec whose headers hold \<^verbatim>\<open>body_length\<close> in bytes 4
  to 7, least significant first, whose redo hook runs out of memory on the body \<open>[255]\<close>, and
  whose records are at most 16 bytes; and the state after init and
  \<^verbatim>\<open>cmdlog_file_prepare\<close> of a file with the given content, on descriptor 3.\<close>

definition sample_codec :: recovery_codec where
  "sample_codec =
     \<lparr>hdr_body_length = (\<lambda>hb. foldr (\<lambda>b n. unat b + 256 * n) (take 4 (drop 4 hb)) 0),
      lrec_redo_from_record = (\<lambda>hb bb. if bb = [255] then ENGINE_ENOMEM else ENGINE_SUCCESS),
      MAX_LOG_RECORD_SIZE = 16\<rparr>"

definition recovering :: "byte list \<Rightarrow> log_global" where
  "recovering content =
     snd (cmdlog_file_prepare 3 (cmdlog_buf_init (no_files\<lparr>disk := (\<lambda>_. [])(3 := content)\<rparr>)))"

subsection \<open>The request queue as a list, and what a run must respect\<close>

text \<open>
  The flush requests in use are those from \<open>fbgn\<close> to \<open>fend\<close>, in ring order:
  \<open>slot_at F b i\<close> is the index of the \<open>i\<close>-th of them in a queue of \<open>F\<close> requests that
  begins at \<open>b\<close>, and \<open>win q F b m\<close> lists the sizes of the first \<open>m + 1\<close>: \<open>m\<close> closed
  requests and the open one at \<open>fend\<close>. \<open>qlen\<close> computes \<open>m\<close> from the indices.
\<close>

definition slot_at :: "nat \<Rightarrow> nat \<Rightarrow> nat \<Rightarrow> nat" where
  "slot_at F b i = (b + i) mod F"

definition win :: "(nat \<Rightarrow> log_FREQ) \<Rightarrow> nat \<Rightarrow> nat \<Rightarrow> nat \<Rightarrow> nat list" where
  "win q F b m = map (\<lambda>i. nflush (q (slot_at F b i))) [0 ..< Suc m]"

definition qlen :: "log_BUFFER \<Rightarrow> nat" where
  "qlen lb = (fend lb + fqsz lb - fbgn lb) mod fqsz lb"

text \<open>
  The shape of the queue: \<open>m\<close> closed requests, none of them empty, then the open request at
  \<open>fend\<close>, which is not full, then empty requests only; no request holds more than
  \<^verbatim>\<open>CMDLOG_FLUSH_AUTO_SIZE\<close> bytes.
\<close>

definition qinv :: "(nat \<Rightarrow> log_FREQ) \<Rightarrow> nat \<Rightarrow> nat \<Rightarrow> nat \<Rightarrow> nat \<Rightarrow> bool" where
  "qinv q F b e m =
     (2 \<le> F \<and> F < 2 ^ 31 \<and> b < F \<and> m < F \<and> e = slot_at F b m
      \<and> (\<forall>i. m < i \<and> i < F \<longrightarrow> nflush (q (slot_at F b i)) = 0)
      \<and> (\<forall>i < m. 0 < nflush (q (slot_at F b i)))
      \<and> (\<forall>j. nflush (q j) \<le> CMDLOG_FLUSH_AUTO_SIZE)
      \<and> nflush (q e) < CMDLOG_FLUSH_AUTO_SIZE)"

text \<open>
  The three LSNs against the queue. Outside a cleanup window the write LSN is the flush LSN
  plus the bytes waiting in the queue. In a cleanup window (\<open>dw_end\<close> is the \<open>d\<close>-th request)
  the write LSN is in the next file, at the offset given by the bytes from \<open>dw_end\<close> on,
  while the flush LSN still has the \<open>d\<close> requests before \<open>dw_end\<close> to go through in the old
  file.
\<close>

definition lsn_rel ::
  "LogSN \<Rightarrow> LogSN \<Rightarrow> LogSN \<Rightarrow> int \<Rightarrow> nat \<Rightarrow> nat \<Rightarrow> nat \<Rightarrow> nat list \<Rightarrow> bool" where
  "lsn_rel w f y dw F b m ns =
     (filenum w < 2 ^ 32 \<and> roffset w < 2 ^ 64 \<and> LOGSN_IS_LE y f
      \<and> (dw = -1 \<longrightarrow> filenum f = filenum w \<and> roffset w = roffset f + sum_list ns)
      \<and> (dw \<noteq> -1 \<longrightarrow>
           (\<exists>d\<le>m. dw = int (slot_at F b d) \<and> filenum w = filenum f + 1
                 \<and> roffset w = sum_list (drop d ns)
                 \<and> roffset f + sum_list (take d ns) < 2 ^ 64)))"

definition inv_at :: "log_global \<Rightarrow> nat \<Rightarrow> bool" where
  "inv_at s m =
     (qinv (fque (log_buffer s)) (fqsz (log_buffer s)) (fbgn (log_buffer s))
        (fend (log_buffer s)) m
      \<and> lsn_rel (nxt_write_lsn s) (nxt_flush_lsn s) (nxt_fsync_lsn s) (dw_end (log_buffer s))
          (fqsz (log_buffer s)) (fbgn (log_buffer s)) m
          (win (fque (log_buffer s)) (fqsz (log_buffer s)) (fbgn (log_buffer s)) m))"

text \<open>
  The ring of bytes. The requests of the queue lie one after the other in the buffer, the
  first at \<open>head\<close>, the last ending at \<open>tail\<close>. \<open>layout h l ns\<close> walks requests of sizes \<open>ns\<close>
  from \<open>head = h\<close> with \<open>last = l\<close> the way \<^verbatim>\<open>do_log_buff_flush\<close> consumes them: a request
  that finds \<open>head = last\<close> starts again at 0, a request never runs over \<open>last\<close>, and the
  result is where the walk ends. \<open>rinv\<close> says that the walk ends at \<open>tail\<close> with the wrap
  consumed, within a buffer of \<open>sz\<close> bytes in one of its two shapes: not wrapped
  (\<open>last = -1\<close>, \<open>head \<le> tail\<close>) or wrapped (\<open>tail < head \<le> last\<close>). \<open>room t lb\<close> is what
  \<^verbatim>\<open>do_log_buff_write\<close> waits for before it copies \<open>t\<close> bytes at \<open>tail\<close>.
\<close>

fun layout :: "nat \<Rightarrow> int \<Rightarrow> nat list \<Rightarrow> (nat \<times> int) option" where
  "layout h l [] = Some (if int h = l then (0, -1) else (h, l))"
| "layout h l (n # ns) =
     (if n = 0 then layout h l ns
      else if int h = l then layout n (-1) ns
      else if l \<noteq> -1 \<and> l < int (h + n) then None
      else layout (h + n) l ns)"

definition rinv :: "nat \<Rightarrow> nat \<Rightarrow> nat \<Rightarrow> int \<Rightarrow> nat list \<Rightarrow> bool" where
  "rinv sz h t l ns =
     (sz < 2 ^ 31
      \<and> ((l = -1 \<and> h \<le> t \<and> t < sz) \<or> (0 \<le> l \<and> t < h \<and> int h \<le> l \<and> l < int sz))
      \<and> layout h l ns = Some (t, -1)
      \<and> (l \<noteq> -1 \<and> t = 0 \<longrightarrow> last ns = 0)
      \<and> ns \<noteq> [])"

definition ring_at :: "log_global \<Rightarrow> nat \<Rightarrow> bool" where
  "ring_at s m =
     rinv (size_lb (log_buffer s)) (head (log_buffer s)) (tail (log_buffer s))
       (last_lb (log_buffer s))
       (win (fque (log_buffer s)) (fqsz (log_buffer s)) (fbgn (log_buffer s)) m)"

definition room :: "nat \<Rightarrow> log_BUFFER \<Rightarrow> bool" where
  "room t lb =
     (if head lb \<le> tail lb then last_lb lb = -1 \<and> tail lb + t < size_lb lb
      else tail lb + t < head lb)"

text \<open>
  What the \<^verbatim>\<open>while (total_length > 0)\<close> of \<^verbatim>\<open>do_log_buff_write\<close> does to the list of
  request sizes when it spreads \<open>t\<close> bytes: the open request is filled up, and closed when
  full, until the bytes are used up.
\<close>

function add_bytes :: "nat \<Rightarrow> nat list \<Rightarrow> nat list" where
  "add_bytes t ns =
     (if t = 0 \<or> ns = [] \<or> CMDLOG_FLUSH_AUTO_SIZE \<le> last ns then ns
      else if last ns + t < CMDLOG_FLUSH_AUTO_SIZE then butlast ns @ [last ns + t]
      else add_bytes (t - (CMDLOG_FLUSH_AUTO_SIZE - last ns))
             (butlast ns @ [CMDLOG_FLUSH_AUTO_SIZE, 0]))"
  by pat_completeness auto
termination
  by (relation "measure fst") auto

text \<open>
  The limits of the counters. The queue has \<open>fqsz\<close> requests and the source never checks
  that \<open>fend\<close> stays behind \<open>fbgn\<close>; the file number is a \<^verbatim>\<open>uint32_t\<close> and the offset a
  \<^verbatim>\<open>uint64_t\<close>, and both are incremented unchecked. An operation is within the limits in a
  state when the requests it may close still fit in the queue and the write LSN does not
  wrap: a record write closes at most three requests besides those it fills, a completed
  rotation closes at most one and takes the next file number. \<open>limits_ok\<close> asks this of
  every operation of a run, in the state the operation starts from.
\<close>

definition within_limits :: "log_op \<Rightarrow> log_global \<Rightarrow> bool" where
  "within_limits x s =
     (case x of
        RecordWrite logrec dual \<Rightarrow>
          qlen (log_buffer s) + total_length_of logrec div CMDLOG_FLUSH_AUTO_SIZE + 3
            < fqsz (log_buffer s)
          \<and> roffset (nxt_write_lsn s) + total_length_of logrec < 2 ^ 64
      | CompleteDualWrite success \<Rightarrow>
          \<not> success \<or> fd (next_fs (log_file s)) = -1
          \<or> (qlen (log_buffer s) + 1 < fqsz (log_buffer s)
              \<and> filenum (nxt_write_lsn s) + 1 < 2 ^ 32)
      | _ \<Rightarrow> True)"

fun limits_ok :: "log_op list \<Rightarrow> log_global \<Rightarrow> bool" where
  "limits_ok [] s = True"
| "limits_ok (x # xs) s =
     (within_limits x s \<and> (case step x s of None \<Rightarrow> True | Some s1 \<Rightarrow> limits_ok xs s1))"

text \<open>The state after \<open>k\<close> rotations with nothing written and nothing synced: the buffer is
  as after init, the write and flush LSNs are at the start of file \<open>1 + k\<close> (modulo
  \<open>2 ^ 32\<close>), the fsync LSN is where init put it.\<close>

definition rotated :: "nat \<Rightarrow> log_global \<Rightarrow> bool" where
  "rotated k s =
     (log_buffer s = log_buffer fresh \<and> fd (curr (log_file s)) \<noteq> -1
      \<and> nxt_write_lsn s = \<lparr>filenum = u32 (1 + int k), roffset = 0\<rparr>
      \<and> nxt_flush_lsn s = \<lparr>filenum = u32 (1 + int k), roffset = 0\<rparr>
      \<and> nxt_fsync_lsn s = \<lparr>filenum = 1, roffset = 0\<rparr>)"

text \<open>
  The end of the pre-rotation file in a cleanup window: the flush LSN advanced by the bytes
  of the requests queued before \<open>dw_end\<close>. These are the bytes that the flush still has to
  write before it moves on to the next file.
\<close>

definition old_end :: "int \<Rightarrow> nat \<Rightarrow> nat \<Rightarrow> LogSN \<Rightarrow> nat list \<Rightarrow> nat" where
  "old_end dw F b f ns = roffset f + sum_list (take ((nat dw + F - b) mod F) ns)"

definition cleanup_end :: "log_global \<Rightarrow> LogSN" where
  "cleanup_end s =
     \<lparr>filenum = filenum (nxt_flush_lsn s),
      roffset = old_end (dw_end (log_buffer s)) (fqsz (log_buffer s)) (fbgn (log_buffer s))
                  (nxt_flush_lsn s)
                  (win (fque (log_buffer s)) (fqsz (log_buffer s)) (fbgn (log_buffer s))
                     (qlen (log_buffer s)))\<rparr>"

section \<open>Basic facts\<close>

lemmas eval_simps =
  u16_def u32_def u64_def i32_def CMDLOG_BUFFER_SIZE_def CMDLOG_FLUSH_AUTO_SIZE_def
  CMDLOG_RECORD_MIN_SIZE_def sizeof_LogHdr_def LOGSN_IS_LE_def LOGSN_IS_GT_def
  disk_byte_write_def disk_fsync_def disk_close_def fq_next_def buf_bytes_def
  do_log_file_write_def wrap_reclaim_def end_cleanup_def flush_select_def flush_consume_def
  bump_filenum_def add_roffset_def flush_lsn_step_def flush_write_def flush_finish_def
  do_log_buff_flush_def lrec_write_to_buffer_def space_check_def buff_find_space.simps
  fque_put_def fque_append.simps total_length_of_def buff_place_def do_log_buff_write_def
  log_record_write_def log_file_sync_def log_buffer_flush.simps reset_dual_write.simps
  set_fpos_def disk_read_def disk_seek_back_def
  cmdlog_complete_dual_write_def cmdlog_file_prepare_def cmdlog_file_getsize_def
  buf_init_def cmdlog_buf_init_def no_files_def rec_of_def fresh_def Let_def


lemma wrap_reclaim_fields [simp]:
  "data (wrap_reclaim lb) = data lb"
  "size_lb (wrap_reclaim lb) = size_lb lb"
  "tail (wrap_reclaim lb) = tail lb"
  "fque (wrap_reclaim lb) = fque lb"
  "fqsz (wrap_reclaim lb) = fqsz lb"
  "fbgn (wrap_reclaim lb) = fbgn lb"
  "fend (wrap_reclaim lb) = fend lb"
  "dw_end (wrap_reclaim lb) = dw_end lb"
  by (simp_all add: wrap_reclaim_def)

lemma end_cleanup_fields [simp]:
  "data (end_cleanup lb) = data lb"
  "size_lb (end_cleanup lb) = size_lb lb"
  "head (end_cleanup lb) = head lb"
  "tail (end_cleanup lb) = tail lb"
  "last_lb (end_cleanup lb) = last_lb lb"
  "fque (end_cleanup lb) = fque lb"
  "fqsz (end_cleanup lb) = fqsz lb"
  "fbgn (end_cleanup lb) = fbgn lb"
  "fend (end_cleanup lb) = fend lb"
  by (simp_all add: end_cleanup_def)

lemma flush_consume_fields [simp]:
  "data (flush_consume n lb) = data lb"
  "size_lb (flush_consume n lb) = size_lb lb"
  "tail (flush_consume n lb) = tail lb"
  "fqsz (flush_consume n lb) = fqsz lb"
  "fend (flush_consume n lb) = fend lb"
  "dw_end (flush_consume n lb) = dw_end lb"
  "fbgn (flush_consume n lb) = fq_next (fbgn lb) (fqsz lb)"
  "fque (flush_consume n lb) = (fque lb)(fbgn lb := \<lparr>nflush = 0, dual_write = False\<rparr>)"
  "head (flush_consume n lb) = head (wrap_reclaim (lb\<lparr>head := u32 (int (head lb) + int n)\<rparr>))"
  "last_lb (flush_consume n lb) = last_lb (wrap_reclaim (lb\<lparr>head := u32 (int (head lb) + int n)\<rparr>))"
  by (simp_all add: flush_consume_def Let_def)

lemma flush_lsn_step_fields [simp]:
  "log_buffer (flush_lsn_step f lb s) = lb"
  "log_file (flush_lsn_step f lb s) = log_file s"
  "os (flush_lsn_step f lb s) = os s"
  "nxt_write_lsn (flush_lsn_step f lb s) = nxt_write_lsn s"
  "nxt_fsync_lsn (flush_lsn_step f lb s) = nxt_fsync_lsn s"
  "initialized (flush_lsn_step f lb s) = initialized s"
  "nxt_flush_lsn (flush_lsn_step f lb s) =
     (if f then bump_filenum (nxt_flush_lsn s) else nxt_flush_lsn s)"
  by (simp_all add: flush_lsn_step_def)

lemma flush_finish_fields [simp]:
  "log_buffer (flush_finish n s) = flush_consume n (log_buffer s)"
  "log_file (flush_finish n s) = log_file s"
  "os (flush_finish n s) = os s"
  "nxt_write_lsn (flush_finish n s) = nxt_write_lsn s"
  "nxt_fsync_lsn (flush_finish n s) = nxt_fsync_lsn s"
  "initialized (flush_finish n s) = initialized s"
  "nxt_flush_lsn (flush_finish n s) = add_roffset n (nxt_flush_lsn s)"
  by (simp_all add: flush_finish_def)

lemma do_log_file_write_frame:
  assumes "do_log_file_write bs d s = Some s'"
  shows "log_buffer s' = log_buffer s" "nxt_write_lsn s' = nxt_write_lsn s"
    "nxt_flush_lsn s' = nxt_flush_lsn s" "nxt_fsync_lsn s' = nxt_fsync_lsn s"
    "initialized s' = initialized s"
  using assms
  by (auto simp: do_log_file_write_def Let_def split: if_splits)

lemma flush_write_frame:
  assumes "flush_write c d bs s = Some s'"
  shows "log_buffer s' = log_buffer s" "nxt_write_lsn s' = nxt_write_lsn s"
    "nxt_flush_lsn s' = nxt_flush_lsn s" "nxt_fsync_lsn s' = nxt_fsync_lsn s"
    "initialized s' = initialized s"
  using assms do_log_file_write_frame [of bs False s s'] do_log_file_write_frame [of bs d s s']
  by (simp_all add: flush_write_def split: if_splits)

lemma flush_select_frame:
  assumes "flush_select flush_all lb = Some (n, d, f, c, lb')"
  shows "data lb' = data lb" "size_lb lb' = size_lb lb" "tail lb' = tail lb"
    "fque lb' = fque lb" "fqsz lb' = fqsz lb" "fbgn lb' = fbgn lb"
  using assms
  by (auto simp: flush_select_def Let_def split: if_splits)

lemma do_log_buff_flush_inv:
  assumes "do_log_buff_flush flush_all s = Some (n, s')"
  obtains (idle) d f c lb where
      "flush_select flush_all (log_buffer s) = Some (0, d, f, c, lb)"
      "n = 0" "s' = flush_lsn_step f lb s"
    | (work) d f c lb s2 where
      "flush_select flush_all (log_buffer s) = Some (n, d, f, c, lb)"
      "0 < n"
      "flush_write c d (buf_bytes lb (head lb) n) (flush_lsn_step f lb s) = Some s2"
      "s' = flush_finish n s2"
proof (cases "flush_select flush_all (log_buffer s)")
  case None
  with assms show ?thesis by (simp add: do_log_buff_flush_def)
next
  case (Some r)
  obtain m d f c lb where r: "r = (m, d, f, c, lb)" by (cases r) auto
  show ?thesis
  proof (cases "m = 0")
    case True
    with assms Some r have "n = 0" "s' = flush_lsn_step f lb s"
      by (simp_all add: do_log_buff_flush_def)
    with Some r True idle show ?thesis by simp
  next
    case False
    with assms Some r obtain s2 where
      "flush_write c d (buf_bytes lb (head lb) m) (flush_lsn_step f lb s) = Some s2"
      "n = m" "s' = flush_finish m s2"
      by (auto simp: do_log_buff_flush_def split: option.splits)
    with Some r False work show ?thesis by simp
  qed
qed

lemma do_log_buff_flush_frame:
  assumes "do_log_buff_flush flush_all s = Some (n, s')"
  shows "nxt_write_lsn s' = nxt_write_lsn s \<and> nxt_fsync_lsn s' = nxt_fsync_lsn s \<and>
    initialized s' = initialized s \<and>
    data (log_buffer s') = data (log_buffer s) \<and>
    size_lb (log_buffer s') = size_lb (log_buffer s) \<and>
    tail (log_buffer s') = tail (log_buffer s) \<and>
    fqsz (log_buffer s') = fqsz (log_buffer s)"
  using assms
proof (cases rule: do_log_buff_flush_inv)
  case (idle d f c lb)
  then show ?thesis
    using flush_select_frame [OF idle(1)] by simp
next
  case (work d f c lb s2)
  then show ?thesis
    using flush_select_frame [OF work(1)] flush_write_frame [OF work(3)] by simp
qed

lemma buff_find_space_frame:
  assumes "buff_find_space total_length s = Some s'"
  shows "nxt_write_lsn s' = nxt_write_lsn s \<and>
    size_lb (log_buffer s') = size_lb (log_buffer s) \<and>
    (tail (log_buffer s') = tail (log_buffer s) \<or> tail (log_buffer s') = 0)"
proof (rule buff_find_space.raw_induct
    [where P = "\<lambda>t s s'. nxt_write_lsn s' = nxt_write_lsn s \<and>
            size_lb (log_buffer s') = size_lb (log_buffer s) \<and>
            (tail (log_buffer s') = tail (log_buffer s) \<or> tail (log_buffer s') = 0)",
      OF _ assms])
  fix find t s s'
  assume IH: "\<And>t s s'. find t s = Some s' \<Longrightarrow>
            nxt_write_lsn s' = nxt_write_lsn s \<and>
            size_lb (log_buffer s') = size_lb (log_buffer s) \<and>
            (tail (log_buffer s') = tail (log_buffer s) \<or> tail (log_buffer s') = 0)"
    and eq: "(case space_check t (log_buffer s) of None \<Rightarrow> None
      | Some (enough, lb) \<Rightarrow>
          if enough then Some (s\<lparr>log_buffer := lb\<rparr>)
          else (case do_log_buff_flush False (s\<lparr>log_buffer := lb\<rparr>) of
               None \<Rightarrow> None
             | Some (n, s2) \<Rightarrow> find t s2)) = Some s'"
  from eq obtain enough lb where
    sc: "space_check t (log_buffer s) = Some (enough, lb)"
    by (auto split: option.splits)
  have lb: "size_lb lb = size_lb (log_buffer s)" "tail lb = tail (log_buffer s) \<or> tail lb = 0"
    using sc by (auto simp: space_check_def Let_def split: if_splits)
  show "nxt_write_lsn s' = nxt_write_lsn s \<and>
            size_lb (log_buffer s') = size_lb (log_buffer s) \<and>
            (tail (log_buffer s') = tail (log_buffer s) \<or> tail (log_buffer s') = 0)"
  proof (cases enough)
    case True
    with eq sc have "s' = s\<lparr>log_buffer := lb\<rparr>" by simp
    with lb show ?thesis by auto
  next
    case False
    with eq sc obtain n s2 where
      fl: "do_log_buff_flush False (s\<lparr>log_buffer := lb\<rparr>) = Some (n, s2)"
      and rec: "find t s2 = Some s'"
      by (auto split: option.splits)
    from IH [OF rec] do_log_buff_flush_frame [OF fl] lb show ?thesis by auto
  qed
qed

lemma fque_put_frame [simp]:
  "data (snd (fque_put t d lb)) = data lb"
  "size_lb (snd (fque_put t d lb)) = size_lb lb"
  "head (snd (fque_put t d lb)) = head lb"
  "tail (snd (fque_put t d lb)) = tail lb"
  "last_lb (snd (fque_put t d lb)) = last_lb lb"
  "fqsz (snd (fque_put t d lb)) = fqsz lb"
  "fbgn (snd (fque_put t d lb)) = fbgn lb"
  "dw_end (snd (fque_put t d lb)) = dw_end lb"
  by (simp_all add: fque_put_def Let_def)

lemma fque_append_frame:
  assumes "fque_append total_length dual lb = Some lb'"
  shows "data lb' = data lb \<and> size_lb lb' = size_lb lb \<and> head lb' = head lb \<and>
     tail lb' = tail lb \<and> last_lb lb' = last_lb lb \<and> fqsz lb' = fqsz lb \<and>
     fbgn lb' = fbgn lb \<and> dw_end lb' = dw_end lb"
proof -
  let ?P = "\<lambda>(t::nat) (d::bool) lb lb'.
     data lb' = data lb \<and> size_lb lb' = size_lb lb \<and> head lb' = head lb \<and>
     tail lb' = tail lb \<and> last_lb lb' = last_lb lb \<and> fqsz lb' = fqsz lb \<and>
     fbgn lb' = fbgn lb \<and> dw_end lb' = dw_end lb"
  show ?thesis
  proof (rule fque_append.raw_induct [where P = ?P, OF _ assms])
    fix app t d lb lb'
    assume IH: "\<And>t d lb lb'. app t d lb = Some lb' \<Longrightarrow> ?P t d lb lb'"
      and eq: "(if 0 < t
                then app (u32 (int t - int (fst (fque_put t d lb)))) d (snd (fque_put t d lb))
                else Some lb) = Some lb'"
    show "?P t d lb lb'"
    proof (cases "0 < t")
      case True
      with eq have "app (u32 (int t - int (fst (fque_put t d lb)))) d (snd (fque_put t d lb))
          = Some lb'" by simp
      from IH [OF this] show ?thesis by simp
    next
      case False
      with eq show ?thesis by simp
    qed
  qed
qed


lemma flush_select_result:
  assumes "flush_select flush_all lb = Some (n, d, f, c, lb')"
  shows "f = (fbgn lb = u32 (dw_end lb))" "c = (dw_end lb \<noteq> -1)"
    "dw_end lb' = (if f then -1 else dw_end lb)"
    "0 < n \<Longrightarrow> n = nflush (fque lb (fbgn lb))"
    "0 < n \<Longrightarrow> d = dual_write (fque lb (fbgn lb))"
    "0 < n \<Longrightarrow> head lb' = head (wrap_reclaim lb)"
    "0 < n \<Longrightarrow> last_lb lb' = last_lb (wrap_reclaim lb)"
    "n = 0 \<Longrightarrow> head lb' = head lb \<and> last_lb lb' = last_lb lb \<and> fend lb' = fend lb"
  using assms
  by (auto simp: flush_select_def Let_def end_cleanup_def wrap_reclaim_def split: if_splits)

lemma flush_select_some:
  assumes "fbgn lb \<noteq> fend lb \<or> flush_all"
    and "0 < nflush (fque lb (fbgn lb))"
  shows "flush_select flush_all lb =
      Some (nflush (fque lb (fbgn lb)), dual_write (fque lb (fbgn lb)),
            fbgn lb = u32 (dw_end lb), dw_end lb \<noteq> -1,
            wrap_reclaim
              (if fbgn lb = fend lb then (end_cleanup lb)\<lparr>fend := fq_next (fend lb) (fqsz lb)\<rparr>
               else end_cleanup lb))"
proof (cases "fbgn lb = fend lb")
  case True
  with assms have "flush_all" "0 < nflush (fque lb (fend lb))" by auto
  with True show ?thesis
    unfolding flush_select_def Let_def by simp
next
  case False
  with assms show ?thesis
    unfolding flush_select_def Let_def by simp
qed

lemma do_log_file_write_os:
  assumes "do_log_file_write bs False s = Some s'"
  shows "os s' = disk_byte_write (fd (curr (log_file s))) bs (os s)"
  using assms by (auto simp: do_log_file_write_def Let_def split: if_splits)

lemma disk_byte_write_other:
  "f \<noteq> g \<Longrightarrow> disk (disk_byte_write g bs e) f = disk e f \<and> fpos (disk_byte_write g bs e) f = fpos e f"
  by (simp add: disk_byte_write_def)

declare apply_loop.simps [simp del]

lemma set_fpos_simps [simp]:
  "fpos (set_fpos f n e) g = (if g = f then n else fpos e g)"
  "disk (set_fpos f n e) = disk e"
  "closed_fds (set_fpos f n e) = closed_fds e"
  "fsynced_fds (set_fpos f n e) = fsynced_fds e"
  "set_fpos f n (set_fpos f m e) = set_fpos f n e"
  by (simp_all add: set_fpos_def)

lemma set_fpos_same: "fpos e f = n \<Longrightarrow> set_fpos f n e = e"
  by (cases e) (simp add: set_fpos_def fun_upd_idem)

lemma seek_small:
  assumes "n \<le> sz" "sz < 2 ^ 31"
  shows "u64 (int n) = n" "u64 (int sz - int n) = sz - n" "i32 (int n) = int n"
proof -
  have "u64 (int (sz - n)) = sz - n" "u64 (int n) = n"
    using assms by (simp_all add: u64_def nat_mod_distrib)
  then show "u64 (int n) = n" "u64 (int sz - int n) = sz - n"
    using assms(1) by (simp_all add: of_nat_diff)
  show "i32 (int n) = int n" using assms by (simp add: i32_def)
qed

lemma seek_small2:
  assumes "a + b \<le> sz" "sz < 2 ^ 31"
  shows "u64 (int sz - (int a + int b)) = sz - (a + b)" "i32 (int a + int b) = int a + int b"
  using seek_small(2,3) [OF assms] by simp_all

lemma seek_small3:
  assumes "a + b + c \<le> sz" "sz < 2 ^ 31"
  shows "i32 (int a + int b + int c) = int a + int b + int c"
  using seek_small(3) [OF assms] by simp

lemma apply_loop_step:
  assumes ini: "ini"
    and pos: "fpos e f = length pre"
    and dsk: "disk e f = pre @ hb @ bb @ post"
    and sz: "sz = length (disk e f)" "sz < 2 ^ 31"
    and hb: "length hb = sizeof_LogHdr"
    and bb: "length bb = hdr_body_length c hb"
    and mx: "length bb \<le> MAX_LOG_RECORD_SIZE c - sizeof_LogHdr"
       "sizeof_LogHdr \<le> MAX_LOG_RECORD_SIZE c" "MAX_LOG_RECORD_SIZE c < 2 ^ 32"
    and redo: "lrec_redo_from_record c hb bb \<noteq> ENGINE_ENOMEM"
  shows "apply_loop c f ini sz (int (length pre)) e tr =
         apply_loop c f ini sz (int (length pre + sizeof_LogHdr + length bb))
           (set_fpos f (length pre + sizeof_LogHdr + length bb) e)
           (if 0 < length bb then tr @ [(hb, bb)] else tr)"
proof -
  have rd: "disk_read f sizeof_LogHdr e = (hb, set_fpos f (length pre + sizeof_LogHdr) e)"
    using pos dsk hb by (simp add: disk_read_def)
  have rd2: "disk_read f (hdr_body_length c hb) (set_fpos f (length pre + sizeof_LogHdr) e)
      = (bb, set_fpos f (length pre + sizeof_LogHdr + hdr_body_length c hb) e)"
    using pos dsk hb bb [symmetric] by (simp add: disk_read_def)
  have u: "u32 (int (MAX_LOG_RECORD_SIZE c) - int sizeof_LogHdr)
      = MAX_LOG_RECORD_SIZE c - sizeof_LogHdr"
    using mx(2,3) by (simp add: u32_def nat_diff_distrib' nat_mod_distrib)
  have le: "length pre \<le> sz" "length pre + sizeof_LogHdr \<le> sz"
    "length pre + sizeof_LogHdr + length bb \<le> sz"
    using sz(1) dsk hb by simp_all
  note s0 = seek_small [OF le(1) sz(2)]
  note s1 = seek_small2 [OF le(2) sz(2)]
  have c2: "i32 (int (length pre) + int sizeof_LogHdr + int (hdr_body_length c hb))
      = int (length pre) + int sizeof_LogHdr + int (hdr_body_length c hb)"
    using seek_small3 [OF le(3) sz(2)] bb by simp
  have lt: "length pre < sz" "\<not> sz - length pre < sizeof_LogHdr"
    "\<not> sz - (length pre + sizeof_LogHdr) < length bb"
    using sz(1) dsk hb by (simp_all add: sizeof_LogHdr_def)
  show ?thesis
  proof (cases "0 < length bb")
    case True
    show ?thesis
      apply (subst apply_loop.simps)
      using ini lt True mx(1) redo hb bb
      by (simp add: rd rd2 u s0 s1 c2 Let_def)
  next
    case False
    with bb have z: "hdr_body_length c hb = 0" by simp
    show ?thesis
      apply (subst apply_loop.simps)
      using ini lt False hb bb z
      by (simp add: rd s0 s1 Let_def)
  qed
qed

lemma rec_image_pair [simp]: "rec_image (hb, bb) = hb @ bb"
  by (simp add: rec_image_def)

lemma apply_loop_recs:
  assumes ini: "ini"
    and mx: "sizeof_LogHdr \<le> MAX_LOG_RECORD_SIZE c" "MAX_LOG_RECORD_SIZE c < 2 ^ 32"
    and small: "sz < 2 ^ 31"
  shows "\<lbrakk>fpos e f = length pre; disk e f = pre @ concat (map rec_image recs) @ post;
          sz = length (disk e f); \<forall>r \<in> set recs. replayable c r\<rbrakk>
    \<Longrightarrow> apply_loop c f ini sz (int (length pre)) e tr =
        apply_loop c f ini sz (int (length pre + length (concat (map rec_image recs))))
          (set_fpos f (length pre + length (concat (map rec_image recs))) e)
          (tr @ filter (\<lambda>r. 0 < length (snd r)) recs)"
proof (induction recs arbitrary: pre e tr)
  case Nil
  from Nil.prems(1) have "set_fpos f (length pre) e = e"
    by (rule set_fpos_same)
  then show ?case by simp
next
  case (Cons r recs)
  obtain hb bb where r: "r = (hb, bb)" by (cases r)
  from Cons.prems(4) r have rp: "replayable c (hb, bb)" and rest: "\<forall>r \<in> set recs. replayable c r"
    by simp_all
  let ?e1 = "set_fpos f (length pre + sizeof_LogHdr + length bb) e"
  let ?pre1 = "pre @ hb @ bb"
  have hb: "length hb = sizeof_LogHdr" and bb: "length bb = hdr_body_length c hb"
    using rp by (simp_all add: replayable_def complete_rec_def)
  have step: "apply_loop c f ini sz (int (length pre)) e tr =
         apply_loop c f ini sz (int (length pre + sizeof_LogHdr + length bb)) ?e1
           (if 0 < length bb then tr @ [(hb, bb)] else tr)"
    using rp Cons.prems(1,2,3) r small
    by (intro apply_loop_step [OF ini _ _ _ _ hb bb _ mx, where post = "concat (map rec_image recs) @ post"])
       (simp_all add: replayable_def)
  have p1: "fpos ?e1 f = length ?pre1" using hb by simp
  have d1: "disk ?e1 f = ?pre1 @ concat (map rec_image recs) @ post"
    using Cons.prems(2) r by simp
  have s1: "sz = length (disk ?e1 f)" using Cons.prems(3) by simp
  from Cons.IH [OF p1 d1 s1 rest, of "if 0 < length bb then tr @ [(hb, bb)] else tr"] step
  show ?case
    using hb r by (simp add: add.assoc)
qed

lemma apply_loop_torn:
  assumes ini: "ini"
    and pos: "fpos e f = length pre"
    and dsk: "disk e f = pre @ rest"
    and sz: "sz = length (disk e f)" "sz < 2 ^ 31"
    and torn: "torn_tail c rest"
  shows "apply_loop c f ini sz (int (length pre)) e tr = (0, int (length pre), e, tr)"
proof -
  have le: "length pre \<le> sz" using sz(1) dsk by simp
  note s0 = seek_small [OF le sz(2)]
  show ?thesis
  proof (cases "length rest < sizeof_LogHdr")
    case True
    then have "\<not> length pre < sz \<or> sz - length pre < sizeof_LogHdr"
      using sz(1) dsk by simp
    then show ?thesis
      apply (subst apply_loop.simps)
      by (auto simp: s0)
  next
    case False
    let ?hb = "take sizeof_LogHdr rest"
    from False have hb: "length ?hb = sizeof_LogHdr" by simp
    from False torn have short: "length rest - sizeof_LogHdr < hdr_body_length c ?hb"
      by (simp add: torn_tail_def)
    have rd: "disk_read f sizeof_LogHdr e = (?hb, set_fpos f (length pre + sizeof_LogHdr) e)"
      using pos dsk False by (simp add: disk_read_def)
    have seek: "disk_seek_back f sizeof_LogHdr (set_fpos f (length pre + sizeof_LogHdr) e)
        = Some (length pre, e)"
      using pos by (simp add: disk_seek_back_def set_fpos_same)
    have le1: "length pre + sizeof_LogHdr \<le> sz" using sz(1) dsk False by simp
    note s1 = seek_small2 [OF le1 sz(2)]
    have lt: "length pre < sz" "\<not> sz - length pre < sizeof_LogHdr"
      "sz - (length pre + sizeof_LogHdr) < hdr_body_length c ?hb"
      using sz(1) dsk False short by (auto simp: sizeof_LogHdr_def)
    show ?thesis
      apply (subst apply_loop.simps)
      using ini lt hb
      by (simp add: rd seek s0 s1 Let_def)
  qed
qed

lemma apply_loop_too_big:
  assumes ini: "ini"
    and pos: "fpos e f = length pre"
    and dsk: "disk e f = pre @ hb @ bb @ post"
    and sz: "sz = length (disk e f)" "sz < 2 ^ 31"
    and hb: "length hb = sizeof_LogHdr"
    and bb: "length bb = hdr_body_length c hb"
    and mx: "MAX_LOG_RECORD_SIZE c - sizeof_LogHdr < length bb"
       "sizeof_LogHdr \<le> MAX_LOG_RECORD_SIZE c" "MAX_LOG_RECORD_SIZE c < 2 ^ 32"
  shows "apply_loop c f ini sz (int (length pre)) e tr =
         (-1, int (length pre + sizeof_LogHdr), set_fpos f (length pre + sizeof_LogHdr) e, tr)"
proof -
  have rd: "disk_read f sizeof_LogHdr e = (hb, set_fpos f (length pre + sizeof_LogHdr) e)"
    using pos dsk hb by (simp add: disk_read_def)
  have u: "u32 (int (MAX_LOG_RECORD_SIZE c) - int sizeof_LogHdr)
      = MAX_LOG_RECORD_SIZE c - sizeof_LogHdr"
    using mx(2,3) by (simp add: u32_def nat_diff_distrib' nat_mod_distrib)
  have le: "length pre \<le> sz" "length pre + sizeof_LogHdr \<le> sz"
    using sz(1) dsk hb by simp_all
  note s0 = seek_small [OF le(1) sz(2)]
  note s1 = seek_small2 [OF le(2) sz(2)]
  have lt: "length pre < sz" "\<not> sz - length pre < sizeof_LogHdr"
    "\<not> sz - (length pre + sizeof_LogHdr) < hdr_body_length c hb"
    using sz(1) dsk hb bb by (simp_all add: sizeof_LogHdr_def)
  have pos: "0 < hdr_body_length c hb" "MAX_LOG_RECORD_SIZE c - sizeof_LogHdr < hdr_body_length c hb"
    using mx(1) bb by simp_all
  show ?thesis
    apply (subst apply_loop.simps)
    using ini lt hb pos
    by (simp add: rd u s0 s1 Let_def)
qed

lemma apply_loop_enomem:
  assumes ini: "ini"
    and pos: "fpos e f = length pre"
    and dsk: "disk e f = pre @ hb @ bb @ post"
    and sz: "sz = length (disk e f)" "sz < 2 ^ 31"
    and hb: "length hb = sizeof_LogHdr"
    and bb: "length bb = hdr_body_length c hb" "0 < length bb"
    and mx: "length bb \<le> MAX_LOG_RECORD_SIZE c - sizeof_LogHdr"
       "sizeof_LogHdr \<le> MAX_LOG_RECORD_SIZE c" "MAX_LOG_RECORD_SIZE c < 2 ^ 32"
    and redo: "lrec_redo_from_record c hb bb = ENGINE_ENOMEM"
  shows "apply_loop c f ini sz (int (length pre)) e tr =
         (-1, int (length pre + sizeof_LogHdr + length bb),
          set_fpos f (length pre + sizeof_LogHdr + length bb) e, tr @ [(hb, bb)])"
proof -
  have rd: "disk_read f sizeof_LogHdr e = (hb, set_fpos f (length pre + sizeof_LogHdr) e)"
    using pos dsk hb by (simp add: disk_read_def)
  have rd2: "disk_read f (hdr_body_length c hb) (set_fpos f (length pre + sizeof_LogHdr) e)
      = (bb, set_fpos f (length pre + sizeof_LogHdr + hdr_body_length c hb) e)"
    using pos dsk hb bb(1) [symmetric] by (simp add: disk_read_def)
  have u: "u32 (int (MAX_LOG_RECORD_SIZE c) - int sizeof_LogHdr)
      = MAX_LOG_RECORD_SIZE c - sizeof_LogHdr"
    using mx(2,3) by (simp add: u32_def nat_diff_distrib' nat_mod_distrib)
  have le: "length pre \<le> sz" "length pre + sizeof_LogHdr \<le> sz"
    "length pre + sizeof_LogHdr + length bb \<le> sz"
    using sz(1) dsk hb by simp_all
  note s0 = seek_small [OF le(1) sz(2)]
  note s1 = seek_small2 [OF le(2) sz(2)]
  have c2: "i32 (int (length pre) + int sizeof_LogHdr + int (hdr_body_length c hb))
      = int (length pre) + int sizeof_LogHdr + int (hdr_body_length c hb)"
    using seek_small3 [OF le(3) sz(2)] bb by simp
  have lt: "length pre < sz" "\<not> sz - length pre < sizeof_LogHdr"
    "\<not> sz - (length pre + sizeof_LogHdr) < length bb"
    using sz(1) dsk hb by (simp_all add: sizeof_LogHdr_def)
  show ?thesis
    apply (subst apply_loop.simps)
    using ini lt bb mx(1) redo hb
    by (simp add: rd rd2 u s0 s1 c2 Let_def)
qed

subsection \<open>The invariant of the queue and the LSNs\<close>

lemma u32_id [simp]: "n < 2 ^ 32 \<Longrightarrow> u32 (int n) = n"
  by (simp add: u32_def nat_mod_distrib)

lemma u32_small: "0 \<le> i \<Longrightarrow> i < 4294967296 \<Longrightarrow> u32 i = nat i"
  by (simp add: u32_def)

lemma u32_minus1 [simp]: "u32 (-1) = 4294967295"
  by (simp add: u32_def)

lemma i32_id: "n < 2 ^ 31 \<Longrightarrow> i32 (int n) = int n"
  by (simp add: i32_def)

lemma fq_next_mod: "i < F \<Longrightarrow> F < 2 ^ 31 \<Longrightarrow> fq_next i F = Suc i mod F"
  by (auto simp: fq_next_def Let_def u32_small mod_Suc)

lemma slot_inj:
  assumes "i < F" "j < F" "slot_at F b i = slot_at F b j"
  shows "i = j"
proof -
  have *: "i' = j'" if "i' \<le> j'" "j' < F" "(b + i') mod F = (b + j') mod F" for i' j' :: nat
  proof -
    from that have "F dvd (b + j') - (b + i')"
      by (metis add_le_cancel_left mod_eq_dvd_iff_nat)
    then have "F dvd j' - i'" by simp
    with that show ?thesis
      by (metis diff_is_0_eq dvd_imp_le le_antisym less_imp_diff_less not_less zero_less_diff)
  qed
  show ?thesis
  proof (cases "i \<le> j")
    case True
    with assms * show ?thesis unfolding slot_at_def by blast
  next
    case False
    then have "j \<le> i" by simp
    with assms * [of j i] show ?thesis unfolding slot_at_def by simp
  qed
qed

lemma slot_at_0 [simp]: "b < F \<Longrightarrow> slot_at F b 0 = b"
  by (simp add: slot_at_def)

lemma slot_at_lt [simp]: "0 < F \<Longrightarrow> slot_at F b i < F"
  by (simp add: slot_at_def)

lemma slot_at_next: "0 < F \<Longrightarrow> F < 2 ^ 31 \<Longrightarrow> fq_next (slot_at F b i) F = slot_at F b (Suc i)"
  by (simp add: fq_next_mod slot_at_def mod_Suc_eq)

lemma slot_at_shift:
  "0 < F \<Longrightarrow> F < 2 ^ 31 \<Longrightarrow> b < F \<Longrightarrow> slot_at F (fq_next b F) i = slot_at F b (Suc i)"
  by (simp add: fq_next_mod slot_at_def mod_Suc_eq mod_add_left_eq)

lemma slot_at_full: "b < F \<Longrightarrow> slot_at F b F = b"
  by (simp add: slot_at_def)

lemma win_length [simp]: "length (win q F b m) = Suc m"
  by (simp add: win_def)

lemma win_nth: "i \<le> m \<Longrightarrow> win q F b m ! i = nflush (q (slot_at F b i))"
  unfolding win_def by (simp del: upt_Suc)

lemma win_Suc: "win q F b (Suc m) = win q F b m @ [nflush (q (slot_at F b (Suc m)))]"
  by (simp add: win_def)

lemma win_last: "last (win q F b m) = nflush (q (slot_at F b m))"
  by (cases m) (simp_all add: win_def)

lemma win_butlast: "butlast (win q F b (Suc m)) = win q F b m"
  by (simp add: win_Suc)

lemma qinvD:
  assumes "qinv q F b e m"
  shows "2 \<le> F" "F < 2 ^ 31" "b < F" "m < F" "e = slot_at F b m"
    "\<And>i. m < i \<Longrightarrow> i < F \<Longrightarrow> nflush (q (slot_at F b i)) = 0"
    "\<And>i. i < m \<Longrightarrow> 0 < nflush (q (slot_at F b i))"
    "\<And>j. nflush (q j) \<le> CMDLOG_FLUSH_AUTO_SIZE"
    "nflush (q e) < CMDLOG_FLUSH_AUTO_SIZE"
  using assms unfolding qinv_def by blast+

lemma qinvI:
  assumes "2 \<le> F" "F < 2 ^ 31" "b < F" "m < F" "e = slot_at F b m"
    "\<And>i. m < i \<Longrightarrow> i < F \<Longrightarrow> nflush (q (slot_at F b i)) = 0"
    "\<And>i. i < m \<Longrightarrow> 0 < nflush (q (slot_at F b i))"
    "\<And>j. nflush (q j) \<le> CMDLOG_FLUSH_AUTO_SIZE"
    "nflush (q e) < CMDLOG_FLUSH_AUTO_SIZE"
  shows "qinv q F b e m"
  using assms unfolding qinv_def by blast

lemma qinv_close:
  assumes "qinv q F b e m" "Suc m < F" "0 < nflush (q e)"
  shows "qinv q F b (fq_next e F) (Suc m)" "win q F b (Suc m) = win q F b m @ [0]"
proof -
  note d = qinvD [OF assms(1)]
  have nx: "fq_next e F = slot_at F b (Suc m)"
    using d(1,2,5) by (simp add: slot_at_next)
  have z1: "nflush (q (slot_at F b (Suc m))) = 0"
    using d(6) [of "Suc m"] assms(2) by simp
  show "qinv q F b (fq_next e F) (Suc m)"
  proof (rule qinvI)
    show "2 \<le> F" "F < 2 ^ 31" "b < F" "Suc m < F" by (fact d(1) d(2) d(3) assms(2))+
    show "fq_next e F = slot_at F b (Suc m)" by (fact nx)
    show "nflush (q (slot_at F b i)) = 0" if "Suc m < i" "i < F" for i
      using d(6) [of i] that by simp
    show "0 < nflush (q (slot_at F b i))" if "i < Suc m" for i
      using d(7) [of i] that assms(3) d(5) by (cases "i = m") simp_all
    show "nflush (q j) \<le> CMDLOG_FLUSH_AUTO_SIZE" for j by (fact d(8))
    show "nflush (q (fq_next e F)) < CMDLOG_FLUSH_AUTO_SIZE"
      unfolding nx z1 by (simp add: CMDLOG_FLUSH_AUTO_SIZE_def)
  qed
  show "win q F b (Suc m) = win q F b m @ [0]"
    by (simp add: win_Suc z1)
qed

lemma win_upd_other:
  assumes "b < F" "m < F" "k < F" "m < k"
  shows "win (q(slot_at F b k := x)) F b m = win q F b m"
proof -
  have "slot_at F b i \<noteq> slot_at F b k" if "i \<le> m" for i
    using slot_inj [of i F k b] that assms by auto
  then show ?thesis
    unfolding win_def by (auto simp del: upt_Suc)
qed

lemma win_upd_last:
  assumes "b < F" "m < F"
  shows "win (q(slot_at F b m := x)) F b m = butlast (win q F b m) @ [nflush x]"
proof (cases m)
  case 0
  then show ?thesis by (simp add: win_def)
next
  case (Suc k)
  have "win (q(slot_at F b (Suc k) := x)) F b k = win q F b k"
    using assms Suc by (intro win_upd_other) simp_all
  then show ?thesis
    using Suc by (simp add: win_Suc)
qed

lemma qinv_put:
  assumes "qinv q F b e m" "nflush x < CMDLOG_FLUSH_AUTO_SIZE"
  shows "qinv (q(e := x)) F b e m"
    "win (q(e := x)) F b m = butlast (win q F b m) @ [nflush x]"
proof -
  note d = qinvD [OF assms(1)]
  have ne: "slot_at F b i \<noteq> e" if "i < F" "i \<noteq> m" for i
    using slot_inj [of i F m b] that d(4,5) by auto
  show "qinv (q(e := x)) F b e m"
  proof (rule qinvI)
    show "2 \<le> F" "F < 2 ^ 31" "b < F" "m < F" "e = slot_at F b m" by (fact d)+
    show "nflush ((q(e := x)) (slot_at F b i)) = 0" if "m < i" "i < F" for i
      using d(6) [of i] ne [of i] that by simp
    show "0 < nflush ((q(e := x)) (slot_at F b i))" if "i < m" for i
      using d(7) [of i] ne [of i] that d(4) by simp
    show "nflush ((q(e := x)) j) \<le> CMDLOG_FLUSH_AUTO_SIZE" for j
      using d(8) [of j] assms(2) by simp
    show "nflush ((q(e := x)) e) < CMDLOG_FLUSH_AUTO_SIZE"
      using assms(2) by simp
  qed
  show "win (q(e := x)) F b m = butlast (win q F b m) @ [nflush x]"
    unfolding d(5) using d(3,4) by (rule win_upd_last)
qed

lemma qinv_put_full:
  assumes "qinv q F b e m" "nflush x = CMDLOG_FLUSH_AUTO_SIZE" "Suc m < F"
  shows "qinv (q(e := x)) F b (fq_next e F) (Suc m)"
    "win (q(e := x)) F b (Suc m) = butlast (win q F b m) @ [CMDLOG_FLUSH_AUTO_SIZE, 0]"
proof -
  note d = qinvD [OF assms(1)]
  have ne: "slot_at F b i \<noteq> e" if "i < F" "i \<noteq> m" for i
    using slot_inj [of i F m b] that d(4,5) by auto
  have nx: "fq_next e F = slot_at F b (Suc m)"
    using d(1,2,5) by (simp add: slot_at_next)
  have z1: "nflush ((q(e := x)) (slot_at F b (Suc m))) = 0"
    using d(6) [of "Suc m"] assms(3) ne [of "Suc m"] by simp
  show "qinv (q(e := x)) F b (fq_next e F) (Suc m)"
  proof (rule qinvI)
    show "2 \<le> F" "F < 2 ^ 31" "b < F" "Suc m < F" by (fact d(1) d(2) d(3) assms(3))+
    show "fq_next e F = slot_at F b (Suc m)" by (fact nx)
    show "nflush ((q(e := x)) (slot_at F b i)) = 0" if "Suc m < i" "i < F" for i
      using d(6) [of i] ne [of i] that by simp
    show "0 < nflush ((q(e := x)) (slot_at F b i))" if "i < Suc m" for i
    proof (cases "i = m")
      case True
      then show ?thesis using d(5) assms(2) by (simp add: CMDLOG_FLUSH_AUTO_SIZE_def)
    next
      case False
      with that have "i < m" by simp
      with d(7) [of i] ne [of i] d(4) False show ?thesis by simp
    qed
    show "nflush ((q(e := x)) j) \<le> CMDLOG_FLUSH_AUTO_SIZE" for j
      using d(8) [of j] assms(2) by simp
    show "nflush ((q(e := x)) (fq_next e F)) < CMDLOG_FLUSH_AUTO_SIZE"
      unfolding nx z1 by (simp add: CMDLOG_FLUSH_AUTO_SIZE_def)
  qed
  have "win (q(e := x)) F b m = butlast (win q F b m) @ [nflush x]"
    unfolding d(5) using d(3,4) by (rule win_upd_last)
  then show "win (q(e := x)) F b (Suc m) = butlast (win q F b m) @ [CMDLOG_FLUSH_AUTO_SIZE, 0]"
    using z1 assms(2) by (simp add: win_Suc)
qed

lemma win_shift:
  assumes "2 \<le> F" "F < 2 ^ 31" "b < F" "Suc m < F"
  shows "win (q(b := x)) F (fq_next b F) m = tl (win q F b (Suc m))"
proof -
  have ne: "slot_at F b (Suc i) \<noteq> b" if "i \<le> m" for i
    using slot_inj [of "Suc i" F 0 b] that assms by auto
  have sh: "slot_at F (fq_next b F) i = slot_at F b (Suc i)" for i
    using assms by (simp add: slot_at_shift)
  have "win (q(b := x)) F (fq_next b F) m
      = map (\<lambda>i. nflush (q (slot_at F b (Suc i)))) [0 ..< Suc m]"
    unfolding win_def sh using ne by (intro map_cong) (simp_all del: upt_Suc)
  also have "\<dots> = map (\<lambda>i. nflush (q (slot_at F b i))) (map Suc [0 ..< Suc m])"
    by (simp add: comp_def del: upt_Suc)
  also have "map Suc [0 ..< Suc m] = tl [0 ..< Suc (Suc m)]"
    unfolding map_Suc_upt tl_upt ..
  finally have "win (q(b := x)) F (fq_next b F) m
      = map (\<lambda>i. nflush (q (slot_at F b i))) (tl [0 ..< Suc (Suc m)])" .
  then show ?thesis
    by (simp only: win_def map_tl)
qed

lemma qinv_consume:
  assumes "qinv q F b e (Suc m)"
  shows "qinv (q(b := \<lparr>nflush = 0, dual_write = False\<rparr>)) F (fq_next b F) e m"
    "win (q(b := \<lparr>nflush = 0, dual_write = False\<rparr>)) F (fq_next b F) m = tl (win q F b (Suc m))"
proof -
  let ?q = "q(b := \<lparr>nflush = 0, dual_write = False\<rparr>)"
  note d = qinvD [OF assms(1)]
  have sh: "slot_at F (fq_next b F) i = slot_at F b (Suc i)" for i
    using d(1,2,3) by (simp add: slot_at_shift)
  have ne: "slot_at F b (Suc i) \<noteq> b" if "Suc i < F" for i
    using slot_inj [of "Suc i" F 0 b] that d(1,3) by auto
  have nb: "fq_next b F < F"
    using d(1,2,3) by (simp add: fq_next_mod)
  have eb: "e \<noteq> b" using d(5) ne [of m] d(4) by simp
  show "qinv ?q F (fq_next b F) e m"
  proof (rule qinvI)
    show "2 \<le> F" "F < 2 ^ 31" by (fact d)+
    show "fq_next b F < F" by (fact nb)
    show "m < F" using d(4) by simp
    show "e = slot_at F (fq_next b F) m" unfolding sh by (fact d(5))
    show "nflush (?q (slot_at F (fq_next b F) i)) = 0" if "m < i" "i < F" for i
    proof (cases "Suc i < F")
      case True
      with d(6) [of "Suc i"] that ne [of i] show ?thesis unfolding sh by simp
    next
      case False
      with that have "Suc i = F" by simp
      then show ?thesis unfolding sh using d(3) by (simp add: slot_at_full)
    qed
    show "0 < nflush (?q (slot_at F (fq_next b F) i))" if "i < m" for i
      unfolding sh using d(7) [of "Suc i"] ne [of i] that d(4) by simp
    show "nflush (?q j) \<le> CMDLOG_FLUSH_AUTO_SIZE" for j
      using d(8) [of j] by simp
    show "nflush (?q e) < CMDLOG_FLUSH_AUTO_SIZE"
      using d(9) eb by simp
  qed
  show "win ?q F (fq_next b F) m = tl (win q F b (Suc m))"
    using d(1,2,3,4) by (rule win_shift)
qed

lemma qinv_qlen:
  assumes "qinv q F b e m"
  shows "(e + F - b) mod F = m"
proof -
  note d = qinvD [OF assms(1)]
  have "(e + F - b) mod F = ((b + m) mod F + (F - b)) mod F"
    using d(3,5) by (simp add: slot_at_def)
  also have "\<dots> = (b + m + (F - b)) mod F"
    by (simp add: mod_add_left_eq)
  also have "\<dots> = (m + F) mod F"
    using d(3) by (simp add: add.commute)
  finally show ?thesis using d(4) by simp
qed

lemma qinv_same_iff:
  assumes "qinv q F b e m"
  shows "b = e \<longleftrightarrow> m = 0"
  using qinvD(1,3,4,5) [OF assms] slot_inj [of 0 F m b] by auto

lemma layout_norm: "int h = l \<Longrightarrow> layout h l ns = layout 0 (-1) ns"
  by (induction ns) auto

lemma layout_unwrapped:
  "layout h (-1) ns = Some (t, l) \<Longrightarrow> l = -1 \<and> t = h + sum_list ns"
proof (induction ns arbitrary: h)
  case Nil
  then show ?case by (simp split: if_splits)
next
  case (Cons n ns)
  show ?case
  proof (cases "n = 0")
    case True
    with Cons show ?thesis by simp
  next
    case False
    with Cons.prems have "layout (h + n) (-1) ns = Some (t, l)" by simp
    from Cons.IH [OF this] show ?thesis by simp
  qed
qed

lemma layout_unwrapped_eq: "layout h (-1) ns = Some (h + sum_list ns, -1)"
  by (induction ns arbitrary: h) (simp_all add: add.assoc)

lemma layout_result:
  "layout h l ns = Some (h', l') \<Longrightarrow> (l' = -1 \<or> l' = l) \<and> int h' \<noteq> l'"
proof (induction ns arbitrary: h l)
  case Nil
  then show ?case by (auto split: if_splits)
next
  case (Cons n ns)
  show ?case
  proof (cases "n = 0")
    case True
    with Cons show ?thesis by simp
  next
    case n: False
    show ?thesis
    proof (cases "int h = l")
      case True
      with n Cons.prems have "layout n (-1) ns = Some (h', l')" by simp
      from Cons.IH [OF this] show ?thesis by auto
    next
      case False
      with n Cons.prems have "layout (h + n) l ns = Some (h', l')"
        by (simp split: if_splits)
      from Cons.IH [OF this] show ?thesis by auto
    qed
  qed
qed

lemma layout_append:
  "layout h l (ns @ ms) =
     (case layout h l ns of None \<Rightarrow> None | Some (h', l') \<Rightarrow> layout h' l' ms)"
proof (induction ns arbitrary: h l)
  case Nil
  show ?case by (simp add: layout_norm)
next
  case (Cons n ns)
  then show ?case by simp
qed

lemma layout_snoc0: "layout h l (ns @ [0]) = layout h l ns"
proof (cases "layout h l ns")
  case None
  then show ?thesis by (simp add: layout_append)
next
  case (Some r)
  obtain h' l' where r: "r = (h', l')" by (cases r)
  from layout_result [of h l ns h' l'] Some r have "int h' \<noteq> l'" by simp
  with Some r show ?thesis by (simp add: layout_append)
qed

lemma layout_to_wrap: "h + sum_list ns = t \<Longrightarrow> layout h (int t) ns = Some (0, -1)"
proof (induction ns arbitrary: h)
  case Nil
  then show ?case by simp
next
  case (Cons n ns)
  show ?case
  proof (cases "n = 0")
    case True
    with Cons show ?thesis by simp
  next
    case False
    with Cons.prems have "h \<noteq> t" "\<not> int t < int (h + n)" "h + n + sum_list ns = t" by auto
    with False Cons.IH [of "h + n"] show ?thesis by simp
  qed
qed

lemma layout_grow_last:
  assumes "layout h l (ns @ [n]) = Some (t, -1)"
    and "l \<noteq> -1 \<and> t = 0 \<longrightarrow> n = 0"
    and "0 < x"
  shows "layout h l (ns @ [n + x]) = Some (t + x, -1)"
proof -
  from assms(1) obtain h' l' where
    pre: "layout h l ns = Some (h', l')" and fin: "layout h' l' [n] = Some (t, -1)"
    by (auto simp: layout_append split: option.splits)
  from layout_result [OF pre] have r: "l' = -1 \<or> l' = l" "int h' \<noteq> l'" by simp_all
  have "layout h' l' [n + x] = Some (t + x, -1)"
  proof (cases "n = 0")
    case True
    with fin r have "h' = t" "l' = -1" by (auto split: if_splits)
    with True assms(3) show ?thesis by simp
  next
    case False
    show ?thesis
    proof (cases "l' = -1")
      case True
      with False fin r have "h' + n = t" by (auto split: if_splits)
      with True False assms(3) show ?thesis by simp
    next
      case l': False
      with r have "l' = l" "l \<noteq> -1" by auto
      with False fin r l' have "t = 0" by (auto split: if_splits)
      with assms(2) \<open>l \<noteq> -1\<close> False show ?thesis by simp
    qed
  qed
  with pre show ?thesis by (simp add: layout_append)
qed

lemma rinvD:
  assumes "rinv sz h t l ns"
  shows "sz < 2 ^ 31"
    "(l = -1 \<and> h \<le> t \<and> t < sz) \<or> (0 \<le> l \<and> t < h \<and> int h \<le> l \<and> l < int sz)"
    "layout h l ns = Some (t, -1)"
    "l \<noteq> -1 \<Longrightarrow> t = 0 \<Longrightarrow> last ns = 0"
    "ns \<noteq> []"
  using assms unfolding rinv_def by blast+

lemma rinv_consume:
  assumes "rinv sz h t l (n # ns)" "0 < n" "ns \<noteq> []"
  shows "(if int h = l then 0 else h) + n \<le> sz"
    "rinv sz (if int ((if int h = l then 0 else h) + n) = (if int h = l then -1 else l)
              then 0 else (if int h = l then 0 else h) + n) t
             (if int ((if int h = l then 0 else h) + n) = (if int h = l then -1 else l)
              then -1 else (if int h = l then -1 else l)) ns"
proof -
  note d = rinvD [OF assms(1)]
  have both: "(if int h = l then 0 else h) + n \<le> sz \<and>
    rinv sz (if int ((if int h = l then 0 else h) + n) = (if int h = l then -1 else l)
              then 0 else (if int h = l then 0 else h) + n) t
             (if int ((if int h = l then 0 else h) + n) = (if int h = l then -1 else l)
              then -1 else (if int h = l then -1 else l)) ns"
  proof (cases "int h = l")
    case True
    with d(3) assms(2) have ly: "layout n (-1) ns = Some (t, -1)" by simp
    from layout_unwrapped [OF ly] have "n \<le> t" by simp
    moreover from True d(2) have "t < sz" by auto
    ultimately show ?thesis
      using True ly d(1) assms(3) by (simp add: rinv_def)
  next
    case hl: False
    show ?thesis
    proof (cases "l = -1")
      case True
      with d(3) assms(2) have ly: "layout (h + n) (-1) ns = Some (t, -1)" by simp
      from layout_unwrapped [OF ly] have "h + n \<le> t" by simp
      moreover from True d(2) have "t < sz" by auto
      ultimately show ?thesis
        using True hl ly d(1) assms(3) by (simp add: rinv_def)
    next
      case l: False
      with hl d(3) assms(2) have nc: "\<not> l < int (h + n)"
        and ly: "layout (h + n) l ns = Some (t, -1)"
        by (auto split: if_splits)
      from l d(2) have sh: "0 \<le> l" "t < h" "int h \<le> l" "l < int sz" by auto
      show ?thesis
      proof (cases "int (h + n) = l")
        case True
        from layout_norm [OF True, of ns] ly have "layout 0 (-1) ns = Some (t, -1)" by simp
        with True hl l sh d(1) assms(3) show ?thesis
          by (auto simp: rinv_def)
      next
        case False
        from d(4) l assms(3) have "t = 0 \<Longrightarrow> last ns = 0" by simp
        with False hl l sh nc ly d(1) assms(2,3) show ?thesis
          by (auto simp: rinv_def)
      qed
    qed
  qed
  from both show "(if int h = l then 0 else h) + n \<le> sz" by blast
  from both show "rinv sz (if int ((if int h = l then 0 else h) + n) = (if int h = l then -1 else l)
              then 0 else (if int h = l then 0 else h) + n) t
             (if int ((if int h = l then 0 else h) + n) = (if int h = l then -1 else l)
              then -1 else (if int h = l then -1 else l)) ns" by blast
qed

lemma rinv_wrap:
  assumes "rinv sz h t (-1) ns" "0 < h"
  shows "rinv sz h 0 (int t) (if last ns = 0 then ns else ns @ [0])"
proof -
  note d = rinvD [OF assms(1)]
  from layout_unwrapped [OF d(3)] have "h + sum_list ns = t" by simp
  from layout_to_wrap [OF this] have "layout h (int t) ns = Some (0, -1)" .
  then have "layout h (int t) (if last ns = 0 then ns else ns @ [0]) = Some (0, -1)"
    by (simp add: layout_snoc0)
  with d(1,2,5) assms(2) show ?thesis
    by (auto simp: rinv_def)
qed

declare add_bytes.simps [simp del]

lemma add_bytes_0 [simp]: "add_bytes 0 ns = ns"
  by (simp add: add_bytes.simps)

lemma add_bytes_shape:
  assumes "ns \<noteq> []" "last ns < CMDLOG_FLUSH_AUTO_SIZE"
  shows "\<exists>ys. add_bytes t ns = butlast ns @ ys \<and> ys \<noteq> []
            \<and> sum_list ys = last ns + t
            \<and> last ys < CMDLOG_FLUSH_AUTO_SIZE
            \<and> (\<forall>y \<in> set (butlast ys). y = CMDLOG_FLUSH_AUTO_SIZE)
            \<and> (0 < t \<longrightarrow> 0 < hd ys)
            \<and> length ys = Suc ((last ns + t) div CMDLOG_FLUSH_AUTO_SIZE)"
  using assms
proof (induction t ns rule: add_bytes.induct)
  case (1 t ns)
  show ?case
  proof (cases "t = 0")
    case True
    with "1.prems" show ?thesis
      by (intro exI [of _ "[last ns]"]) simp
  next
    case t: False
    show ?thesis
    proof (cases "last ns + t < CMDLOG_FLUSH_AUTO_SIZE")
      case True
      with t "1.prems" show ?thesis
        by (intro exI [of _ "[last ns + t]"]) (simp add: add_bytes.simps)
    next
      case False
      let ?t = "t - (CMDLOG_FLUSH_AUTO_SIZE - last ns)"
      let ?ns = "butlast ns @ [CMDLOG_FLUSH_AUTO_SIZE, 0]"
      have ab: "add_bytes t ns = add_bytes ?t ?ns"
        using t False "1.prems" by (subst add_bytes.simps) simp
      have "\<exists>ys. add_bytes ?t ?ns = butlast ?ns @ ys \<and> ys \<noteq> []
            \<and> sum_list ys = last ?ns + ?t
            \<and> last ys < CMDLOG_FLUSH_AUTO_SIZE
            \<and> (\<forall>y \<in> set (butlast ys). y = CMDLOG_FLUSH_AUTO_SIZE)
            \<and> (0 < ?t \<longrightarrow> 0 < hd ys)
            \<and> length ys = Suc ((last ?ns + ?t) div CMDLOG_FLUSH_AUTO_SIZE)"
        using t False "1.prems"
        by (intro "1.IH") (simp_all add: CMDLOG_FLUSH_AUTO_SIZE_def)
      then obtain ys where ys: "add_bytes ?t ?ns = butlast ?ns @ ys" "ys \<noteq> []"
        "sum_list ys = ?t" "last ys < CMDLOG_FLUSH_AUTO_SIZE"
        "\<forall>y \<in> set (butlast ys). y = CMDLOG_FLUSH_AUTO_SIZE"
        "length ys = Suc (?t div CMDLOG_FLUSH_AUTO_SIZE)"
        by auto
      have bl: "butlast ?ns = butlast ns @ [CMDLOG_FLUSH_AUTO_SIZE]"
        by (simp add: butlast_append)
      have dv: "(last ns + t) div CMDLOG_FLUSH_AUTO_SIZE = Suc (?t div CMDLOG_FLUSH_AUTO_SIZE)"
      proof -
        have "last ns + t = ?t + CMDLOG_FLUSH_AUTO_SIZE"
          using False "1.prems" by simp
        then show ?thesis
          by (simp add: CMDLOG_FLUSH_AUTO_SIZE_def)
      qed
      show ?thesis
      proof (intro exI [of _ "CMDLOG_FLUSH_AUTO_SIZE # ys"] conjI)
        show "add_bytes t ns = butlast ns @ CMDLOG_FLUSH_AUTO_SIZE # ys"
          using ab ys(1) bl by simp
        show "CMDLOG_FLUSH_AUTO_SIZE # ys \<noteq> []" by simp
        show "sum_list (CMDLOG_FLUSH_AUTO_SIZE # ys) = last ns + t"
          using ys(3) False "1.prems" by simp
        show "last (CMDLOG_FLUSH_AUTO_SIZE # ys) < CMDLOG_FLUSH_AUTO_SIZE"
          using ys(2,4) by simp
        show "\<forall>y \<in> set (butlast (CMDLOG_FLUSH_AUTO_SIZE # ys)). y = CMDLOG_FLUSH_AUTO_SIZE"
          using ys(2,5) by simp
        show "0 < t \<longrightarrow> 0 < hd (CMDLOG_FLUSH_AUTO_SIZE # ys)"
          by (simp add: CMDLOG_FLUSH_AUTO_SIZE_def)
        show "length (CMDLOG_FLUSH_AUTO_SIZE # ys)
            = Suc ((last ns + t) div CMDLOG_FLUSH_AUTO_SIZE)"
          using ys(6) dv by simp
      qed
    qed
  qed
qed

lemma layout_add_bytes:
  assumes "layout h l ns = Some (t, -1)" "l \<noteq> -1 \<and> t = 0 \<longrightarrow> last ns = 0"
    "ns \<noteq> []" "last ns < CMDLOG_FLUSH_AUTO_SIZE"
  shows "layout h l (add_bytes x ns) = Some (t + x, -1)"
  using assms
proof (induction x ns arbitrary: t rule: add_bytes.induct)
  case (1 x ns)
  have sn: "ns = butlast ns @ [last ns]" using "1.prems"(3) by simp
  show ?case
  proof (cases "x = 0")
    case True
    with "1.prems" show ?thesis by simp
  next
    case x: False
    have g: "layout h l (butlast ns @ [last ns + y]) = Some (t + y, -1)" if "0 < y" for y
      using "1.prems"(1,2) sn that layout_grow_last [of h l "butlast ns" "last ns" t y]
      by simp
    show ?thesis
    proof (cases "last ns + x < CMDLOG_FLUSH_AUTO_SIZE")
      case True
      with x "1.prems" g [of x] show ?thesis
        by (subst add_bytes.simps) simp
    next
      case False
      let ?y = "CMDLOG_FLUSH_AUTO_SIZE - last ns"
      let ?ns = "butlast ns @ [CMDLOG_FLUSH_AUTO_SIZE, 0]"
      have ab: "add_bytes x ns = add_bytes (x - ?y) ?ns"
        using x False "1.prems" by (subst add_bytes.simps) simp
      have y: "0 < ?y" "last ns + ?y = CMDLOG_FLUSH_AUTO_SIZE" "?y \<le> x"
        using "1.prems"(4) False by simp_all
      have "layout h l (butlast ns @ [CMDLOG_FLUSH_AUTO_SIZE]) = Some (t + ?y, -1)"
        using g [OF y(1)] y(2) by simp
      then have l1: "layout h l ?ns = Some (t + ?y, -1)"
        using layout_snoc0 [of h l "butlast ns @ [CMDLOG_FLUSH_AUTO_SIZE]"] by simp
      have "layout h l (add_bytes (x - ?y) ?ns) = Some (t + ?y + (x - ?y), -1)"
        using x False "1.prems" l1 y
        by (intro "1.IH") (simp_all add: CMDLOG_FLUSH_AUTO_SIZE_def)
      with ab y(3) show ?thesis by simp
    qed
  qed
qed

lemma lsn_relI:
  assumes "filenum w < 2 ^ 32" "roffset w < 2 ^ 64" "LOGSN_IS_LE y f"
    "dw = -1 \<Longrightarrow> filenum f = filenum w \<and> roffset w = roffset f + sum_list ns"
    "dw \<noteq> -1 \<Longrightarrow> d \<le> m \<and> dw = int (slot_at F b d) \<and> filenum w = filenum f + 1
                 \<and> roffset w = sum_list (drop d ns)
                 \<and> roffset f + sum_list (take d ns) < 2 ^ 64"
  shows "lsn_rel w f y dw F b m ns"
  unfolding lsn_rel_def using assms by blast

lemma lsn_relD:
  assumes "lsn_rel w f y dw F b m ns"
  shows "filenum w < 2 ^ 32" "roffset w < 2 ^ 64" "LOGSN_IS_LE y f"
    "dw = -1 \<Longrightarrow> filenum f = filenum w"
    "dw = -1 \<Longrightarrow> roffset w = roffset f + sum_list ns"
    "dw \<noteq> -1 \<Longrightarrow> \<exists>d\<le>m. dw = int (slot_at F b d) \<and> filenum w = filenum f + 1
                 \<and> roffset w = sum_list (drop d ns)
                 \<and> roffset f + sum_list (take d ns) < 2 ^ 64"
  using assms unfolding lsn_rel_def by blast+

lemma u64_id [simp]: "n < 2 ^ 64 \<Longrightarrow> u64 (int n) = n"
  by (simp add: u64_def nat_mod_distrib)

lemma u64_add: "a + b < 2 ^ 64 \<Longrightarrow> u64 (int a + int b) = a + b"
  using u64_id [of "a + b"] by simp

lemma u32_add: "a + b < 2 ^ 32 \<Longrightarrow> u32 (int a + int b) = a + b"
  using u32_id [of "a + b"] by simp

lemma u32_Suc: "a + 1 < 2 ^ 32 \<Longrightarrow> u32 (int a + 1) = Suc a"
  using u32_id [of "a + 1"] by (simp add: add.commute)

lemma u32_diff: "b \<le> a \<Longrightarrow> a < 2 ^ 32 \<Longrightarrow> u32 (int a - int b) = a - b"
  using u32_id [of "a - b"] by (simp add: of_nat_diff)

lemma LOGSN_IS_LE_refl [simp]: "LOGSN_IS_LE a a"
  by (simp add: LOGSN_IS_LE_def)

lemma LOGSN_IS_LE_trans: "LOGSN_IS_LE a b \<Longrightarrow> LOGSN_IS_LE b c \<Longrightarrow> LOGSN_IS_LE a c"
  by (auto simp: LOGSN_IS_LE_def)

lemma lsn_rel_le:
  assumes "lsn_rel w f y dw F b m ns"
  shows "LOGSN_IS_LE y f" "LOGSN_IS_LE f w"
proof -
  show "LOGSN_IS_LE y f" using assms by (rule lsn_relD)
  show "LOGSN_IS_LE f w"
    using lsn_relD(4,5,6) [OF assms] by (cases "dw = -1") (auto simp: LOGSN_IS_LE_def)
qed

lemma lsn_rel_sync:
  assumes "lsn_rel w f y dw F b m ns"
  shows "lsn_rel w f f dw F b m ns"
  using assms by (simp add: lsn_rel_def)

lemma lsn_rel_close:
  assumes "lsn_rel w f y dw F b m ns" "length ns = Suc m"
  shows "lsn_rel w f y dw F b (Suc m) (ns @ [0])"
proof -
  note r = lsn_relD [OF assms(1)]
  show ?thesis
  proof (cases "dw = -1")
    case True
    show ?thesis
      using r(1,2,3) r(4,5) [OF True] True by (intro lsn_relI [where d = 0]) simp_all
  next
    case False
    from r(6) [OF False] obtain d where d: "d \<le> m" "dw = int (slot_at F b d)"
      "filenum w = filenum f + 1" "roffset w = sum_list (drop d ns)"
      "roffset f + sum_list (take d ns) < 2 ^ 64"
      by blast
    show ?thesis
      using r(1,2,3) d False assms(2) by (intro lsn_relI [where d = d]) simp_all
  qed
qed

lemma lsn_rel_rotate:
  assumes "lsn_rel w f y (-1) F b m ns" "length ns = Suc m" "last ns = 0"
    "filenum w + 1 < 2 ^ 32"
  shows "lsn_rel (bump_filenum w) f y (int (slot_at F b m)) F b m ns"
proof -
  note r = lsn_relD(1-5) [OF assms(1)]
  have ns: "ns = butlast ns @ [0]"
    using assms(2,3) by (metis append_butlast_last_id length_0_conv nat.simps(3))
  have dr: "drop m ns = [0]"
    using assms(2) ns
    by (metis append_eq_conv_conj diff_Suc_1 length_butlast)
  have "sum_list ns = sum_list (take m ns @ drop m ns)" by simp
  also have "\<dots> = sum_list (take m ns) + sum_list (drop m ns)" by (rule sum_list_append)
  finally have tk: "sum_list (take m ns) = sum_list ns"
    unfolding dr by simp
  have fn: "u32 (int (filenum w) + 1) = Suc (filenum w)"
    using assms(4) by (rule u32_Suc)
  have b: "filenum (bump_filenum w) = Suc (filenum w)" "roffset (bump_filenum w) = 0"
    by (simp_all add: bump_filenum_def fn)
  show ?thesis
    using r assms(4) by (intro lsn_relI [where d = m]) (simp_all add: b dr tk)
qed

lemma lsn_rel_add:
  assumes "lsn_rel w f y dw F b m ns" "length ns = Suc m"
    "sum_list ys = last ns + t" "ys \<noteq> []" "roffset w + t < 2 ^ 64"
  shows "lsn_rel (add_roffset t w) f y dw F b (m + length ys - 1) (butlast ns @ ys)"
proof -
  note r = lsn_relD [OF assms(1)]
  have ns: "ns = butlast ns @ [last ns]" and lb: "length (butlast ns) = m"
    using assms(2) by (auto simp: length_0_conv [symmetric] simp del: length_0_conv)
  have "sum_list ns = sum_list (butlast ns) + last ns"
    using sum_list_append [of "butlast ns" "[last ns]"] ns by simp
  then have sm: "sum_list (butlast ns @ ys) = sum_list ns + t"
    using assms(3) by simp
  have ro: "roffset (add_roffset t w) = roffset w + t" "filenum (add_roffset t w) = filenum w"
    using assms(5) by (simp_all add: add_roffset_def u64_add)
  have d1: "sum_list (drop d (butlast ns @ ys)) = sum_list (drop d ns) + t" if "d \<le> m" for d
  proof -
    have "drop d ns = drop d (butlast ns) @ [last ns]"
      using that lb ns by (metis drop_append diff_is_0_eq drop0)
    then show ?thesis using that lb assms(3) by simp
  qed
  have d2: "take d (butlast ns @ ys) = take d ns" if "d \<le> m" for d
    using that lb ns by (metis take_append diff_is_0_eq take0 append_Nil2)
  have le: "m \<le> m + length ys - 1" using assms(4) by (cases ys) simp_all
  show ?thesis
  proof (cases "dw = -1")
    case True
    show ?thesis
      using r(1,3) r(4,5) [OF True] True assms(5)
      by (intro lsn_relI [where d = 0]) (simp_all only: ro sm, simp_all)
  next
    case False
    from r(6) [OF False] obtain d where d: "d \<le> m" "dw = int (slot_at F b d)"
      "filenum w = filenum f + 1" "roffset w = sum_list (drop d ns)"
      "roffset f + sum_list (take d ns) < 2 ^ 64"
      by blast
    show ?thesis
    proof (rule lsn_relI [where d = d])
      show "filenum (add_roffset t w) < 2 ^ 32" unfolding ro by (fact r(1))
      show "roffset (add_roffset t w) < 2 ^ 64" unfolding ro by (fact assms(5))
      show "LOGSN_IS_LE y f" by (fact r(3))
      show "filenum f = filenum (add_roffset t w)
          \<and> roffset (add_roffset t w) = roffset f + sum_list (butlast ns @ ys)" if "dw = -1"
        using that False by simp
      show "d \<le> m + length ys - 1 \<and> dw = int (slot_at F b d)
          \<and> filenum (add_roffset t w) = filenum f + 1
          \<and> roffset (add_roffset t w) = sum_list (drop d (butlast ns @ ys))
          \<and> roffset f + sum_list (take d (butlast ns @ ys)) < 2 ^ 64"
        unfolding ro d1 [OF d(1)] d2 [OF d(1)] using d le by simp
    qed
  qed
qed

lemma lsn_rel_consume:
  assumes "lsn_rel w f y dw F b (Suc m) ns" "length ns = Suc (Suc m)"
    "2 \<le> F" "F < 2 ^ 31" "b < F" "Suc m < F"
  shows "lsn_rel w (add_roffset (hd ns) (if b = u32 dw then bump_filenum f else f)) y
           (if b = u32 dw then -1 else dw) F (fq_next b F) m (tl ns)
       \<and> (0 < hd ns \<longrightarrow>
            LOGSN_IS_GT (add_roffset (hd ns) (if b = u32 dw then bump_filenum f else f)) f)"
proof -
  note r = lsn_relD [OF assms(1)]
  obtain n ms where ns: "ns = n # ms" using assms(2) by (cases ns) auto
  have sh: "slot_at F (fq_next b F) i = slot_at F b (Suc i)" for i
    using assms(3,4,5) by (simp add: slot_at_shift)
  show ?thesis
  proof (cases "dw = -1")
    case True
    with assms(5,4) have nb: "b \<noteq> u32 dw" by simp
    have "roffset f + n < 2 ^ 64" using r(2) r(5) [OF True] ns by simp
    then have ro: "u64 (int (roffset f) + int n) = roffset f + n" by (rule u64_add)
    have a: "roffset (add_roffset n f) = roffset f + n" "filenum (add_roffset n f) = filenum f"
      by (simp_all add: add_roffset_def ro)
    have le: "LOGSN_IS_LE y (add_roffset n f)"
      using r(3) by (auto simp: LOGSN_IS_LE_def a)
    have "lsn_rel w (add_roffset (hd ns) (if b = u32 dw then bump_filenum f else f)) y
           (if b = u32 dw then -1 else dw) F (fq_next b F) m (tl ns)"
      using r(1,2) r(4,5) [OF True] nb True ns le
      by (intro lsn_relI [where d = 0]) (simp_all add: a)
    moreover have "0 < hd ns \<longrightarrow>
        LOGSN_IS_GT (add_roffset (hd ns) (if b = u32 dw then bump_filenum f else f)) f"
      using nb ns by (simp add: LOGSN_IS_GT_def a)
    ultimately show ?thesis ..
  next
    case False
    from r(6) [OF False] obtain d where d: "d \<le> Suc m" "dw = int (slot_at F b d)"
      "filenum w = filenum f + 1" "roffset w = sum_list (drop d ns)"
      "roffset f + sum_list (take d ns) < 2 ^ 64"
      by blast
    have "slot_at F b d < F" using assms(3) by simp
    then have sl: "slot_at F b d < 2 ^ 32" using assms(4) by simp
    have fl: "b = u32 dw \<longleftrightarrow> d = 0"
      using slot_inj [of d F 0 b] d(1) assms(5,6) sl by (auto simp: d(2))
    show ?thesis
    proof (cases "d = 0")
      case True
      have fn: "u32 (int (filenum f) + 1) = filenum w"
        using d(3) r(1) u32_Suc [of "filenum f"] by simp
      have "n < 2 ^ 64" using d(4) r(2) True ns by simp
      then have ro: "u64 (int n) = n" by simp
      have a: "roffset (add_roffset n (bump_filenum f)) = n"
        "filenum (add_roffset n (bump_filenum f)) = filenum w"
        by (simp_all add: add_roffset_def bump_filenum_def ro fn)
      have le: "LOGSN_IS_LE y (add_roffset n (bump_filenum f))"
        using r(3) d(3) by (auto simp: LOGSN_IS_LE_def a)
      have "lsn_rel w (add_roffset (hd ns) (if b = u32 dw then bump_filenum f else f)) y
           (if b = u32 dw then -1 else dw) F (fq_next b F) m (tl ns)"
        using r(1,2) d True fl ns le
        by (intro lsn_relI [where d = 0]) (simp_all add: a)
      moreover have "0 < hd ns \<longrightarrow>
          LOGSN_IS_GT (add_roffset (hd ns) (if b = u32 dw then bump_filenum f else f)) f"
        using fl True ns d(3) by (simp add: LOGSN_IS_GT_def a)
      ultimately show ?thesis ..
    next
      case nz: False
      then obtain k where k: "d = Suc k" by (cases d) auto
      have "roffset f + n < 2 ^ 64" using d(5) k ns by simp
      then have ro: "u64 (int (roffset f) + int n) = roffset f + n" by (rule u64_add)
      have a: "roffset (add_roffset n f) = roffset f + n" "filenum (add_roffset n f) = filenum f"
        by (simp_all add: add_roffset_def ro)
      have le: "LOGSN_IS_LE y (add_roffset n f)"
        using r(3) by (auto simp: LOGSN_IS_LE_def a)
      have "lsn_rel w (add_roffset (hd ns) (if b = u32 dw then bump_filenum f else f)) y
           (if b = u32 dw then -1 else dw) F (fq_next b F) m (tl ns)"
        using r(1,2) d k fl nz ns False le
        by (intro lsn_relI [where d = k]) (simp_all add: a sh)
      moreover have "0 < hd ns \<longrightarrow>
          LOGSN_IS_GT (add_roffset (hd ns) (if b = u32 dw then bump_filenum f else f)) f"
        using fl nz ns by (simp add: LOGSN_IS_GT_def a)
      ultimately show ?thesis ..
    qed
  qed
qed

lemma lsn_rel_idle:
  assumes "lsn_rel w f y dw F b 0 ns" "length ns = Suc 0"
    "2 \<le> F" "F < 2 ^ 31" "b < F"
  shows "lsn_rel w (if b = u32 dw then bump_filenum f else f) y
           (if b = u32 dw then -1 else dw) F b 0 ns"
proof (cases "dw = -1")
  case True
  with assms(5,4) have nb: "b \<noteq> u32 dw" by simp
  with assms(1) show ?thesis by simp
next
  case False
  note r = lsn_relD [OF assms(1)]
  from r(6) [OF False] have d: "dw = int (slot_at F b 0)"
      "filenum w = filenum f + 1" "roffset w = sum_list ns"
    by auto
  have fl: "b = u32 dw"
    using assms(4,5) by (simp add: d(1))
  have fn: "u32 (int (filenum f) + 1) = filenum w"
    using d(2) r(1) u32_Suc [of "filenum f"] by simp
  have a: "roffset (bump_filenum f) = 0" "filenum (bump_filenum f) = filenum w"
    by (simp_all add: bump_filenum_def fn)
  have le: "LOGSN_IS_LE y (bump_filenum f)"
    using r(3) d(2) by (auto simp: LOGSN_IS_LE_def a)
  show ?thesis
    using r(1,2) d fl le
    by (intro lsn_relI [where d = 0]) (simp_all add: a)
qed

lemma rinv_snoc0:
  assumes "rinv sz h t l ns"
  shows "rinv sz h t l (ns @ [0])"
  using assms by (simp add: rinv_def layout_snoc0)

lemma rinv_add:
  assumes "rinv sz h t l ns" "last ns < CMDLOG_FLUSH_AUTO_SIZE"
    "if h \<le> t then l = -1 \<and> t + x < sz else t + x < h"
  shows "rinv sz h (t + x) l (add_bytes x ns)"
proof -
  note d = rinvD [OF assms(1)]
  have ly: "layout h l (add_bytes x ns) = Some (t + x, -1)"
    using d(3) d(4) d(5) assms(2) by (intro layout_add_bytes) auto
  from add_bytes_shape [OF d(5) assms(2), of x] obtain ys where
    ys: "add_bytes x ns = butlast ns @ ys" "ys \<noteq> []" by blast
  have ne: "add_bytes x ns \<noteq> []" unfolding ys(1) using ys(2) by simp
  have k: "last (add_bytes x ns) = 0" if "l \<noteq> -1" "t + x = 0"
    using that d(4) by simp
  show ?thesis
    unfolding rinv_def using d(1,2) assms(3) ly ne k
    by (auto split: if_splits)
qed

lemma rinv_bounds:
  assumes "rinv sz h t l ns"
  shows "h < 2 ^ 31" "t < sz" "-1 \<le> l" "l < 2 ^ 31" "h \<le> sz" "sz < 2 ^ 31"
  using rinvD(1,2) [OF assms] by auto

lemma rinv_u32:
  assumes "rinv sz h t l ns"
  shows "h = u32 l \<longleftrightarrow> int h = l"
proof (cases "l = -1")
  case True
  with rinv_bounds(1) [OF assms] show ?thesis by simp
next
  case False
  with rinv_bounds(3,4) [OF assms] have "0 \<le> l" "l < 4294967296" by simp_all
  then have "u32 l = nat l" by (rule u32_small)
  with \<open>0 \<le> l\<close> show ?thesis by auto
qed

lemma u32_reclaim:
  assumes "h \<le> sz" "sz < 2 ^ 31" "-1 \<le> l" "l < 2 ^ 31"
  shows "h = u32 l \<longleftrightarrow> int h = l"
proof (cases "l = -1")
  case True
  with assms(1,2) show ?thesis by simp
next
  case False
  with assms(3,4) have "0 \<le> l" "l < 4294967296" by simp_all
  then have "u32 l = nat l" by (rule u32_small)
  with \<open>0 \<le> l\<close> show ?thesis by auto
qed

lemma wrap_reclaim_ring:
  assumes "rinv sz (head lb) t (last_lb lb) ns"
  shows "head (wrap_reclaim lb) = (if int (head lb) = last_lb lb then 0 else head lb)"
    "last_lb (wrap_reclaim lb) = (if int (head lb) = last_lb lb then -1 else last_lb lb)"
  using rinv_u32 [OF assms] by (simp_all add: wrap_reclaim_def)

lemma flush_consume_ring:
  assumes "rinv sz (head lb) (tail lb) (last_lb lb) (n # ns)" "0 < n" "ns \<noteq> []"
  shows "rinv sz (head (flush_consume n (wrap_reclaim lb))) (tail lb)
           (last_lb (flush_consume n (wrap_reclaim lb))) ns"
    "head (wrap_reclaim lb) + n \<le> sz"
proof -
  let ?h0 = "if int (head lb) = last_lb lb then 0 else head lb"
  let ?l0 = "if int (head lb) = last_lb lb then -1 else last_lb lb"
  note w = wrap_reclaim_ring [OF assms(1)]
  note c = rinv_consume [OF assms]
  note b = rinv_bounds [OF assms(1)]
  show le: "head (wrap_reclaim lb) + n \<le> sz" unfolding w(1) by (fact c(1))
  have l0: "-1 \<le> ?l0" "?l0 < 2 ^ 31" using b(3,4) by simp_all
  have "?h0 + n < 2 ^ 32" using c(1) b(6) by simp
  then have u: "u32 (int ?h0 + int n) = ?h0 + n" by (rule u32_add)
  have t: "?h0 + n = u32 ?l0 \<longleftrightarrow> int (?h0 + n) = ?l0"
    using c(1) b(6) l0 by (rule u32_reclaim)
  have hd: "head (flush_consume n (wrap_reclaim lb))
      = (if int (?h0 + n) = ?l0 then 0 else ?h0 + n)"
    and la: "last_lb (flush_consume n (wrap_reclaim lb))
      = (if int (?h0 + n) = ?l0 then -1 else ?l0)"
    unfolding flush_consume_fields
    using t by (simp_all add: wrap_reclaim_def [of "wrap_reclaim lb\<lparr>head := _\<rparr>"] w u)
  show "rinv sz (head (flush_consume n (wrap_reclaim lb))) (tail lb)
           (last_lb (flush_consume n (wrap_reclaim lb))) ns"
    unfolding hd la by (fact c(2))
qed

lemma inv_atD:
  assumes "inv_at s m"
  shows "qinv (fque (log_buffer s)) (fqsz (log_buffer s)) (fbgn (log_buffer s))
        (fend (log_buffer s)) m"
    "lsn_rel (nxt_write_lsn s) (nxt_flush_lsn s) (nxt_fsync_lsn s) (dw_end (log_buffer s))
          (fqsz (log_buffer s)) (fbgn (log_buffer s)) m
          (win (fque (log_buffer s)) (fqsz (log_buffer s)) (fbgn (log_buffer s)) m)"
  using assms unfolding inv_at_def by blast+

lemma end_cleanup_dw_end:
  "dw_end (end_cleanup lb) = (if fbgn lb = u32 (dw_end lb) then -1 else dw_end lb)"
  by (simp add: end_cleanup_def)

lemma do_log_buff_flush_cases:
  assumes "do_log_buff_flush fa s = Some (n, s')"
  obtains (idle) "n = 0" "fbgn (log_buffer s) = fend (log_buffer s)"
      "fa \<longrightarrow> nflush (fque (log_buffer s) (fend (log_buffer s))) = 0"
      "log_buffer s' = end_cleanup (log_buffer s)"
      "nxt_flush_lsn s' = (if fbgn (log_buffer s) = u32 (dw_end (log_buffer s))
                           then bump_filenum (nxt_flush_lsn s) else nxt_flush_lsn s)"
    | (closed) "0 < n" "fbgn (log_buffer s) \<noteq> fend (log_buffer s)"
      "n = nflush (fque (log_buffer s) (fbgn (log_buffer s)))"
      "log_buffer s' = flush_consume n (wrap_reclaim (end_cleanup (log_buffer s)))"
      "nxt_flush_lsn s' = add_roffset n (if fbgn (log_buffer s) = u32 (dw_end (log_buffer s))
                           then bump_filenum (nxt_flush_lsn s) else nxt_flush_lsn s)"
    | (opened) "0 < n" "fbgn (log_buffer s) = fend (log_buffer s)" "fa"
      "n = nflush (fque (log_buffer s) (fend (log_buffer s)))"
      "log_buffer s' = flush_consume n (wrap_reclaim ((end_cleanup (log_buffer s))
           \<lparr>fend := fq_next (fend (log_buffer s)) (fqsz (log_buffer s))\<rparr>))"
      "nxt_flush_lsn s' = add_roffset n (if fbgn (log_buffer s) = u32 (dw_end (log_buffer s))
                           then bump_filenum (nxt_flush_lsn s) else nxt_flush_lsn s)"
  using assms
proof (cases rule: do_log_buff_flush_inv)
  case (idle d f c lb)
  from idle(1) have "fbgn (log_buffer s) = fend (log_buffer s)"
      "fa \<longrightarrow> nflush (fque (log_buffer s) (fend (log_buffer s))) = 0"
      "lb = end_cleanup (log_buffer s)"
      "f = (fbgn (log_buffer s) = u32 (dw_end (log_buffer s)))"
    by (auto simp: flush_select_def Let_def split: if_splits)
  with idle(2,3) that(1) show ?thesis by simp
next
  case (work d f c lb s2)
  from work(1,2) have f: "f = (fbgn (log_buffer s) = u32 (dw_end (log_buffer s)))"
    by (auto simp: flush_select_def Let_def split: if_splits)
  note fr = flush_write_frame [OF work(3)]
  have fl: "nxt_flush_lsn s' = add_roffset n (if fbgn (log_buffer s) = u32 (dw_end (log_buffer s))
                           then bump_filenum (nxt_flush_lsn s) else nxt_flush_lsn s)"
    using work(4) fr(3) f by simp
  have lb': "log_buffer s' = flush_consume n lb"
    using work(4) fr(1) by simp
  show ?thesis
  proof (cases "fbgn (log_buffer s) = fend (log_buffer s)")
    case True
    with work(1,2) have "fa" "n = nflush (fque (log_buffer s) (fend (log_buffer s)))"
      "lb = wrap_reclaim ((end_cleanup (log_buffer s))
           \<lparr>fend := fq_next (fend (log_buffer s)) (fqsz (log_buffer s))\<rparr>)"
      by (auto simp: flush_select_def Let_def split: if_splits)
    with work(2) True lb' fl that(3) show ?thesis by simp
  next
    case False
    with work(1,2) have "n = nflush (fque (log_buffer s) (fbgn (log_buffer s)))"
      "lb = wrap_reclaim (end_cleanup (log_buffer s))"
      by (auto simp: flush_select_def Let_def split: if_splits)
    with work(2) False lb' fl that(2) show ?thesis by simp
  qed
qed

lemma win_hd: "hd (win q F b m) = nflush (q (slot_at F b 0))"
  by (simp add: win_def upt_rec hd_map)

lemma flush_inv:
  assumes "do_log_buff_flush fa s = Some (n, s')" "inv_at s m"
  shows "\<exists>m'. inv_at s' m' \<and> m' \<le> m
           \<and> nflush (fque (log_buffer s') (fend (log_buffer s')))
               \<le> nflush (fque (log_buffer s) (fend (log_buffer s)))
           \<and> sum_list (win (fque (log_buffer s')) (fqsz (log_buffer s'))
                          (fbgn (log_buffer s')) m') + n
               = sum_list (win (fque (log_buffer s)) (fqsz (log_buffer s))
                            (fbgn (log_buffer s)) m)
           \<and> (0 < n \<longrightarrow> LOGSN_IS_GT (nxt_flush_lsn s') (nxt_flush_lsn s))
           \<and> (ring_at s m \<longrightarrow> ring_at s' m')"
proof -
  let ?lb = "log_buffer s"
  let ?f = "if fbgn ?lb = u32 (dw_end ?lb) then bump_filenum (nxt_flush_lsn s)
            else nxt_flush_lsn s"
  let ?dw = "if fbgn ?lb = u32 (dw_end ?lb) then -1 else dw_end ?lb"
  let ?q' = "(fque ?lb)(fbgn ?lb := \<lparr>nflush = 0, dual_write = False\<rparr>)"
  let ?b' = "fq_next (fbgn ?lb) (fqsz ?lb)"
  note q = inv_atD(1) [OF assms(2)] and l = inv_atD(2) [OF assms(2)]
  note d = qinvD [OF q]
  note fr = do_log_buff_flush_frame [OF assms(1)]
  have wf: "nxt_write_lsn s' = nxt_write_lsn s" "nxt_fsync_lsn s' = nxt_fsync_lsn s"
    using fr by simp_all
  have b0: "slot_at (fqsz ?lb) (fbgn ?lb) 0 = fbgn ?lb" using d(3) by simp
  from assms(1) show ?thesis
  proof (cases rule: do_log_buff_flush_cases)
    case idle
    have m0: "m = 0" using qinv_same_iff [OF q] idle(2) by simp
    have lr: "lsn_rel (nxt_write_lsn s) ?f (nxt_fsync_lsn s) ?dw (fqsz ?lb) (fbgn ?lb) 0
        (win (fque ?lb) (fqsz ?lb) (fbgn ?lb) 0)"
      using l d(1,2,3) unfolding m0 by (intro lsn_rel_idle) simp_all
    have "inv_at s' 0"
      unfolding inv_at_def idle(4,5) end_cleanup_fields end_cleanup_dw_end wf
      using q [unfolded m0] lr by blast
    moreover have "ring_at s m \<longrightarrow> ring_at s' 0"
      unfolding ring_at_def idle(4) end_cleanup_fields m0 by simp
    ultimately show ?thesis
      using m0 idle(1,4) by (intro exI [of _ 0]) simp
  next
    case closed
    from qinv_same_iff [OF q] closed(2) obtain k where k: "m = Suc k" by (cases m) auto
    note c = qinv_consume [OF q [unfolded k]]
    have hd: "hd (win (fque ?lb) (fqsz ?lb) (fbgn ?lb) (Suc k)) = n"
      unfolding win_hd b0 closed(3) ..
    have lr: "lsn_rel (nxt_write_lsn s)
        (add_roffset (hd (win (fque ?lb) (fqsz ?lb) (fbgn ?lb) (Suc k))) ?f) (nxt_fsync_lsn s)
        ?dw (fqsz ?lb) ?b' k (tl (win (fque ?lb) (fqsz ?lb) (fbgn ?lb) (Suc k)))"
      and gt: "0 < hd (win (fque ?lb) (fqsz ?lb) (fbgn ?lb) (Suc k)) \<longrightarrow>
        LOGSN_IS_GT (add_roffset (hd (win (fque ?lb) (fqsz ?lb) (fbgn ?lb) (Suc k))) ?f)
          (nxt_flush_lsn s)"
      using l d(1,2,3,4) unfolding k by (intro lsn_rel_consume [THEN conjunct1]
          lsn_rel_consume [THEN conjunct2]; simp)+
    have "inv_at s' k"
      unfolding inv_at_def closed(4,5) flush_consume_fields wrap_reclaim_fields
        end_cleanup_fields end_cleanup_dw_end wf c(2)
      using c(1) lr [unfolded hd] by blast
    moreover have "nflush (fque (log_buffer s') (fend (log_buffer s')))
               \<le> nflush (fque ?lb (fend ?lb))"
      unfolding closed(4) by simp
    moreover have "sum_list (win (fque (log_buffer s')) (fqsz (log_buffer s'))
                          (fbgn (log_buffer s')) k) + n
               = sum_list (win (fque ?lb) (fqsz ?lb) (fbgn ?lb) (Suc k))"
      unfolding closed(4) flush_consume_fields wrap_reclaim_fields end_cleanup_fields c(2)
      using hd win_length [of "fque ?lb" "fqsz ?lb" "fbgn ?lb" "Suc k"]
      by (cases "win (fque ?lb) (fqsz ?lb) (fbgn ?lb) (Suc k)") simp_all
    moreover have "LOGSN_IS_GT (nxt_flush_lsn s') (nxt_flush_lsn s)"
      unfolding closed(5) using gt closed(1) unfolding hd by simp
    moreover have "ring_at s m \<longrightarrow> ring_at s' k"
    proof
      assume "ring_at s m"
      then have r: "rinv (size_lb ?lb) (head (end_cleanup ?lb)) (tail (end_cleanup ?lb))
          (last_lb (end_cleanup ?lb)) (n # tl (win (fque ?lb) (fqsz ?lb) (fbgn ?lb) (Suc k)))"
        unfolding ring_at_def k end_cleanup_fields
        using hd win_length [of "fque ?lb" "fqsz ?lb" "fbgn ?lb" "Suc k"]
        by (cases "win (fque ?lb) (fqsz ?lb) (fbgn ?lb) (Suc k)") simp_all
      have ne: "tl (win (fque ?lb) (fqsz ?lb) (fbgn ?lb) (Suc k)) \<noteq> []"
        using win_length [of "fque ?lb" "fqsz ?lb" "fbgn ?lb" "Suc k"]
        by (cases "win (fque ?lb) (fqsz ?lb) (fbgn ?lb) (Suc k)") auto
      from flush_consume_ring(1) [OF r closed(1) ne]
      show "ring_at s' k"
        unfolding ring_at_def closed(4) c(2) [symmetric] by simp
    qed
    ultimately show ?thesis using k by (intro exI [of _ k]) simp
  next
    case opened
    have m0: "m = 0" using qinv_same_iff [OF q] opened(2) by simp
    have pos: "0 < nflush (fque ?lb (fend ?lb))" using opened(1,4) by simp
    have S: "Suc 0 < fqsz ?lb" using d(1) by simp
    note cl = qinv_close [OF q [unfolded m0] S pos]
    note c = qinv_consume [OF cl(1)]
    have hd: "hd (win (fque ?lb) (fqsz ?lb) (fbgn ?lb) (Suc 0)) = n"
      using b0 opened(2,4) by (simp add: win_hd)
    have l1: "lsn_rel (nxt_write_lsn s) (nxt_flush_lsn s) (nxt_fsync_lsn s) (dw_end ?lb)
        (fqsz ?lb) (fbgn ?lb) (Suc 0) (win (fque ?lb) (fqsz ?lb) (fbgn ?lb) (Suc 0))"
      unfolding cl(2) using l unfolding m0 by (intro lsn_rel_close) simp_all
    have lr: "lsn_rel (nxt_write_lsn s)
        (add_roffset (hd (win (fque ?lb) (fqsz ?lb) (fbgn ?lb) (Suc 0))) ?f) (nxt_fsync_lsn s)
        ?dw (fqsz ?lb) ?b' 0 (tl (win (fque ?lb) (fqsz ?lb) (fbgn ?lb) (Suc 0)))"
      and gt: "0 < hd (win (fque ?lb) (fqsz ?lb) (fbgn ?lb) (Suc 0)) \<longrightarrow>
        LOGSN_IS_GT (add_roffset (hd (win (fque ?lb) (fqsz ?lb) (fbgn ?lb) (Suc 0))) ?f)
          (nxt_flush_lsn s)"
      using l1 d(1,2,3) S by (intro lsn_rel_consume [THEN conjunct1]
          lsn_rel_consume [THEN conjunct2]; simp)+
    have fe: "fend (flush_consume n (wrap_reclaim ((end_cleanup ?lb)
           \<lparr>fend := fq_next (fend ?lb) (fqsz ?lb)\<rparr>))) = fq_next (fend ?lb) (fqsz ?lb)"
      and ff: "fque (flush_consume n (wrap_reclaim ((end_cleanup ?lb)
           \<lparr>fend := fq_next (fend ?lb) (fqsz ?lb)\<rparr>))) = ?q'"
      and fz: "fqsz (flush_consume n (wrap_reclaim ((end_cleanup ?lb)
           \<lparr>fend := fq_next (fend ?lb) (fqsz ?lb)\<rparr>))) = fqsz ?lb"
      and fb: "fbgn (flush_consume n (wrap_reclaim ((end_cleanup ?lb)
           \<lparr>fend := fq_next (fend ?lb) (fqsz ?lb)\<rparr>))) = ?b'"
      and fd: "dw_end (flush_consume n (wrap_reclaim ((end_cleanup ?lb)
           \<lparr>fend := fq_next (fend ?lb) (fqsz ?lb)\<rparr>))) = ?dw"
      by (simp_all add: end_cleanup_dw_end)
    have "inv_at s' 0"
      unfolding inv_at_def opened(5,6) fe ff fz fb fd wf c(2)
      using c(1) lr [unfolded hd] by blast
    moreover have "nflush (fque (log_buffer s') (fend (log_buffer s'))) = 0"
    proof -
      have "nflush (fque ?lb (fq_next (fend ?lb) (fqsz ?lb))) = 0"
        using d(6) [of 1] qinvD(5) [OF cl(1)] S m0 by simp
      then show ?thesis
        unfolding opened(5) fe ff by simp
    qed
    moreover have "sum_list (win (fque (log_buffer s')) (fqsz (log_buffer s'))
                          (fbgn (log_buffer s')) 0) + n
               = sum_list (win (fque ?lb) (fqsz ?lb) (fbgn ?lb) 0)"
      unfolding opened(5) fe ff fz fb c(2) cl(2)
      using hd by (simp add: win_def)
    moreover have "LOGSN_IS_GT (nxt_flush_lsn s') (nxt_flush_lsn s)"
      unfolding opened(6) using gt opened(1) unfolding hd by simp
    moreover have "ring_at s m \<longrightarrow> ring_at s' 0"
    proof
      let ?lbx = "(end_cleanup ?lb)\<lparr>fend := fq_next (fend ?lb) (fqsz ?lb)\<rparr>"
      assume "ring_at s m"
      then have "rinv (size_lb ?lb) (head ?lb) (tail ?lb) (last_lb ?lb)
          (win (fque ?lb) (fqsz ?lb) (fbgn ?lb) 0 @ [0])"
        unfolding ring_at_def m0 by (rule rinv_snoc0)
      then have r: "rinv (size_lb ?lb) (head ?lbx) (tail ?lbx)
          (last_lb ?lbx) (n # tl (win (fque ?lb) (fqsz ?lb) (fbgn ?lb) (Suc 0)))"
        unfolding cl(2) [symmetric]
        using hd win_length [of "fque ?lb" "fqsz ?lb" "fbgn ?lb" "Suc 0"]
        by (cases "win (fque ?lb) (fqsz ?lb) (fbgn ?lb) (Suc 0)") simp_all
      have ne: "tl (win (fque ?lb) (fqsz ?lb) (fbgn ?lb) (Suc 0)) \<noteq> []"
        using win_length [of "fque ?lb" "fqsz ?lb" "fbgn ?lb" "Suc 0"]
        by (cases "win (fque ?lb) (fqsz ?lb) (fbgn ?lb) (Suc 0)") auto
      from flush_consume_ring(1) [OF r opened(1) ne]
      show "ring_at s' 0"
        unfolding ring_at_def opened(5) c(2) [symmetric] by simp
    qed
    ultimately show ?thesis unfolding m0 by (intro exI [of _ 0]) simp
  qed
qed

lemma space_check_cases:
  assumes "space_check t lb = Some (enough, lb')"
  obtains (fit) "head lb \<le> tail lb" "last_lb lb = -1"
        "t < u32 (int (size_lb lb) - int (tail lb))" "enough" "lb' = lb"
    | (wrap) "head lb \<le> tail lb" "last_lb lb = -1" "0 < head lb"
        "\<not> t < u32 (int (size_lb lb) - int (tail lb))"
        "enough = (t < head lb)"
        "lb' = lb\<lparr>last_lb := i32 (int (tail lb)), tail := 0,
                   fend := (if nflush (fque lb (fend lb)) > 0
                            then fq_next (fend lb) (fqsz lb) else fend lb)\<rparr>"
    | (full) "head lb \<le> tail lb" "last_lb lb = -1" "head lb = 0"
        "\<not> t < u32 (int (size_lb lb) - int (tail lb))" "\<not> enough" "lb' = lb"
    | (behind) "tail lb < head lb" "last_lb lb \<noteq> -1"
        "enough = (t < u32 (int (head lb) - int (tail lb)))" "lb' = lb"
proof (cases "head lb \<le> tail lb")
  case False
  with assms have "last_lb lb \<noteq> -1"
    "enough = (t < u32 (int (head lb) - int (tail lb)))" "lb' = lb"
    by (auto simp: space_check_def split: if_splits)
  with False behind show ?thesis by simp
next
  case True
  with assms have l: "last_lb lb = -1"
    by (auto simp: space_check_def split: if_splits)
  show ?thesis
  proof (cases "t < u32 (int (size_lb lb) - int (tail lb))")
    case t: True
    with True l assms have "enough" "lb' = lb" by (simp_all add: space_check_def)
    with True l t fit show ?thesis by simp
  next
    case t: False
    show ?thesis
    proof (cases "0 < head lb")
      case h: True
      with True l t assms have "enough = (t < head lb)"
        "lb' = lb\<lparr>last_lb := i32 (int (tail lb)), tail := 0,
                   fend := (if nflush (fque lb (fend lb)) > 0
                            then fq_next (fend lb) (fqsz lb) else fend lb)\<rparr>"
        by (simp_all add: space_check_def Let_def)
      with True l t h wrap show ?thesis by simp
    next
      case h: False
      with True l t assms have "\<not> enough" "lb' = lb" by (simp_all add: space_check_def)
      with True l t h full show ?thesis by simp
    qed
  qed
qed

lemma inv_at_buffer:
  assumes "inv_at s m" "fque lb = fque (log_buffer s)" "fqsz lb = fqsz (log_buffer s)"
    "fbgn lb = fbgn (log_buffer s)" "fend lb = fend (log_buffer s)"
    "dw_end lb = dw_end (log_buffer s)"
  shows "inv_at (s\<lparr>log_buffer := lb\<rparr>) m"
  using assms by (simp add: inv_at_def)

lemma inv_at_close:
  assumes "inv_at s m" "Suc m < fqsz (log_buffer s)"
    "0 < nflush (fque (log_buffer s) (fend (log_buffer s)))"
    "fque lb = fque (log_buffer s)" "fqsz lb = fqsz (log_buffer s)"
    "fbgn lb = fbgn (log_buffer s)" "fend lb = fq_next (fend (log_buffer s)) (fqsz (log_buffer s))"
    "dw_end lb = dw_end (log_buffer s)"
  shows "inv_at (s\<lparr>log_buffer := lb\<rparr>) (Suc m)"
    "nflush (fque lb (fend lb)) = 0"
    "win (fque lb) (fqsz lb) (fbgn lb) (Suc m)
       = win (fque (log_buffer s)) (fqsz (log_buffer s)) (fbgn (log_buffer s)) m @ [0]"
proof -
  note q = inv_atD(1) [OF assms(1)] and l = inv_atD(2) [OF assms(1)]
  note cl = qinv_close [OF q assms(2,3)]
  have lr: "lsn_rel (nxt_write_lsn s) (nxt_flush_lsn s) (nxt_fsync_lsn s)
      (dw_end (log_buffer s)) (fqsz (log_buffer s)) (fbgn (log_buffer s)) (Suc m)
      (win (fque (log_buffer s)) (fqsz (log_buffer s)) (fbgn (log_buffer s)) (Suc m))"
    unfolding cl(2) using l by (intro lsn_rel_close) simp_all
  show "inv_at (s\<lparr>log_buffer := lb\<rparr>) (Suc m)"
    using cl(1) lr by (simp add: inv_at_def assms(4-8))
  show "nflush (fque lb (fend lb)) = 0"
    using qinvD(6) [OF q, of "Suc m"] qinvD(5) [OF cl(1)] assms(2) by (simp add: assms(4-8))
  show "win (fque lb) (fqsz lb) (fbgn lb) (Suc m)
       = win (fque (log_buffer s)) (fqsz (log_buffer s)) (fbgn (log_buffer s)) m @ [0]"
    unfolding assms(4-6) by (fact cl(2))
qed

lemma space_check_inv:
  assumes "space_check t (log_buffer s) = Some (enough, lb)" "inv_at s m"
    "0 < nflush (fque (log_buffer s) (fend (log_buffer s))) \<longrightarrow> Suc m < fqsz (log_buffer s)"
  shows "fqsz lb = fqsz (log_buffer s) \<and>
     (\<exists>m'. inv_at (s\<lparr>log_buffer := lb\<rparr>) m'
        \<and> (m' = m
              \<and> nflush (fque lb (fend lb)) = nflush (fque (log_buffer s) (fend (log_buffer s)))
            \<or> m' = Suc m
              \<and> 0 < nflush (fque (log_buffer s) (fend (log_buffer s)))
              \<and> nflush (fque lb (fend lb)) = 0)
        \<and> (ring_at s m \<longrightarrow> ring_at (s\<lparr>log_buffer := lb\<rparr>) m' \<and> (enough \<longrightarrow> room t lb)))"
proof -
  let ?lb = "log_buffer s"
  let ?ns = "win (fque ?lb) (fqsz ?lb) (fbgn ?lb) m"
  have same: ?thesis if eq: "lb = ?lb" and rm: "ring_at s m \<Longrightarrow> enough \<Longrightarrow> room t ?lb"
  proof -
    have "inv_at (s\<lparr>log_buffer := lb\<rparr>) m" using assms(2) eq by (simp add: inv_at_def)
    moreover have "ring_at s m \<longrightarrow> ring_at (s\<lparr>log_buffer := lb\<rparr>) m \<and> (enough \<longrightarrow> room t lb)"
      using rm eq by (simp add: ring_at_def)
    ultimately show ?thesis using eq by (intro conjI exI [of _ m]) simp_all
  qed
  from assms(1) show ?thesis
  proof (cases rule: space_check_cases)
    case fit
    show ?thesis
    proof (rule same [OF fit(5)])
      assume "ring_at s m"
      then have "tail ?lb < size_lb ?lb" "size_lb ?lb < 2 ^ 31"
        unfolding ring_at_def by (rule rinv_bounds)+
      then have "u32 (int (size_lb ?lb) - int (tail ?lb)) = size_lb ?lb - tail ?lb"
        by (intro u32_diff) simp_all
      with fit(1,2,3) show "room t ?lb" by (simp add: room_def)
    qed
  next
    case full
    from full(5) show ?thesis by (intro same [OF full(6)]) simp
  next
    case behind
    show ?thesis
    proof (rule same [OF behind(4)])
      assume r: "ring_at s m" and e: "enough"
      from r have "head ?lb < 2 ^ 31"
        unfolding ring_at_def by (rule rinv_bounds)
      with behind(1) have "u32 (int (head ?lb) - int (tail ?lb)) = head ?lb - tail ?lb"
        by (intro u32_diff) simp_all
      with behind(1,3) e show "room t ?lb" by (simp add: room_def)
    qed
  next
    case wrap
    have fz: "fqsz lb = fqsz ?lb" by (simp add: wrap(6))
    have rm: "enough \<longrightarrow> room t lb" using wrap(3,5) by (simp add: wrap(6) room_def)
    have tl: "i32 (int (tail ?lb)) = int (tail ?lb)" if "ring_at s m"
    proof -
      from that have "tail ?lb < size_lb ?lb" "size_lb ?lb < 2 ^ 31"
        unfolding ring_at_def by (rule rinv_bounds)+
      then show ?thesis by (intro i32_id) simp
    qed
    have lst: "last ?ns = nflush (fque ?lb (fend ?lb))"
      unfolding win_last qinvD(5) [OF inv_atD(1) [OF assms(2)], symmetric] ..
    have rw: "rinv (size_lb ?lb) (head ?lb) 0 (int (tail ?lb))
        (if nflush (fque ?lb (fend ?lb)) = 0 then ?ns else ?ns @ [0])" if "ring_at s m"
      using rinv_wrap [of "size_lb ?lb" "head ?lb" "tail ?lb" ?ns] that wrap(2,3)
      unfolding ring_at_def lst by simp
    show ?thesis
    proof (cases "0 < nflush (fque ?lb (fend ?lb))")
      case True
      with assms(3) have S: "Suc m < fqsz ?lb" by simp
      have c: "inv_at (s\<lparr>log_buffer := lb\<rparr>) (Suc m)" "nflush (fque lb (fend lb)) = 0"
        "win (fque lb) (fqsz lb) (fbgn lb) (Suc m) = ?ns @ [0]"
        using True by (intro inv_at_close [OF assms(2) S]; simp add: wrap(6))+
      have "ring_at (s\<lparr>log_buffer := lb\<rparr>) (Suc m)" if "ring_at s m"
        using rw [OF that] True tl [OF that] c(3)
        by (simp add: ring_at_def) (simp add: wrap(6))
      with c(1,2) True rm fz show ?thesis
        by (intro conjI exI [of _ "Suc m"]) simp_all
    next
      case False
      then have c: "inv_at (s\<lparr>log_buffer := lb\<rparr>) m"
        by (intro inv_at_buffer [OF assms(2)]) (simp_all add: wrap(6))
      have "ring_at (s\<lparr>log_buffer := lb\<rparr>) m" if "ring_at s m"
        using rw [OF that] False tl [OF that]
        by (simp add: ring_at_def wrap(6))
      with c False rm fz show ?thesis
        by (intro conjI exI [of _ m]) (simp_all add: wrap(6))
    qed
  qed
qed

lemma buff_find_space_inv:
  assumes "buff_find_space total_length s = Some s'"
    and "inv_at s m"
    and "m \<le> M \<or> m \<le> Suc M \<and> nflush (fque (log_buffer s) (fend (log_buffer s))) = 0"
    and "Suc M < fqsz (log_buffer s)"
  shows "\<exists>m'. inv_at s' m' \<and> m' \<le> Suc M \<and> fqsz (log_buffer s') = fqsz (log_buffer s)
           \<and> (ring_at s m \<longrightarrow> ring_at s' m' \<and> room total_length (log_buffer s'))"
proof -
  let ?P = "\<lambda>(t::nat) s s'. \<forall>m. inv_at s m \<longrightarrow>
      (m \<le> M \<or> m \<le> Suc M \<and> nflush (fque (log_buffer s) (fend (log_buffer s))) = 0) \<longrightarrow>
      Suc M < fqsz (log_buffer s) \<longrightarrow>
      (\<exists>m'. inv_at s' m' \<and> m' \<le> Suc M \<and> fqsz (log_buffer s') = fqsz (log_buffer s)
           \<and> (ring_at s m \<longrightarrow> ring_at s' m' \<and> room t (log_buffer s')))"
  have "?P total_length s s'"
  proof (rule buff_find_space.raw_induct [where P = ?P, OF _ assms(1)])
    fix find t s s'
    assume IH: "\<And>t s s'. find t s = Some s' \<Longrightarrow> ?P t s s'"
      and eq: "(case space_check t (log_buffer s) of None \<Rightarrow> None
        | Some (enough, lb) \<Rightarrow>
            if enough then Some (s\<lparr>log_buffer := lb\<rparr>)
            else (case do_log_buff_flush False (s\<lparr>log_buffer := lb\<rparr>) of
                 None \<Rightarrow> None
               | Some (n, s2) \<Rightarrow> find t s2)) = Some s'"
    show "?P t s s'"
    proof (intro allI impI)
      fix m
      assume inv: "inv_at s m"
        and J: "m \<le> M \<or> m \<le> Suc M \<and> nflush (fque (log_buffer s) (fend (log_buffer s))) = 0"
        and F: "Suc M < fqsz (log_buffer s)"
      from eq obtain enough lb where
        sc: "space_check t (log_buffer s) = Some (enough, lb)"
        by (auto split: option.splits)
      have g: "0 < nflush (fque (log_buffer s) (fend (log_buffer s)))
          \<longrightarrow> Suc m < fqsz (log_buffer s)"
        using J F by auto
      from space_check_inv [OF sc inv g] J
      obtain m1 where m1: "inv_at (s\<lparr>log_buffer := lb\<rparr>) m1"
        "m1 \<le> M \<or> m1 \<le> Suc M \<and> nflush (fque lb (fend lb)) = 0"
        "fqsz lb = fqsz (log_buffer s)"
        "ring_at s m \<longrightarrow> ring_at (s\<lparr>log_buffer := lb\<rparr>) m1 \<and> (enough \<longrightarrow> room t lb)"
        by auto
      show "\<exists>m'. inv_at s' m' \<and> m' \<le> Suc M \<and> fqsz (log_buffer s') = fqsz (log_buffer s)
           \<and> (ring_at s m \<longrightarrow> ring_at s' m' \<and> room t (log_buffer s'))"
      proof (cases enough)
        case True
        with eq sc have "s' = s\<lparr>log_buffer := lb\<rparr>" by simp
        with m1 True show ?thesis by (intro exI [of _ m1]) auto
      next
        case False
        with eq sc obtain n s2 where
          fl: "do_log_buff_flush False (s\<lparr>log_buffer := lb\<rparr>) = Some (n, s2)"
          and rec: "find t s2 = Some s'"
          by (auto split: option.splits)
        from flush_inv [OF fl m1(1)] obtain m2 where m2: "inv_at s2 m2" "m2 \<le> m1"
          "nflush (fque (log_buffer s2) (fend (log_buffer s2))) \<le> nflush (fque lb (fend lb))"
          "ring_at (s\<lparr>log_buffer := lb\<rparr>) m1 \<longrightarrow> ring_at s2 m2"
          by auto
        have fq: "fqsz (log_buffer s2) = fqsz (log_buffer s)"
          using do_log_buff_flush_frame [OF fl] m1(3) by simp
        have J2: "m2 \<le> M \<or> m2 \<le> Suc M
            \<and> nflush (fque (log_buffer s2) (fend (log_buffer s2))) = 0"
          using m1(2) m2(2,3) by auto
        from IH [OF rec, rule_format, OF m2(1) J2] F fq
        obtain m' where "inv_at s' m'" "m' \<le> Suc M"
          "fqsz (log_buffer s') = fqsz (log_buffer s)"
          "ring_at s2 m2 \<longrightarrow> ring_at s' m' \<and> room t (log_buffer s')"
          by auto
        with m1(4) m2(4) show ?thesis by (intro exI [of _ m']) auto
      qed
    qed
  qed
  with assms(2,3,4) show ?thesis by blast
qed

lemma buff_place_inv:
  assumes "inv_at s m" "Suc m < fqsz (log_buffer s)"
  shows "\<exists>m'. inv_at (s\<lparr>log_buffer := buff_place logrec t dual (log_buffer s)\<rparr>) m'
           \<and> m \<le> m' \<and> m' \<le> Suc m
           \<and> (win (fque (log_buffer s)) (fqsz (log_buffer s)) (fbgn (log_buffer s)) m' =
                 win (fque (log_buffer s)) (fqsz (log_buffer s)) (fbgn (log_buffer s)) m
               \<or> win (fque (log_buffer s)) (fqsz (log_buffer s)) (fbgn (log_buffer s)) m' =
                 win (fque (log_buffer s)) (fqsz (log_buffer s)) (fbgn (log_buffer s)) m @ [0])"
proof (cases "nflush (fque (log_buffer s) (fend (log_buffer s))) > 0
    \<and> dual_write (fque (log_buffer s) (fend (log_buffer s))) \<noteq> dual")
  case True
  let ?lb = "buff_place logrec t dual (log_buffer s)"
  have "inv_at (s\<lparr>log_buffer := ?lb\<rparr>) (Suc m)"
    "win (fque ?lb) (fqsz ?lb) (fbgn ?lb) (Suc m)
       = win (fque (log_buffer s)) (fqsz (log_buffer s)) (fbgn (log_buffer s)) m @ [0]"
    using True by (intro inv_at_close [OF assms]; simp add: buff_place_def)+
  then show ?thesis by (intro exI [of _ "Suc m"]) (simp add: buff_place_def)
next
  case False
  then have "inv_at (s\<lparr>log_buffer := buff_place logrec t dual (log_buffer s)\<rparr>) m"
    by (intro inv_at_buffer [OF assms(1)]) (auto simp: buff_place_def)
  then show ?thesis by (intro exI [of _ m]) simp
qed

lemma u16_id: "n < 65536 \<Longrightarrow> u16 (int n) = n"
  by (simp add: u16_def nat_mod_distrib)

lemma fque_put_small:
  assumes "nflush (fque lb (fend lb)) + t < CMDLOG_FLUSH_AUTO_SIZE"
  shows "fst (fque_put t dual lb) = t"
    "fque (snd (fque_put t dual lb)) =
       (fque lb)(fend lb := \<lparr>nflush = nflush (fque lb (fend lb)) + t, dual_write = dual\<rparr>)"
    "fend (snd (fque_put t dual lb)) = fend lb"
proof -
  let ?x = "nflush (fque lb (fend lb))"
  have sp: "u32 (int CMDLOG_FLUSH_AUTO_SIZE - int ?x) = CMDLOG_FLUSH_AUTO_SIZE - ?x"
    using assms by (intro u32_diff) (simp_all add: CMDLOG_FLUSH_AUTO_SIZE_def)
  have le: "t \<le> CMDLOG_FLUSH_AUTO_SIZE - ?x" using assms by simp
  have n: "u16 (int ?x + int t) = ?x + t"
    using assms u16_id [of "?x + t"] by (simp add: CMDLOG_FLUSH_AUTO_SIZE_def)
  show "fst (fque_put t dual lb) = t"
    unfolding fque_put_def Let_def sp using le by simp
  show "fque (snd (fque_put t dual lb)) =
       (fque lb)(fend lb := \<lparr>nflush = ?x + t, dual_write = dual\<rparr>)"
    unfolding fque_put_def Let_def sp using le assms by (simp add: n)
  show "fend (snd (fque_put t dual lb)) = fend lb"
    unfolding fque_put_def Let_def sp using le assms by (simp add: n)
qed

lemma fque_put_full:
  assumes "nflush (fque lb (fend lb)) < CMDLOG_FLUSH_AUTO_SIZE"
    "\<not> nflush (fque lb (fend lb)) + t < CMDLOG_FLUSH_AUTO_SIZE"
  shows "fst (fque_put t dual lb) = CMDLOG_FLUSH_AUTO_SIZE - nflush (fque lb (fend lb))"
    "fque (snd (fque_put t dual lb)) =
       (fque lb)(fend lb := \<lparr>nflush = CMDLOG_FLUSH_AUTO_SIZE, dual_write = dual\<rparr>)"
    "fend (snd (fque_put t dual lb)) = fq_next (fend lb) (fqsz lb)"
proof -
  let ?x = "nflush (fque lb (fend lb))"
  have sp: "u32 (int CMDLOG_FLUSH_AUTO_SIZE - int ?x) = CMDLOG_FLUSH_AUTO_SIZE - ?x"
    using assms by (intro u32_diff) (simp_all add: CMDLOG_FLUSH_AUTO_SIZE_def)
  have le: "CMDLOG_FLUSH_AUTO_SIZE - ?x \<le> t" using assms by simp
  have "u16 (int (?x + (CMDLOG_FLUSH_AUTO_SIZE - ?x))) = ?x + (CMDLOG_FLUSH_AUTO_SIZE - ?x)"
    using assms(1) by (intro u16_id) (simp add: CMDLOG_FLUSH_AUTO_SIZE_def)
  then have n: "u16 (int ?x + int (CMDLOG_FLUSH_AUTO_SIZE - ?x)) = CMDLOG_FLUSH_AUTO_SIZE"
    using assms(1) by simp
  show "fst (fque_put t dual lb) = CMDLOG_FLUSH_AUTO_SIZE - ?x"
    unfolding fque_put_def Let_def sp using le by simp
  show "fque (snd (fque_put t dual lb)) =
       (fque lb)(fend lb := \<lparr>nflush = CMDLOG_FLUSH_AUTO_SIZE, dual_write = dual\<rparr>)"
    unfolding fque_put_def Let_def sp using le by (auto simp: n)
  show "fend (snd (fque_put t dual lb)) = fq_next (fend lb) (fqsz lb)"
    unfolding fque_put_def Let_def sp using le by (auto simp: n)
qed

lemma fque_append_inv:
  assumes "fque_append total_length dual lb = Some lb'"
    and "qinv (fque lb) (fqsz lb) (fbgn lb) (fend lb) m"
    and "total_length < 2 ^ 32"
    and "m + (nflush (fque lb (fend lb)) + total_length) div CMDLOG_FLUSH_AUTO_SIZE < fqsz lb"
  shows "qinv (fque lb') (fqsz lb) (fbgn lb) (fend lb')
           (m + (nflush (fque lb (fend lb)) + total_length) div CMDLOG_FLUSH_AUTO_SIZE)
       \<and> win (fque lb') (fqsz lb) (fbgn lb)
           (m + (nflush (fque lb (fend lb)) + total_length) div CMDLOG_FLUSH_AUTO_SIZE)
         = add_bytes total_length (win (fque lb) (fqsz lb) (fbgn lb) m)
       \<and> (\<forall>j. fque lb' j = fque lb j
              \<or> dual_write (fque lb' j) = dual
                \<and> (j = fend lb \<or> nflush (fque lb j) = 0))"
proof -
  let ?A = "CMDLOG_FLUSH_AUTO_SIZE"
  let ?P = "\<lambda>(t::nat) (d::bool) lb lb'. \<forall>m.
      qinv (fque lb) (fqsz lb) (fbgn lb) (fend lb) m \<longrightarrow> t < 2 ^ 32 \<longrightarrow>
      m + (nflush (fque lb (fend lb)) + t) div ?A < fqsz lb \<longrightarrow>
      qinv (fque lb') (fqsz lb) (fbgn lb) (fend lb') (m + (nflush (fque lb (fend lb)) + t) div ?A)
       \<and> win (fque lb') (fqsz lb) (fbgn lb) (m + (nflush (fque lb (fend lb)) + t) div ?A)
         = add_bytes t (win (fque lb) (fqsz lb) (fbgn lb) m)
       \<and> (\<forall>j. fque lb' j = fque lb j
              \<or> dual_write (fque lb' j) = d \<and> (j = fend lb \<or> nflush (fque lb j) = 0))"
  have "?P total_length dual lb lb'"
  proof (rule fque_append.raw_induct [where P = ?P, OF _ assms(1)])
    fix app t d lb lb'
    assume IH: "\<And>t d lb lb'. app t d lb = Some lb' \<Longrightarrow> ?P t d lb lb'"
      and eq: "(if 0 < t
                then app (u32 (int t - int (fst (fque_put t d lb)))) d (snd (fque_put t d lb))
                else Some lb) = Some lb'"
    show "?P t d lb lb'"
    proof (intro allI impI)
      fix m
      let ?x = "nflush (fque lb (fend lb))"
      let ?ns = "win (fque lb) (fqsz lb) (fbgn lb) m"
      assume q: "qinv (fque lb) (fqsz lb) (fbgn lb) (fend lb) m"
        and t: "t < 2 ^ 32"
        and F: "m + (?x + t) div ?A < fqsz lb"
      note dd = qinvD [OF q]
      have lst: "last ?ns = ?x" unfolding win_last dd(5) [symmetric] ..
      have ne: "?ns \<noteq> []" using win_length [of "fque lb" "fqsz lb" "fbgn lb" m]
        by (metis length_0_conv nat.simps(3))
      show "qinv (fque lb') (fqsz lb) (fbgn lb) (fend lb') (m + (?x + t) div ?A)
       \<and> win (fque lb') (fqsz lb) (fbgn lb) (m + (?x + t) div ?A) = add_bytes t ?ns
       \<and> (\<forall>j. fque lb' j = fque lb j
              \<or> dual_write (fque lb' j) = d \<and> (j = fend lb \<or> nflush (fque lb j) = 0))"
      proof (cases "0 < t")
        case False
        with eq have "lb' = lb" by simp
        with False q dd(9) show ?thesis by simp
      next
        case True
        with eq have rec:
          "app (u32 (int t - int (fst (fque_put t d lb)))) d (snd (fque_put t d lb)) = Some lb'"
          by simp
        note ih = IH [OF rec, rule_format]
        let ?lb1 = "snd (fque_put t d lb)"
        show ?thesis
        proof (cases "?x + t < ?A")
          case small: True
          note p = fque_put_small [OF small, of d]
          have q1: "qinv (fque ?lb1) (fqsz lb) (fbgn lb) (fend lb) m"
            and w1: "win (fque ?lb1) (fqsz lb) (fbgn lb) m = butlast ?ns @ [?x + t]"
            unfolding p(2) using qinv_put [OF q, of "\<lparr>nflush = ?x + t, dual_write = d\<rparr>"] small
            by simp_all
          have t0: "u32 (int t - int (fst (fque_put t d lb))) = 0"
            unfolding p(1) by (simp add: u32_def)
          have dv: "(?x + t) div ?A = 0" using small by simp
          have x1: "nflush (fque ?lb1 (fend ?lb1)) = ?x + t"
            and x2: "nflush (fque ?lb1 (fend lb)) = ?x + t"
            unfolding p(2,3) by simp_all
          have "qinv (fque lb') (fqsz ?lb1) (fbgn ?lb1) (fend lb')
                 (m + (nflush (fque ?lb1 (fend ?lb1)) + 0) div ?A)
              \<and> win (fque lb') (fqsz ?lb1) (fbgn ?lb1)
                  (m + (nflush (fque ?lb1 (fend ?lb1)) + 0) div ?A)
                = add_bytes 0 (win (fque ?lb1) (fqsz ?lb1) (fbgn ?lb1) m)
              \<and> (\<forall>j. fque lb' j = fque ?lb1 j
                     \<or> dual_write (fque lb' j) = d
                       \<and> (j = fend ?lb1 \<or> nflush (fque ?lb1 j) = 0))"
            using q1 F
            by (intro ih [unfolded t0]) (simp_all add: p(3) x2 dv)
          note H = this
          have r: "qinv (fque lb') (fqsz lb) (fbgn lb) (fend lb') m"
            "win (fque lb') (fqsz lb) (fbgn lb) m = butlast ?ns @ [?x + t]"
            using H [THEN conjunct1] H [THEN conjunct2, THEN conjunct1]
            by (simp_all add: p(3) x2 dv w1)
          have r3: "fque lb' j = fque ?lb1 j
                     \<or> dual_write (fque lb' j) = d
                       \<and> (j = fend lb \<or> nflush (fque ?lb1 j) = 0)" for j
            using H [THEN conjunct2, THEN conjunct2, rule_format, of j]
            unfolding p(3) .
          have fl: "fque lb' j = fque lb j
              \<or> dual_write (fque lb' j) = d \<and> (j = fend lb \<or> nflush (fque lb j) = 0)" for j
          proof (cases "j = fend lb")
            case True
            have dj: "dual_write (fque ?lb1 j) = d" unfolding p(2) True by simp
            from r3 [of j] have "dual_write (fque lb' j) = d"
            proof
              assume "fque lb' j = fque ?lb1 j"
              with dj show ?thesis by (simp only:)
            next
              assume "dual_write (fque lb' j) = d \<and> (j = fend lb \<or> nflush (fque ?lb1 j) = 0)"
              then show ?thesis ..
            qed
            with True show ?thesis by blast
          next
            case False
            have e: "fque ?lb1 j = fque lb j" unfolding p(2) using False by simp
            from r3 [of j] show ?thesis
            proof
              assume "fque lb' j = fque ?lb1 j"
              then have "fque lb' j = fque lb j" unfolding e .
              then show ?thesis ..
            next
              assume b: "dual_write (fque lb' j) = d
                  \<and> (j = fend lb \<or> nflush (fque ?lb1 j) = 0)"
              with False have "nflush (fque lb j) = 0" unfolding e by blast
              with b show ?thesis by blast
            qed
          qed
          have ab: "add_bytes t ?ns = butlast ?ns @ [?x + t]"
            using True small lst ne by (simp add: add_bytes.simps [of t ?ns])
          have mm: "m + (?x + t) div ?A = m" using dv by simp
          show ?thesis
            unfolding mm ab
            by (intro conjI allI) (rule r(1), rule r(2), rule fl)
        next
          case big: False
          note p = fque_put_full [OF dd(9) big, of d]
          have dv: "(?x + t) div ?A = Suc ((t - (?A - ?x)) div ?A)"
          proof -
            have "?x + t = (t - (?A - ?x)) + ?A" using big dd(9) by simp
            then show ?thesis by (simp add: CMDLOG_FLUSH_AUTO_SIZE_def)
          qed
          have S: "Suc m < fqsz lb" using F dv by simp
          have q1: "qinv (fque ?lb1) (fqsz lb) (fbgn lb) (fend ?lb1) (Suc m)"
            and w1: "win (fque ?lb1) (fqsz lb) (fbgn lb) (Suc m) = butlast ?ns @ [?A, 0]"
            unfolding p(2,3)
            using qinv_put_full [OF q, of "\<lparr>nflush = ?A, dual_write = d\<rparr>"] S
            by simp_all
          have t1: "u32 (int t - int (fst (fque_put t d lb))) = t - (?A - ?x)"
            unfolding p(1) using big t by (intro u32_diff) simp_all
          have x1: "nflush (fque ?lb1 (fend ?lb1)) = 0"
            using qinvD(5) [OF q1] w1 win_last [of "fque ?lb1" "fqsz lb" "fbgn lb" "Suc m"]
            by simp
          have "qinv (fque lb') (fqsz ?lb1) (fbgn ?lb1) (fend lb')
                 (Suc m + (nflush (fque ?lb1 (fend ?lb1)) + (t - (?A - ?x))) div ?A)
              \<and> win (fque lb') (fqsz ?lb1) (fbgn ?lb1)
                  (Suc m + (nflush (fque ?lb1 (fend ?lb1)) + (t - (?A - ?x))) div ?A)
                = add_bytes (t - (?A - ?x)) (win (fque ?lb1) (fqsz ?lb1) (fbgn ?lb1) (Suc m))
              \<and> (\<forall>j. fque lb' j = fque ?lb1 j
                     \<or> dual_write (fque lb' j) = d
                       \<and> (j = fend ?lb1 \<or> nflush (fque ?lb1 j) = 0))"
            using q1 F t
            by (intro ih [unfolded t1]) (simp_all add: x1 dv)
          note H = this
          have r: "qinv (fque lb') (fqsz lb) (fbgn lb) (fend lb') (m + (?x + t) div ?A)"
            "win (fque lb') (fqsz lb) (fbgn lb) (m + (?x + t) div ?A)
               = add_bytes (t - (?A - ?x)) (butlast ?ns @ [?A, 0])"
            using H [THEN conjunct1] H [THEN conjunct2, THEN conjunct1]
            by (simp_all add: x1 dv w1)
          have r3: "fque lb' j = fque ?lb1 j
                     \<or> dual_write (fque lb' j) = d
                       \<and> (j = fend ?lb1 \<or> nflush (fque ?lb1 j) = 0)" for j
            using H [THEN conjunct2, THEN conjunct2, rule_format, of j] .
          have fl: "fque lb' j = fque lb j
              \<or> dual_write (fque lb' j) = d \<and> (j = fend lb \<or> nflush (fque lb j) = 0)" for j
          proof (cases "j = fend lb")
            case True
            have dj: "dual_write (fque ?lb1 j) = d" unfolding p(2) True by simp
            from r3 [of j] have "dual_write (fque lb' j) = d"
            proof
              assume "fque lb' j = fque ?lb1 j"
              with dj show ?thesis by (simp only:)
            next
              assume "dual_write (fque lb' j) = d
                  \<and> (j = fend ?lb1 \<or> nflush (fque ?lb1 j) = 0)"
              then show ?thesis ..
            qed
            with True show ?thesis by blast
          next
            case False
            have e: "fque ?lb1 j = fque lb j" unfolding p(2) using False by simp
            have z: "nflush (fque ?lb1 j) = 0" if "j = fend ?lb1"
              using x1 that by simp
            from r3 [of j] show ?thesis
            proof
              assume "fque lb' j = fque ?lb1 j"
              then have "fque lb' j = fque lb j" unfolding e .
              then show ?thesis ..
            next
              assume b: "dual_write (fque lb' j) = d
                  \<and> (j = fend ?lb1 \<or> nflush (fque ?lb1 j) = 0)"
              with z have "nflush (fque ?lb1 j) = 0" by blast
              then have "nflush (fque lb j) = 0" unfolding e .
              with b show ?thesis by blast
            qed
          qed
          have ab: "add_bytes t ?ns = add_bytes (t - (?A - ?x)) (butlast ?ns @ [?A, 0])"
            using True big lst ne dd(9) by (simp add: add_bytes.simps [of t ?ns])
          show ?thesis
            unfolding ab
            by (intro conjI allI) (rule r(1), rule r(2), rule fl)
        qed
      qed
    qed
  qed
  from this [rule_format, OF assms(2,3,4)] show ?thesis .
qed

lemma inv_at_qlen: "inv_at s m \<Longrightarrow> qlen (log_buffer s) = m"
  unfolding qlen_def by (rule qinv_qlen) (rule inv_atD(1))

lemma total_length_lt: "total_length_of logrec < 2 ^ 32"
  by (simp add: total_length_of_def u32_def)

lemma write_inv:
  assumes "do_log_buff_write logrec waiter dual s = Some (w, s')" "inv_at s m"
    "m + total_length_of logrec div CMDLOG_FLUSH_AUTO_SIZE + 3 < fqsz (log_buffer s)"
    "roffset (nxt_write_lsn s) + total_length_of logrec < 2 ^ 64"
  shows "\<exists>s1 m1 m2 m'. buff_find_space (total_length_of logrec) s = Some s1
      \<and> inv_at s1 m1
      \<and> inv_at (s1\<lparr>log_buffer :=
                    buff_place logrec (total_length_of logrec) dual (log_buffer s1)\<rparr>) m2
      \<and> (win (fque (log_buffer s1)) (fqsz (log_buffer s1)) (fbgn (log_buffer s1)) m2 =
             win (fque (log_buffer s1)) (fqsz (log_buffer s1)) (fbgn (log_buffer s1)) m1
           \<or> win (fque (log_buffer s1)) (fqsz (log_buffer s1)) (fbgn (log_buffer s1)) m2 =
             win (fque (log_buffer s1)) (fqsz (log_buffer s1)) (fbgn (log_buffer s1)) m1 @ [0])
      \<and> fque_append (total_length_of logrec) dual
            (buff_place logrec (total_length_of logrec) dual (log_buffer s1))
          = Some (log_buffer s')
      \<and> inv_at s' m'
      \<and> win (fque (log_buffer s')) (fqsz (log_buffer s')) (fbgn (log_buffer s')) m'
          = add_bytes (total_length_of logrec)
              (win (fque (log_buffer s1)) (fqsz (log_buffer s1)) (fbgn (log_buffer s1)) m2)
      \<and> (ring_at s m \<longrightarrow>
            ring_at s1 m1 \<and> room (total_length_of logrec) (log_buffer s1) \<and> ring_at s' m')"
proof -
  let ?t = "total_length_of logrec"
  let ?A = "CMDLOG_FLUSH_AUTO_SIZE"
  from assms(1) obtain s1 lb where
    fs: "buff_find_space ?t s = Some s1"
    and ap: "fque_append ?t dual (buff_place logrec ?t dual (log_buffer s1)) = Some lb"
    and s': "s' = s1\<lparr>log_buffer := lb, nxt_write_lsn := add_roffset ?t (nxt_write_lsn s1)\<rparr>"
    by (auto simp: do_log_buff_write_def Let_def split: if_splits option.splits)
  have F: "Suc m < fqsz (log_buffer s)" using assms(3) by simp
  from buff_find_space_inv [OF fs assms(2) _ F]
  obtain m1 where m1: "inv_at s1 m1" "m1 \<le> Suc m" "fqsz (log_buffer s1) = fqsz (log_buffer s)"
    "ring_at s m \<longrightarrow> ring_at s1 m1 \<and> room ?t (log_buffer s1)"
    by auto
  have wl: "nxt_write_lsn s1 = nxt_write_lsn s"
    using buff_find_space_frame [OF fs] by simp
  let ?lb1 = "log_buffer s1"
  let ?lb2 = "buff_place logrec ?t dual ?lb1"
  let ?s2 = "s1\<lparr>log_buffer := ?lb2\<rparr>"
  have "Suc m1 < fqsz ?lb1" using m1(2,3) assms(3) by simp
  from buff_place_inv [OF m1(1) this, of logrec ?t dual]
  obtain m2 where m2: "inv_at ?s2 m2" "m2 \<le> Suc m1"
    "win (fque ?lb1) (fqsz ?lb1) (fbgn ?lb1) m2 = win (fque ?lb1) (fqsz ?lb1) (fbgn ?lb1) m1
     \<or> win (fque ?lb1) (fqsz ?lb1) (fbgn ?lb1) m2
         = win (fque ?lb1) (fqsz ?lb1) (fbgn ?lb1) m1 @ [0]"
    by auto
  have z2: "fqsz ?lb2 = fqsz (log_buffer s)" using m1(3) by (simp add: buff_place_def)
  have e2: "fque ?lb2 = fque ?lb1" "fqsz ?lb2 = fqsz ?lb1" "fbgn ?lb2 = fbgn ?lb1"
    "head ?lb2 = head ?lb1" "last_lb ?lb2 = last_lb ?lb1" "size_lb ?lb2 = size_lb ?lb1"
    "tail ?lb2 = u32 (int (tail ?lb1) + int ?t)"
    by (simp_all add: buff_place_def)
  have q2: "qinv (fque ?lb2) (fqsz ?lb2) (fbgn ?lb2) (fend ?lb2) m2"
    and l2: "lsn_rel (nxt_write_lsn s) (nxt_flush_lsn s1) (nxt_fsync_lsn s1) (dw_end ?lb2)
          (fqsz ?lb2) (fbgn ?lb2) m2 (win (fque ?lb2) (fqsz ?lb2) (fbgn ?lb2) m2)"
    using inv_atD [OF m2(1)] wl by simp_all
  let ?x = "nflush (fque ?lb2 (fend ?lb2))"
  let ?ns = "win (fque ?lb2) (fqsz ?lb2) (fbgn ?lb2) m2"
  have x: "?x < ?A" using qinvD(9) [OF q2] .
  have "(?x + ?t) div ?A \<le> Suc (?t div ?A)"
  proof -
    have "(?x + ?t) div ?A \<le> (?A + ?t) div ?A"
      using x by (intro div_le_mono) simp
    then show ?thesis by (simp add: CMDLOG_FLUSH_AUTO_SIZE_def)
  qed
  then have bound: "m2 + (?x + ?t) div ?A < fqsz ?lb2"
    using m2(2) m1(2) assms(3) z2 by simp
  note a = fque_append_inv [OF ap q2 total_length_lt bound]
  note fr = fque_append_frame [OF ap]
  have lst: "last ?ns = ?x" unfolding win_last qinvD(5) [OF q2, symmetric] ..
  have ne: "?ns \<noteq> []" using win_length [of "fque ?lb2" "fqsz ?lb2" "fbgn ?lb2" m2]
    by (metis length_0_conv nat.simps(3))
  from add_bytes_shape [OF ne, of ?t] x lst
  obtain ys where ys: "add_bytes ?t ?ns = butlast ?ns @ ys" "ys \<noteq> []"
    "sum_list ys = last ?ns + ?t" "length ys = Suc ((?x + ?t) div ?A)"
    by auto
  have "lsn_rel (add_roffset ?t (nxt_write_lsn s)) (nxt_flush_lsn s1) (nxt_fsync_lsn s1)
      (dw_end ?lb2) (fqsz ?lb2) (fbgn ?lb2) (m2 + length ys - 1) (butlast ?ns @ ys)"
    using l2 ys(2,3) assms(4) by (intro lsn_rel_add) simp_all
  then have l3: "lsn_rel (add_roffset ?t (nxt_write_lsn s)) (nxt_flush_lsn s1) (nxt_fsync_lsn s1)
      (dw_end ?lb2) (fqsz ?lb2) (fbgn ?lb2) (m2 + (?x + ?t) div ?A) (add_bytes ?t ?ns)"
    unfolding ys(1) ys(4) by simp
  let ?m' = "m2 + (?x + ?t) div ?A"
  have i': "inv_at s' ?m'"
    unfolding inv_at_def s' using a l3 fr wl by simp
  have w': "win (fque (log_buffer s')) (fqsz (log_buffer s')) (fbgn (log_buffer s')) ?m'
      = add_bytes ?t (win (fque ?lb1) (fqsz ?lb1) (fbgn ?lb1) m2)"
    using a fr by (simp add: s' e2)
  have r': "ring_at s' ?m'" if r1: "ring_at s1 m1" and rm: "room ?t ?lb1"
  proof -
    have r0: "rinv (size_lb ?lb1) (head ?lb1) (tail ?lb1) (last_lb ?lb1)
        (win (fque ?lb1) (fqsz ?lb1) (fbgn ?lb1) m1)"
      using r1 by (simp add: ring_at_def)
    have r2: "rinv (size_lb ?lb1) (head ?lb1) (tail ?lb1) (last_lb ?lb1)
        (win (fque ?lb1) (fqsz ?lb1) (fbgn ?lb1) m2)"
      using m2(3) r0 rinv_snoc0 [OF r0] by auto
    note b = rinv_bounds [OF r0]
    have "tail ?lb1 + ?t < 2 ^ 32"
      using rm b(1,5,6) by (auto simp: room_def split: if_splits)
    then have tl: "u32 (int (tail ?lb1) + int ?t) = tail ?lb1 + ?t" by (rule u32_add)
    have "rinv (size_lb ?lb1) (head ?lb1) (tail ?lb1 + ?t) (last_lb ?lb1)
        (add_bytes ?t (win (fque ?lb1) (fqsz ?lb1) (fbgn ?lb1) m2))"
      using r2 x lst rm unfolding e2 room_def by (intro rinv_add) simp_all
    then show ?thesis
      unfolding ring_at_def w' using fr by (simp add: s' e2 tl)
  qed
  show ?thesis
    using fs m1(1,4) m2(1,3) ap i' w' r' s'
    by (intro exI [of _ s1] exI [of _ m1] exI [of _ m2] exI [of _ ?m']) auto
qed

lemma qinv_nflush_cong:
  assumes "\<And>j. nflush (q' j) = nflush (q j)"
  shows "qinv q' F b e m = qinv q F b e m" "win q' F b m = win q F b m"
  by (simp_all add: qinv_def win_def assms)

lemma reset_dual_write_frame:
  assumes "reset_dual_write index lb = Some lb'"
  shows "(\<forall>j. nflush (fque lb' j) = nflush (fque lb j)) \<and> fqsz lb' = fqsz lb \<and>
     fbgn lb' = fbgn lb \<and> fend lb' = fend lb \<and> dw_end lb' = dw_end lb \<and>
     data lb' = data lb \<and> size_lb lb' = size_lb lb \<and> head lb' = head lb \<and>
     tail lb' = tail lb \<and> last_lb lb' = last_lb lb"
proof -
  let ?P = "\<lambda>(i::nat) lb lb'.
     (\<forall>j. nflush (fque lb' j) = nflush (fque lb j)) \<and> fqsz lb' = fqsz lb \<and>
     fbgn lb' = fbgn lb \<and> fend lb' = fend lb \<and> dw_end lb' = dw_end lb \<and>
     data lb' = data lb \<and> size_lb lb' = size_lb lb \<and> head lb' = head lb \<and>
     tail lb' = tail lb \<and> last_lb lb' = last_lb lb"
  show ?thesis
  proof (rule reset_dual_write.raw_induct [where P = ?P, OF _ assms])
    fix reset i lb lb'
    assume IH: "\<And>i lb lb'. reset i lb = Some lb' \<Longrightarrow> ?P i lb lb'"
      and eq: "(if 0 < nflush (fque lb i)
                then reset (fq_next i (fqsz lb))
                  (if dual_write (fque lb i)
                   then lb\<lparr>fque := (fque lb)(i := (fque lb i)\<lparr>dual_write := False\<rparr>)\<rparr>
                   else lb)
                else Some lb) = Some lb'"
    show "?P i lb lb'"
    proof (cases "0 < nflush (fque lb i)")
      case True
      with eq have "reset (fq_next i (fqsz lb))
                  (if dual_write (fque lb i)
                   then lb\<lparr>fque := (fque lb)(i := (fque lb i)\<lparr>dual_write := False\<rparr>)\<rparr>
                   else lb) = Some lb'" by simp
      from IH [OF this] show ?thesis by (auto split: if_splits)
    next
      case False
      with eq show ?thesis by simp
    qed
  qed
qed

lemma complete_dual_write_inv:
  assumes "cmdlog_complete_dual_write success s = Some s'" "inv_at s m"
    "\<not> success \<or> fd (next_fs (log_file s)) = -1
      \<or> (m + 1 < fqsz (log_buffer s) \<and> filenum (nxt_write_lsn s) + 1 < 2 ^ 32)"
  shows "\<exists>m'. inv_at s' m' \<and> (ring_at s m \<longrightarrow> ring_at s' m')"
proof (cases "fd (next_fs (log_file s)) = -1")
  case True
  with assms(1) have "s' = s" by (simp add: cmdlog_complete_dual_write_def Let_def)
  with assms(2) show ?thesis by blast
next
  case nf: False
  show ?thesis
  proof (cases success)
    case False
    with nf assms(1) obtain lb1 where
      rs: "reset_dual_write (fbgn (log_buffer s)) (log_buffer s) = Some lb1"
      and lb': "log_buffer s' = lb1" "nxt_write_lsn s' = nxt_write_lsn s"
        "nxt_flush_lsn s' = nxt_flush_lsn s" "nxt_fsync_lsn s' = nxt_fsync_lsn s"
      by (auto simp: cmdlog_complete_dual_write_def Let_def split: option.splits)
    note fr = reset_dual_write_frame [OF rs]
    have c: "qinv (fque lb1) F b e k = qinv (fque (log_buffer s)) F b e k"
      "win (fque lb1) F b k = win (fque (log_buffer s)) F b k" for F b e k
      using fr by (simp_all add: qinv_nflush_cong [of "fque lb1" "fque (log_buffer s)"])
    have "inv_at s' m"
      unfolding inv_at_def lb' c using inv_atD [OF assms(2)] fr by simp
    moreover have "ring_at s m \<longrightarrow> ring_at s' m"
      unfolding ring_at_def lb' c using fr by simp
    ultimately show ?thesis by blast
  next
    case True
    with nf assms(3) have g: "Suc m < fqsz (log_buffer s)"
      "filenum (nxt_write_lsn s) + 1 < 2 ^ 32"
      by simp_all
    let ?lb = "log_buffer s"
    let ?lb1 = "if nflush (fque ?lb (fend ?lb)) > 0
                then ?lb\<lparr>fend := fq_next (fend ?lb) (fqsz ?lb)\<rparr> else ?lb"
    from True nf assms(1) have dw: "dw_end ?lb = -1"
      and lb': "log_buffer s' = ?lb1\<lparr>dw_end := i32 (int (fend ?lb1))\<rparr>"
        "nxt_write_lsn s' = bump_filenum (nxt_write_lsn s)"
        "nxt_flush_lsn s' = nxt_flush_lsn s" "nxt_fsync_lsn s' = nxt_fsync_lsn s"
      by (auto simp: cmdlog_complete_dual_write_def Let_def split: if_splits)
    have "\<exists>k. inv_at (s\<lparr>log_buffer := ?lb1\<rparr>) k \<and> nflush (fque ?lb1 (fend ?lb1)) = 0
        \<and> (ring_at s m \<longrightarrow> ring_at (s\<lparr>log_buffer := ?lb1\<rparr>) k)"
    proof (cases "nflush (fque ?lb (fend ?lb)) > 0")
      case True
      have c: "inv_at (s\<lparr>log_buffer := ?lb1\<rparr>) (Suc m)" "nflush (fque ?lb1 (fend ?lb1)) = 0"
        "win (fque ?lb1) (fqsz ?lb1) (fbgn ?lb1) (Suc m)
           = win (fque ?lb) (fqsz ?lb) (fbgn ?lb) m @ [0]"
        using True by (intro inv_at_close [OF assms(2) g(1)]; simp)+
      have "ring_at (s\<lparr>log_buffer := ?lb1\<rparr>) (Suc m)" if "ring_at s m"
        using rinv_snoc0 [OF that [unfolded ring_at_def]] c(3) True
        by (simp add: ring_at_def)
      with c(1,2) show ?thesis by blast
    next
      case False
      then have "inv_at (s\<lparr>log_buffer := ?lb1\<rparr>) m"
        by (intro inv_at_buffer [OF assms(2)]) simp_all
      moreover have "ring_at s m \<longrightarrow> ring_at (s\<lparr>log_buffer := ?lb1\<rparr>) m"
        using False by (simp add: ring_at_def)
      ultimately show ?thesis using False by auto
    qed
    then obtain k where k: "inv_at (s\<lparr>log_buffer := ?lb1\<rparr>) k"
      "nflush (fque ?lb1 (fend ?lb1)) = 0"
      "ring_at s m \<longrightarrow> ring_at (s\<lparr>log_buffer := ?lb1\<rparr>) k" by blast
    have q: "qinv (fque ?lb1) (fqsz ?lb1) (fbgn ?lb1) (fend ?lb1) k"
      and l: "lsn_rel (nxt_write_lsn s) (nxt_flush_lsn s) (nxt_fsync_lsn s) (dw_end ?lb1)
          (fqsz ?lb1) (fbgn ?lb1) k (win (fque ?lb1) (fqsz ?lb1) (fbgn ?lb1) k)"
      using inv_atD [OF k(1)] by simp_all
    note d = qinvD [OF q]
    have dw1: "dw_end ?lb1 = -1" using dw by simp
    have "fend ?lb1 < fqsz ?lb1" unfolding d(5) using d(1) by simp
    then have fe: "i32 (int (fend ?lb1)) = int (slot_at (fqsz ?lb1) (fbgn ?lb1) k)"
      using d(2) d(5) i32_id [of "fend ?lb1"] by simp
    have lst: "last (win (fque ?lb1) (fqsz ?lb1) (fbgn ?lb1) k) = 0"
      unfolding win_last d(5) [symmetric] by (fact k(2))
    have lr: "lsn_rel (bump_filenum (nxt_write_lsn s)) (nxt_flush_lsn s) (nxt_fsync_lsn s)
        (int (slot_at (fqsz ?lb1) (fbgn ?lb1) k)) (fqsz ?lb1) (fbgn ?lb1) k
        (win (fque ?lb1) (fqsz ?lb1) (fbgn ?lb1) k)"
      using l [unfolded dw1] lst g(2) by (intro lsn_rel_rotate) simp_all
    have "inv_at s' k"
      unfolding inv_at_def lb' fe using q lr by simp
    moreover have "ring_at s m \<longrightarrow> ring_at s' k"
      using k(3) unfolding ring_at_def lb' by simp
    ultimately show ?thesis by blast
  qed
qed

lemma log_file_sync_frame:
  assumes "log_file_sync s = Some s'"
  shows "log_buffer s' = log_buffer s" "nxt_write_lsn s' = nxt_write_lsn s"
    "nxt_flush_lsn s' = nxt_flush_lsn s" "nxt_fsync_lsn s' = nxt_flush_lsn s"
proof -
  have "fd (curr (log_file s)) \<noteq> -1"
    using assms by (auto simp: log_file_sync_def Let_def)
  with assms obtain lf e where "s' = s\<lparr>log_file := lf, nxt_fsync_lsn := nxt_flush_lsn s, os := e\<rparr>"
    unfolding log_file_sync_def Let_def by (metis option.inject)
  then show "log_buffer s' = log_buffer s" "nxt_write_lsn s' = nxt_write_lsn s"
    "nxt_flush_lsn s' = nxt_flush_lsn s" "nxt_fsync_lsn s' = nxt_flush_lsn s"
    by simp_all
qed

lemma log_file_sync_inv:
  assumes "log_file_sync s = Some s'" "inv_at s m"
  shows "inv_at s' m" "ring_at s m \<longrightarrow> ring_at s' m"
  unfolding inv_at_def ring_at_def log_file_sync_frame [OF assms(1)]
  using inv_atD [OF assms(2)] by (simp_all add: lsn_rel_sync)

lemma cmdlog_file_prepare_inv:
  assumes "inv_at s m"
  shows "inv_at (snd (cmdlog_file_prepare opened s)) m"
    "ring_at s m \<longrightarrow> ring_at (snd (cmdlog_file_prepare opened s)) m"
  using assms by (simp_all add: cmdlog_file_prepare_def Let_def inv_at_def ring_at_def)

lemma log_buffer_flush_inv:
  assumes "log_buffer_flush upto_lsn s = Some s'" "inv_at s m"
  shows "\<exists>m'. inv_at s' m' \<and> (ring_at s m \<longrightarrow> ring_at s' m')"
proof -
  let ?P = "\<lambda>(u::LogSN) s s'. \<forall>m. inv_at s m \<longrightarrow>
      (\<exists>m'. inv_at s' m' \<and> (ring_at s m \<longrightarrow> ring_at s' m'))"
  have "?P upto_lsn s s'"
  proof (rule log_buffer_flush.raw_induct [where P = ?P, OF _ assms(1)])
    fix flush u s s'
    assume IH: "\<And>u s s'. flush u s = Some s' \<Longrightarrow> ?P u s s'"
      and eq: "(if LOGSN_IS_LE (nxt_flush_lsn s) u
                then (case do_log_buff_flush True s of None \<Rightarrow> None
                      | Some (n, s1) \<Rightarrow>
                          if n = 0 then None
                          else if LOGSN_IS_GT (nxt_flush_lsn s1) u then Some s1
                          else flush u s1)
                else Some s) = Some s'"
    show "?P u s s'"
    proof (intro allI impI)
      fix m
      assume m: "inv_at s m"
      show "\<exists>m'. inv_at s' m' \<and> (ring_at s m \<longrightarrow> ring_at s' m')"
      proof (cases "LOGSN_IS_LE (nxt_flush_lsn s) u")
        case False
        with eq m show ?thesis by auto
      next
        case True
        with eq obtain n s1 where fl: "do_log_buff_flush True s = Some (n, s1)"
          and r: "(if LOGSN_IS_GT (nxt_flush_lsn s1) u then Some s1 else flush u s1) = Some s'"
          by (auto split: option.splits if_splits)
        from flush_inv [OF fl m] obtain m1 where m1: "inv_at s1 m1"
          "ring_at s m \<longrightarrow> ring_at s1 m1" by blast
        show ?thesis
        proof (cases "LOGSN_IS_GT (nxt_flush_lsn s1) u")
          case True
          with r m1 show ?thesis by auto
        next
          case False
          with r have "flush u s1 = Some s'" by simp
          from IH [OF this, rule_format, OF m1(1)] m1(2) show ?thesis by blast
        qed
      qed
    qed
  qed
  with assms(2) show ?thesis by blast
qed

lemma step_inv:
  assumes "step x s = Some s'" "inv_at s m" "within_limits x s"
  shows "\<exists>m'. inv_at s' m' \<and> (ring_at s m \<longrightarrow> ring_at s' m')"
proof (cases x)
  case (Prepare opened)
  with assms(1) cmdlog_file_prepare_inv [OF assms(2), of opened] show ?thesis by auto
next
  case (RecordWrite logrec dual)
  with assms(1) obtain w where
    w: "do_log_buff_write logrec None dual s = Some (w, s')"
    by (auto simp: log_record_write_def)
  have "\<exists>s1 m1 m2 m'. buff_find_space (total_length_of logrec) s = Some s1
      \<and> inv_at s1 m1
      \<and> inv_at (s1\<lparr>log_buffer :=
                    buff_place logrec (total_length_of logrec) dual (log_buffer s1)\<rparr>) m2
      \<and> (win (fque (log_buffer s1)) (fqsz (log_buffer s1)) (fbgn (log_buffer s1)) m2 =
             win (fque (log_buffer s1)) (fqsz (log_buffer s1)) (fbgn (log_buffer s1)) m1
           \<or> win (fque (log_buffer s1)) (fqsz (log_buffer s1)) (fbgn (log_buffer s1)) m2 =
             win (fque (log_buffer s1)) (fqsz (log_buffer s1)) (fbgn (log_buffer s1)) m1 @ [0])
      \<and> fque_append (total_length_of logrec) dual
            (buff_place logrec (total_length_of logrec) dual (log_buffer s1))
          = Some (log_buffer s')
      \<and> inv_at s' m'
      \<and> win (fque (log_buffer s')) (fqsz (log_buffer s')) (fbgn (log_buffer s')) m'
          = add_bytes (total_length_of logrec)
              (win (fque (log_buffer s1)) (fqsz (log_buffer s1)) (fbgn (log_buffer s1)) m2)
      \<and> (ring_at s m \<longrightarrow>
            ring_at s1 m1 \<and> room (total_length_of logrec) (log_buffer s1) \<and> ring_at s' m')"
    using assms(2,3) RecordWrite inv_at_qlen [OF assms(2)]
    by (intro write_inv [OF w]) (simp_all add: within_limits_def)
  then show ?thesis by blast
next
  case (FlushOnce flush_all)
  with assms(1) obtain n where "do_log_buff_flush flush_all s = Some (n, s')" by auto
  from flush_inv [OF this assms(2)] show ?thesis by blast
next
  case (BufferFlush upto_lsn)
  with assms(1,2) show ?thesis
    by (intro log_buffer_flush_inv [of upto_lsn s s']) auto
next
  case FileSync
  with assms(1) log_file_sync_inv [OF _ assms(2)] show ?thesis by auto
next
  case (CompleteDualWrite success)
  with assms(1) have "cmdlog_complete_dual_write success s = Some s'" by simp
  then show ?thesis
    using assms(2,3) CompleteDualWrite inv_at_qlen [OF assms(2)]
    by (intro complete_dual_write_inv [of success s s' m]) (auto simp: within_limits_def)
qed

lemma run_inv:
  assumes "run xs s = Some s'" "inv_at s m" "limits_ok xs s"
  shows "\<exists>m'. inv_at s' m' \<and> (ring_at s m \<longrightarrow> ring_at s' m')"
  using assms
proof (induction xs arbitrary: s m)
  case Nil
  then show ?case by auto
next
  case (Cons x xs)
  from Cons.prems(1) obtain s1 where s1: "step x s = Some s1" "run xs s1 = Some s'"
    by (auto split: option.splits)
  from Cons.prems(3) s1(1) have l: "within_limits x s" "limits_ok xs s1" by simp_all
  from step_inv [OF s1(1) Cons.prems(2) l(1)] obtain m1 where
    m1: "inv_at s1 m1" "ring_at s m \<longrightarrow> ring_at s1 m1" by blast
  from Cons.IH [OF s1(2) m1(1) l(2)] m1(2) show ?case by blast
qed

lemma buf_init_inv:
  assumes "32 \<le> bsz" "bsz < 2 ^ 31"
  shows "inv_at (buf_init bsz e) 0" "ring_at (buf_init bsz e) 0"
proof -
  have F: "2 \<le> bsz div CMDLOG_RECORD_MIN_SIZE" "bsz div CMDLOG_RECORD_MIN_SIZE < 2 ^ 31"
    using assms by (simp_all add: CMDLOG_RECORD_MIN_SIZE_def)
  have "qinv (\<lambda>_. \<lparr>nflush = 0, dual_write = False\<rparr>) (bsz div CMDLOG_RECORD_MIN_SIZE) 0 0 0"
    using F by (intro qinvI) (simp_all add: CMDLOG_FLUSH_AUTO_SIZE_def slot_at_def)
  moreover have "lsn_rel \<lparr>filenum = 1, roffset = 0\<rparr> \<lparr>filenum = 1, roffset = 0\<rparr>
      \<lparr>filenum = 1, roffset = 0\<rparr> (-1) (bsz div CMDLOG_RECORD_MIN_SIZE) 0 0
      (win (\<lambda>_. \<lparr>nflush = 0, dual_write = False\<rparr>) (bsz div CMDLOG_RECORD_MIN_SIZE) 0 0)"
    by (intro lsn_relI [where d = 0]) (simp_all add: win_def)
  ultimately show "inv_at (buf_init bsz e) 0"
    by (simp add: inv_at_def buf_init_def)
  show "ring_at (buf_init bsz e) 0"
    using assms by (simp add: ring_at_def buf_init_def rinv_def win_def)
qed

lemma reachable_inv:
  assumes "run xs (cmdlog_buf_init e) = Some s" "limits_ok xs (cmdlog_buf_init e)"
  shows "inv_at s (qlen (log_buffer s))" "ring_at s (qlen (log_buffer s))"
proof -
  have "inv_at (cmdlog_buf_init e) 0" "ring_at (cmdlog_buf_init e) 0"
    unfolding cmdlog_buf_init_def
    by (rule buf_init_inv; simp add: CMDLOG_BUFFER_SIZE_def)+
  with run_inv [OF assms(1) _ assms(2)] obtain m where m: "inv_at s m" "ring_at s m"
    by blast
  from inv_at_qlen [OF m(1)] m show "inv_at s (qlen (log_buffer s))"
    "ring_at s (qlen (log_buffer s))" by simp_all
qed

lemma run_append:
  "run (xs @ ys) s = (case run xs s of None \<Rightarrow> None | Some s1 \<Rightarrow> run ys s1)"
  by (induction xs arbitrary: s) (simp_all split: option.splits)

lemma rotated_cycle:
  assumes "rotated k s"
  shows "\<exists>s'. run [Prepare 4, CompleteDualWrite True, FlushOnce False] s = Some s'
            \<and> rotated (Suc k) s'"
proof -
  from assms have a: "log_buffer s = log_buffer fresh" "fd (curr (log_file s)) \<noteq> -1"
    "nxt_write_lsn s = \<lparr>filenum = u32 (1 + int k), roffset = 0\<rparr>"
    "nxt_flush_lsn s = \<lparr>filenum = u32 (1 + int k), roffset = 0\<rparr>"
    "nxt_fsync_lsn s = \<lparr>filenum = 1, roffset = 0\<rparr>"
    by (simp_all add: rotated_def)
  have u: "u32 (int (u32 (1 + int k)) + 1) = u32 (1 + int (Suc k))"
    by (simp add: u32_def mod_simps add.commute)
  show ?thesis
    using a u by (simp add: rotated_def eval_simps)
qed

lemma rotated_cycles:
  assumes "rotated k s"
  shows "\<exists>s'. run (concat (replicate n [Prepare 4, CompleteDualWrite True, FlushOnce False])) s
              = Some s' \<and> rotated (k + n) s'"
  using assms
proof (induction n arbitrary: k s)
  case 0
  then show ?case by simp
next
  case (Suc n)
  from rotated_cycle [OF Suc.prems] obtain s1 where
    s1: "run [Prepare 4, CompleteDualWrite True, FlushOnce False] s = Some s1"
      "rotated (Suc k) s1" by blast
  from Suc.IH [OF s1(2)] obtain s' where
    s': "run (concat (replicate n [Prepare 4, CompleteDualWrite True, FlushOnce False])) s1
          = Some s'" "rotated (Suc k + n) s'" by blast
  have "run (concat (replicate (Suc n) [Prepare 4, CompleteDualWrite True, FlushOnce False])) s
      = Some s'"
    using s1(1) s'(1)
      run_append [of "[Prepare 4, CompleteDualWrite True, FlushOnce False]"
        "concat (replicate n [Prepare 4, CompleteDualWrite True, FlushOnce False])" s]
    by simp
  with s'(2) show ?case by auto
qed

lemma LOGSN_total: "\<not> LOGSN_IS_LE a b \<longleftrightarrow> LOGSN_IS_GT a b"
  by (auto simp: LOGSN_IS_LE_def LOGSN_IS_GT_def)

lemma do_log_file_write_some:
  assumes "fd (curr (log_file s)) \<noteq> -1"
  shows "\<exists>s'. do_log_file_write bs d s = Some s'
           \<and> fd (curr (log_file s')) = fd (curr (log_file s))"
  using assms by (simp add: do_log_file_write_def Let_def)

lemma flush_write_some:
  assumes "fd (curr (log_file s)) \<noteq> -1"
  shows "\<exists>s'. flush_write c d bs s = Some s'
           \<and> fd (curr (log_file s')) = fd (curr (log_file s))"
  using do_log_file_write_some [OF assms, of bs False]
    do_log_file_write_some [OF assms, of bs d]
  by (auto simp: flush_write_def)

lemma flush_all_some:
  assumes "inv_at s m" "fd (curr (log_file s)) \<noteq> -1"
    "0 < sum_list (win (fque (log_buffer s)) (fqsz (log_buffer s)) (fbgn (log_buffer s)) m)"
  shows "\<exists>n s'. do_log_buff_flush True s = Some (n, s') \<and> 0 < n
           \<and> fd (curr (log_file s')) = fd (curr (log_file s))"
proof -
  let ?lb = "log_buffer s"
  note q = inv_atD(1) [OF assms(1)]
  note d = qinvD [OF q]
  have pos: "0 < nflush (fque ?lb (fbgn ?lb))"
  proof (cases m)
    case 0
    with assms(3) d(3) show ?thesis by (simp add: win_def)
  next
    case (Suc k)
    with d(7) [of 0] d(3) show ?thesis by simp
  qed
  let ?n = "nflush (fque ?lb (fbgn ?lb))"
  let ?lb1 = "wrap_reclaim
              (if fbgn ?lb = fend ?lb then (end_cleanup ?lb)\<lparr>fend := fq_next (fend ?lb) (fqsz ?lb)\<rparr>
               else end_cleanup ?lb)"
  let ?s1 = "flush_lsn_step (fbgn ?lb = u32 (dw_end ?lb)) ?lb1 s"
  have sel: "flush_select True ?lb =
      Some (?n, dual_write (fque ?lb (fbgn ?lb)), fbgn ?lb = u32 (dw_end ?lb),
            dw_end ?lb \<noteq> -1, ?lb1)"
    using pos by (intro flush_select_some) simp_all
  have "fd (curr (log_file ?s1)) \<noteq> -1" using assms(2) by simp
  from flush_write_some [OF this, of "dw_end ?lb \<noteq> -1" "dual_write (fque ?lb (fbgn ?lb))"
      "buf_bytes ?lb1 (head ?lb1) ?n"]
  obtain s2 where s2: "flush_write (dw_end ?lb \<noteq> -1) (dual_write (fque ?lb (fbgn ?lb)))
      (buf_bytes ?lb1 (head ?lb1) ?n) ?s1 = Some s2"
    "fd (curr (log_file s2)) = fd (curr (log_file s))"
    by auto
  have "do_log_buff_flush True s = Some (?n, flush_finish ?n s2)"
    unfolding do_log_buff_flush_def sel using pos s2(1) by simp
  with pos s2(2) show ?thesis by simp
qed

lemma slot_at_len:
  assumes "b < F" "d < F"
  shows "(slot_at F b d + F - b) mod F = d"
proof -
  have "(slot_at F b d + F - b) mod F = ((b + d) mod F + (F - b)) mod F"
    using assms(1) by (simp add: slot_at_def)
  also have "\<dots> = (b + d + (F - b)) mod F"
    by (simp add: mod_add_left_eq)
  also have "\<dots> = (d + F) mod F"
    using assms(1) by (simp add: add.commute)
  finally show ?thesis using assms(2) by simp
qed

lemma lsn_rel_window:
  assumes "lsn_rel w f y dw F b m ns" "dw \<noteq> -1" "b < F" "m < F"
  shows "(nat dw + F - b) mod F \<le> m"
    "dw = int (slot_at F b ((nat dw + F - b) mod F))"
    "filenum w = filenum f + 1"
    "roffset w = sum_list (drop ((nat dw + F - b) mod F) ns)"
    "roffset f + sum_list (take ((nat dw + F - b) mod F) ns) < 2 ^ 64"
proof -
  from lsn_relD(6) [OF assms(1,2)] obtain d where d: "d \<le> m" "dw = int (slot_at F b d)"
    "filenum w = filenum f + 1" "roffset w = sum_list (drop d ns)"
    "roffset f + sum_list (take d ns) < 2 ^ 64"
    by blast
  have "(nat dw + F - b) mod F = d"
    unfolding d(2) using slot_at_len [of b F d] assms(3,4) d(1) by simp
  with d show "(nat dw + F - b) mod F \<le> m"
    "dw = int (slot_at F b ((nat dw + F - b) mod F))"
    "filenum w = filenum f + 1"
    "roffset w = sum_list (drop ((nat dw + F - b) mod F) ns)"
    "roffset f + sum_list (take ((nat dw + F - b) mod F) ns) < 2 ^ 64"
    by simp_all
qed

lemma old_end_consume:
  assumes "lsn_rel w f y dw F b (Suc m) ns" "length ns = Suc (Suc m)"
    "2 \<le> F" "F < 2 ^ 31" "b < F" "Suc m < F" "dw \<noteq> -1" "b \<noteq> u32 dw"
  shows "old_end dw F (fq_next b F) (add_roffset (hd ns) f) (tl ns) = old_end dw F b f ns"
proof -
  let ?d = "(nat dw + F - b) mod F"
  note r = lsn_rel_window [OF assms(1,7,5,6)]
  obtain n ms where ns: "ns = n # ms" using assms(2) by (cases ns) auto
  have sl: "slot_at F b ?d < F" using assms(3) by simp
  have "?d \<noteq> 0"
  proof
    assume "?d = 0"
    with r(2) assms(5) have "dw = int b" by simp
    with assms(4,5,8) show False by simp
  qed
  then obtain k where k: "?d = Suc k" by (cases ?d) auto
  have nb: "fq_next b F < F" using assms(3,4,5) by (simp add: fq_next_mod)
  have "slot_at F (fq_next b F) k = slot_at F b (Suc k)"
    using assms(3,4,5) by (simp add: slot_at_shift)
  then have "nat dw = slot_at F (fq_next b F) k" using r(2) k by simp
  then have d': "(nat dw + F - fq_next b F) mod F = k"
    using slot_at_len [OF nb, of k] r(1) k assms(6) by simp
  have "roffset f + n < 2 ^ 64" using r(5) k ns by simp
  then have ro: "roffset (add_roffset n f) = roffset f + n"
    by (simp add: add_roffset_def u64_add)
  show ?thesis
    unfolding old_end_def d' k using ns ro by simp
qed

lemma flush_step_facts:
  assumes "do_log_buff_flush True s = Some (n, s1)" "0 < n" "inv_at s m"
  shows "\<exists>m1. inv_at s1 m1
      \<and> sum_list (win (fque (log_buffer s1)) (fqsz (log_buffer s1)) (fbgn (log_buffer s1)) m1)
           < sum_list (win (fque (log_buffer s)) (fqsz (log_buffer s)) (fbgn (log_buffer s)) m)
      \<and> LOGSN_IS_GT (nxt_flush_lsn s1) (nxt_flush_lsn s)
      \<and> nxt_write_lsn s1 = nxt_write_lsn s
      \<and> (dw_end (log_buffer s) = -1 \<longrightarrow> dw_end (log_buffer s1) = -1)
      \<and> (dw_end (log_buffer s) \<noteq> -1 \<longrightarrow>
            dw_end (log_buffer s1) = -1 \<and> 0 < roffset (nxt_write_lsn s)
          \<or> dw_end (log_buffer s1) = dw_end (log_buffer s) \<and> cleanup_end s1 = cleanup_end s)"
proof -
  let ?lb = "log_buffer s"
  let ?ns = "win (fque ?lb) (fqsz ?lb) (fbgn ?lb) m"
  note q = inv_atD(1) [OF assms(3)] and l = inv_atD(2) [OF assms(3)]
  note d = qinvD [OF q]
  note fl = assms(1,2)
  from flush_inv [OF fl(1) assms(3)] fl(2) obtain m1 where
    m1: "inv_at s1 m1"
      "sum_list (win (fque (log_buffer s1)) (fqsz (log_buffer s1)) (fbgn (log_buffer s1)) m1)
           + n = sum_list ?ns"
      "LOGSN_IS_GT (nxt_flush_lsn s1) (nxt_flush_lsn s)"
    by blast
  have w: "nxt_write_lsn s1 = nxt_write_lsn s"
    using do_log_buff_flush_frame [OF fl(1)] by simp
  have b0: "slot_at (fqsz ?lb) (fbgn ?lb) 0 = fbgn ?lb" using d(3) by simp
  have hdn: "hd ?ns = n"
    using fl(1)
  proof (cases rule: do_log_buff_flush_cases)
    case idle
    with fl(2) show ?thesis by simp
  next
    case opened
    then show ?thesis unfolding win_hd b0 by simp
  next
    case closed
    then show ?thesis unfolding win_hd b0 by simp
  qed
  have e: "dw_end (log_buffer s1)
        = (if fbgn ?lb = u32 (dw_end ?lb) then -1 else dw_end ?lb)"
    using fl(1)
    by (cases rule: do_log_buff_flush_cases) (simp_all add: end_cleanup_dw_end)
  have A: "dw_end (log_buffer s1) = -1" if "dw_end ?lb = -1"
    using e that by simp
  have B: "dw_end (log_buffer s1) = -1 \<and> 0 < roffset (nxt_write_lsn s)
      \<or> dw_end (log_buffer s1) = dw_end ?lb \<and> cleanup_end s1 = cleanup_end s"
    if nd: "dw_end ?lb \<noteq> -1"
  proof (cases "fbgn ?lb = u32 (dw_end ?lb)")
    case True
    note r = lsn_rel_window [OF l nd d(3,4)]
    let ?D = "(nat (dw_end ?lb) + fqsz ?lb - fbgn ?lb) mod fqsz ?lb"
    have "slot_at (fqsz ?lb) (fbgn ?lb) ?D < fqsz ?lb" using d(1) by simp
    then have "slot_at (fqsz ?lb) (fbgn ?lb) ?D < 2 ^ 32" using d(2) by simp
    then have "u32 (int (slot_at (fqsz ?lb) (fbgn ?lb) ?D)) = slot_at (fqsz ?lb) (fbgn ?lb) ?D"
      by (rule u32_id)
    then have "u32 (dw_end ?lb) = slot_at (fqsz ?lb) (fbgn ?lb) ?D"
      unfolding r(2) [symmetric] .
    then have "slot_at (fqsz ?lb) (fbgn ?lb)
        ((nat (dw_end ?lb) + fqsz ?lb - fbgn ?lb) mod fqsz ?lb) = fbgn ?lb"
      using True by (simp only:)
    then have "(nat (dw_end ?lb) + fqsz ?lb - fbgn ?lb) mod fqsz ?lb = 0"
      using slot_inj [of "(nat (dw_end ?lb) + fqsz ?lb - fbgn ?lb) mod fqsz ?lb"
          "fqsz ?lb" 0 "fbgn ?lb"] r(1) d(1,3,4) by simp
    with r(4) have "roffset (nxt_write_lsn s) = sum_list ?ns" by simp
    moreover have "n \<le> sum_list ?ns" using m1(2) by simp
    ultimately show ?thesis using e True fl(2) by simp
  next
    case nb: False
    have cl: "fbgn ?lb \<noteq> fend ?lb"
    proof
      assume "fbgn ?lb = fend ?lb"
      then have m0: "m = 0" using qinv_same_iff [OF q] by simp
      from lsn_rel_window(1,2) [OF l nd d(3,4)] m0 d(3)
      have "dw_end ?lb = int (fbgn ?lb)" by simp
      with d(2,3) nb show False by simp
    qed
    from qinv_same_iff [OF q] cl obtain k where k: "m = Suc k" by (cases m) auto
    note c = qinv_consume [OF q [unfolded k]]
    from fl(1) have lb1: "log_buffer s1 = flush_consume n (wrap_reclaim (end_cleanup ?lb))"
      and f1: "nxt_flush_lsn s1 = add_roffset n (nxt_flush_lsn s)"
      using cl fl(2) nb by (cases rule: do_log_buff_flush_cases; simp)+
    have oe: "old_end (dw_end ?lb) (fqsz ?lb) (fq_next (fbgn ?lb) (fqsz ?lb))
          (add_roffset (hd (win (fque ?lb) (fqsz ?lb) (fbgn ?lb) (Suc k))) (nxt_flush_lsn s))
          (tl (win (fque ?lb) (fqsz ?lb) (fbgn ?lb) (Suc k)))
        = old_end (dw_end ?lb) (fqsz ?lb) (fbgn ?lb) (nxt_flush_lsn s)
            (win (fque ?lb) (fqsz ?lb) (fbgn ?lb) (Suc k))"
      using l d(1,2,3,4) nd nb unfolding k by (intro old_end_consume) simp_all
    have q1: "qlen (flush_consume n (wrap_reclaim (end_cleanup ?lb))) = k"
      unfolding qlen_def flush_consume_fields wrap_reclaim_fields end_cleanup_fields
      using qinv_qlen [OF c(1)] .
    have q0: "qlen ?lb = Suc k" using inv_at_qlen [OF assms(3)] k by simp
    have fn: "filenum (add_roffset n (nxt_flush_lsn s)) = filenum (nxt_flush_lsn s)"
      by (simp add: add_roffset_def)
    have "cleanup_end s1 = cleanup_end s"
      unfolding cleanup_end_def q0 lb1 f1 q1 flush_consume_fields wrap_reclaim_fields
        end_cleanup_fields end_cleanup_dw_end c(2)
      using nb oe [unfolded hdn [unfolded k]] fn by simp
    with e nb show ?thesis by simp
  qed
  from m1 w A B fl(2) show ?thesis
    by (intro exI [of _ m1] conjI impI) simp_all
qed

lemma flush_all_step:
  assumes "inv_at s m" "fd (curr (log_file s)) \<noteq> -1"
    "0 < sum_list (win (fque (log_buffer s)) (fqsz (log_buffer s)) (fbgn (log_buffer s)) m)"
  shows "\<exists>n s1 m1. do_log_buff_flush True s = Some (n, s1) \<and> 0 < n \<and> inv_at s1 m1
      \<and> sum_list (win (fque (log_buffer s1)) (fqsz (log_buffer s1)) (fbgn (log_buffer s1)) m1)
           < sum_list (win (fque (log_buffer s)) (fqsz (log_buffer s)) (fbgn (log_buffer s)) m)
      \<and> LOGSN_IS_GT (nxt_flush_lsn s1) (nxt_flush_lsn s)
      \<and> nxt_write_lsn s1 = nxt_write_lsn s
      \<and> fd (curr (log_file s1)) = fd (curr (log_file s))
      \<and> (dw_end (log_buffer s1) = -1
          \<or> dw_end (log_buffer s1) = dw_end (log_buffer s) \<and> cleanup_end s1 = cleanup_end s)"
proof -
  from flush_all_some [OF assms] obtain n s1 where
    fl: "do_log_buff_flush True s = Some (n, s1)" "0 < n"
      "fd (curr (log_file s1)) = fd (curr (log_file s))"
    by blast
  from flush_step_facts [OF fl(1,2) assms(1)] obtain m1 where
    m1: "inv_at s1 m1"
      "sum_list (win (fque (log_buffer s1)) (fqsz (log_buffer s1)) (fbgn (log_buffer s1)) m1)
           < sum_list (win (fque (log_buffer s)) (fqsz (log_buffer s)) (fbgn (log_buffer s)) m)"
      "LOGSN_IS_GT (nxt_flush_lsn s1) (nxt_flush_lsn s)"
      "nxt_write_lsn s1 = nxt_write_lsn s"
      "dw_end (log_buffer s) = -1 \<longrightarrow> dw_end (log_buffer s1) = -1"
      "dw_end (log_buffer s) \<noteq> -1 \<longrightarrow>
            dw_end (log_buffer s1) = -1 \<and> 0 < roffset (nxt_write_lsn s)
          \<or> dw_end (log_buffer s1) = dw_end (log_buffer s) \<and> cleanup_end s1 = cleanup_end s"
    by blast
  have "dw_end (log_buffer s1) = -1
          \<or> dw_end (log_buffer s1) = dw_end (log_buffer s) \<and> cleanup_end s1 = cleanup_end s"
    using m1(5,6) by blast
  with fl m1(1-4) show ?thesis
    by (intro exI [of _ n] exI [of _ s1] exI [of _ m1]) simp
qed

lemma pending_pos:
  assumes "inv_at s m" "LOGSN_IS_LE (nxt_flush_lsn s) upto_lsn"
    "\<not> LOGSN_IS_LE (nxt_write_lsn s) upto_lsn"
    "dw_end (log_buffer s) = -1 \<or> 0 < roffset (nxt_write_lsn s)
     \<or> LOGSN_IS_GT (cleanup_end s) upto_lsn"
  shows "0 < sum_list (win (fque (log_buffer s)) (fqsz (log_buffer s)) (fbgn (log_buffer s)) m)"
proof (cases "dw_end (log_buffer s) = -1")
  case True
  note r = lsn_relD(4,5) [OF inv_atD(2) [OF assms(1)] True]
  show ?thesis
  proof (rule ccontr)
    assume "\<not> ?thesis"
    with r have "filenum (nxt_flush_lsn s) = filenum (nxt_write_lsn s)"
      "roffset (nxt_flush_lsn s) = roffset (nxt_write_lsn s)" by simp_all
    with assms(2,3) show False by (simp add: LOGSN_IS_LE_def)
  qed
next
  case False
  let ?lb = "log_buffer s"
  let ?ns = "win (fque ?lb) (fqsz ?lb) (fbgn ?lb) m"
  let ?d = "(nat (dw_end ?lb) + fqsz ?lb - fbgn ?lb) mod fqsz ?lb"
  note d = qinvD [OF inv_atD(1) [OF assms(1)]]
  note r = lsn_rel_window [OF inv_atD(2) [OF assms(1)] False d(3,4)]
  have sp: "sum_list ?ns = sum_list (take ?d ?ns) + sum_list (drop ?d ?ns)"
    using sum_list_append [of "take ?d ?ns" "drop ?d ?ns"] by simp
  show ?thesis
  proof (cases "0 < roffset (nxt_write_lsn s)")
    case True
    with r(4) sp show ?thesis by simp
  next
    case ro: False
    with assms(4) False have gt: "LOGSN_IS_GT (cleanup_end s) upto_lsn" by simp
    have "0 < sum_list (take ?d ?ns)"
    proof (rule ccontr)
      assume "\<not> ?thesis"
      then have "roffset (cleanup_end s) = roffset (nxt_flush_lsn s)"
        "filenum (cleanup_end s) = filenum (nxt_flush_lsn s)"
        unfolding cleanup_end_def old_end_def inv_at_qlen [OF assms(1)] by simp_all
      with gt assms(2) show False by (auto simp: LOGSN_IS_LE_def LOGSN_IS_GT_def)
    qed
    with sp show ?thesis by simp
  qed
qed

lemma log_buffer_flush_gt:
  assumes "log_buffer_flush upto_lsn s = Some s'"
  shows "LOGSN_IS_GT (nxt_flush_lsn s') upto_lsn"
proof (rule log_buffer_flush.raw_induct
    [where P = "\<lambda>u s s'. LOGSN_IS_GT (nxt_flush_lsn s') u", OF _ assms])
  fix flush u s s'
  assume IH: "\<And>u s s'. flush u s = Some s' \<Longrightarrow> LOGSN_IS_GT (nxt_flush_lsn s') u"
    and eq: "(if LOGSN_IS_LE (nxt_flush_lsn s) u
              then (case do_log_buff_flush True s of None \<Rightarrow> None
                    | Some (n, s1) \<Rightarrow>
                        if n = 0 then None
                        else if LOGSN_IS_GT (nxt_flush_lsn s1) u then Some s1
                        else flush u s1)
              else Some s) = Some s'"
  show "LOGSN_IS_GT (nxt_flush_lsn s') u"
  proof (cases "LOGSN_IS_LE (nxt_flush_lsn s) u")
    case False
    with eq show ?thesis by (simp add: LOGSN_total)
  next
    case True
    with eq obtain n s1 where
      r: "(if LOGSN_IS_GT (nxt_flush_lsn s1) u then Some s1 else flush u s1) = Some s'"
      by (auto split: option.splits if_splits)
    show ?thesis
    proof (cases "LOGSN_IS_GT (nxt_flush_lsn s1) u")
      case True
      with r show ?thesis by simp
    next
      case False
      with r IH show ?thesis by simp
    qed
  qed
qed

lemma log_buffer_flush_total:
  assumes "inv_at s m" "fd (curr (log_file s)) \<noteq> -1"
    "\<not> LOGSN_IS_LE (nxt_write_lsn s) upto_lsn"
    "dw_end (log_buffer s) = -1 \<or> 0 < roffset (nxt_write_lsn s)
     \<or> LOGSN_IS_GT (cleanup_end s) upto_lsn"
  shows "\<exists>s'. log_buffer_flush upto_lsn s = Some s'"
  using assms
proof (induction "sum_list (win (fque (log_buffer s)) (fqsz (log_buffer s))
                    (fbgn (log_buffer s)) m)" arbitrary: s m rule: less_induct)
  case less
  show ?case
  proof (cases "LOGSN_IS_LE (nxt_flush_lsn s) upto_lsn")
    case False
    then show ?thesis by (subst log_buffer_flush.simps) simp
  next
    case True
    note pos = pending_pos [OF less.prems(1) True less.prems(3,4)]
    from flush_all_step [OF less.prems(1,2) pos] obtain n s1 m1 where
      fl: "do_log_buff_flush True s = Some (n, s1)" "0 < n"
        "fd (curr (log_file s1)) = fd (curr (log_file s))"
      and m1: "inv_at s1 m1"
        "sum_list (win (fque (log_buffer s1)) (fqsz (log_buffer s1)) (fbgn (log_buffer s1)) m1)
         < sum_list (win (fque (log_buffer s)) (fqsz (log_buffer s)) (fbgn (log_buffer s)) m)"
      and w: "nxt_write_lsn s1 = nxt_write_lsn s"
      and dw: "dw_end (log_buffer s1) = -1
          \<or> dw_end (log_buffer s1) = dw_end (log_buffer s) \<and> cleanup_end s1 = cleanup_end s"
      by blast
    show ?thesis
    proof (cases "LOGSN_IS_GT (nxt_flush_lsn s1) upto_lsn")
      case True
      with fl \<open>LOGSN_IS_LE (nxt_flush_lsn s) upto_lsn\<close> show ?thesis
        by (subst log_buffer_flush.simps) simp
    next
      case False
      have "dw_end (log_buffer s1) = -1 \<or> 0 < roffset (nxt_write_lsn s1)
          \<or> LOGSN_IS_GT (cleanup_end s1) upto_lsn"
        using dw less.prems(4) w by auto
      then have "\<exists>s'. log_buffer_flush upto_lsn s1 = Some s'"
        using m1 fl(3) less.prems(2,3) w
        by (intro less.hyps [of s1 m1]) simp_all
      with fl False \<open>LOGSN_IS_LE (nxt_flush_lsn s) upto_lsn\<close> show ?thesis
        by (subst log_buffer_flush.simps) simp
    qed
  qed
qed

lemma cleanup_end_ge:
  "filenum (cleanup_end s) = filenum (nxt_flush_lsn s)"
  "roffset (nxt_flush_lsn s) \<le> roffset (cleanup_end s)"
  by (simp_all add: cleanup_end_def old_end_def)

lemma log_buffer_flush_stuck:
  assumes "inv_at s m" "dw_end (log_buffer s) \<noteq> -1" "roffset (nxt_write_lsn s) = 0"
    "\<not> LOGSN_IS_GT (cleanup_end s) upto_lsn"
  shows "log_buffer_flush upto_lsn s = None"
  using assms
proof (induction "sum_list (win (fque (log_buffer s)) (fqsz (log_buffer s))
                    (fbgn (log_buffer s)) m)" arbitrary: s m rule: less_induct)
  case less
  have le: "LOGSN_IS_LE (nxt_flush_lsn s) upto_lsn"
    using less.prems(4) cleanup_end_ge [of s]
    by (auto simp: LOGSN_IS_LE_def LOGSN_IS_GT_def)
  show ?case
  proof (cases "do_log_buff_flush True s")
    case None
    with le show ?thesis by (subst log_buffer_flush.simps) simp
  next
    case (Some r)
    obtain n s1 where r: "r = (n, s1)" by (cases r)
    show ?thesis
    proof (cases "n = 0")
      case True
      with Some r le show ?thesis by (subst log_buffer_flush.simps) simp
    next
      case False
      then have n: "0 < n" by simp
      from flush_step_facts [OF Some [unfolded r] n less.prems(1)] less.prems(2,3)
      obtain m1 where m1: "inv_at s1 m1"
        "sum_list (win (fque (log_buffer s1)) (fqsz (log_buffer s1)) (fbgn (log_buffer s1)) m1)
           < sum_list (win (fque (log_buffer s)) (fqsz (log_buffer s)) (fbgn (log_buffer s)) m)"
        "nxt_write_lsn s1 = nxt_write_lsn s"
        "dw_end (log_buffer s1) = dw_end (log_buffer s)" "cleanup_end s1 = cleanup_end s"
        by auto
      have ngt: "\<not> LOGSN_IS_GT (nxt_flush_lsn s1) upto_lsn"
        using less.prems(4) cleanup_end_ge [of s1] unfolding m1(5)
        by (auto simp: LOGSN_IS_GT_def)
      have "log_buffer_flush upto_lsn s1 = None"
        using m1 less.prems(2,3,4)
        by (intro less.hyps [of s1 m1]) simp_all
      with Some r False le ngt show ?thesis
        by (subst log_buffer_flush.simps) simp
    qed
  qed
qed

lemma do_log_file_write_fd:
  assumes "do_log_file_write bs d s = Some s'"
  shows "fd (curr (log_file s')) = fd (curr (log_file s))"
    "fd (next_fs (log_file s')) = fd (next_fs (log_file s))"
  using assms by (auto simp: do_log_file_write_def Let_def split: if_splits)

lemma do_log_buff_flush_fd:
  assumes "do_log_buff_flush flush_all s = Some (n, s')"
  shows "fd (curr (log_file s')) = fd (curr (log_file s))
       \<and> fd (next_fs (log_file s')) = fd (next_fs (log_file s))"
  using assms
proof (cases rule: do_log_buff_flush_inv)
  case (idle d f c lb)
  then show ?thesis by simp
next
  case (work d f c lb s2)
  from work(3) have "fd (curr (log_file s2)) = fd (curr (log_file s))
      \<and> fd (next_fs (log_file s2)) = fd (next_fs (log_file s))"
    using do_log_file_write_fd [of "buf_bytes lb (head lb) n" False "flush_lsn_step f lb s" s2]
      do_log_file_write_fd [of "buf_bytes lb (head lb) n" d "flush_lsn_step f lb s" s2]
    by (auto simp: flush_write_def split: if_splits)
  with work(4) show ?thesis by simp
qed

lemma buff_find_space_fd:
  assumes "buff_find_space total_length s = Some s'"
  shows "fd (curr (log_file s')) = fd (curr (log_file s))
       \<and> fd (next_fs (log_file s')) = fd (next_fs (log_file s))"
proof (rule buff_find_space.raw_induct
    [where P = "\<lambda>t s s'. fd (curr (log_file s')) = fd (curr (log_file s))
       \<and> fd (next_fs (log_file s')) = fd (next_fs (log_file s))", OF _ assms])
  fix find t s s'
  assume IH: "\<And>t s s'. find t s = Some s' \<Longrightarrow>
            fd (curr (log_file s')) = fd (curr (log_file s))
       \<and> fd (next_fs (log_file s')) = fd (next_fs (log_file s))"
    and eq: "(case space_check t (log_buffer s) of None \<Rightarrow> None
      | Some (enough, lb) \<Rightarrow>
          if enough then Some (s\<lparr>log_buffer := lb\<rparr>)
          else (case do_log_buff_flush False (s\<lparr>log_buffer := lb\<rparr>) of
               None \<Rightarrow> None
             | Some (n, s2) \<Rightarrow> find t s2)) = Some s'"
  from eq obtain enough lb where
    sc: "space_check t (log_buffer s) = Some (enough, lb)"
    by (auto split: option.splits)
  show "fd (curr (log_file s')) = fd (curr (log_file s))
       \<and> fd (next_fs (log_file s')) = fd (next_fs (log_file s))"
  proof (cases enough)
    case True
    with eq sc have "s' = s\<lparr>log_buffer := lb\<rparr>" by simp
    then show ?thesis by simp
  next
    case False
    with eq sc obtain n s2 where
      fl: "do_log_buff_flush False (s\<lparr>log_buffer := lb\<rparr>) = Some (n, s2)"
      and rec: "find t s2 = Some s'"
      by (auto split: option.splits)
    from IH [OF rec] do_log_buff_flush_fd [OF fl] show ?thesis by simp
  qed
qed

lemma log_buffer_flush_fd:
  assumes "log_buffer_flush upto_lsn s = Some s'"
  shows "fd (curr (log_file s')) = fd (curr (log_file s))
       \<and> fd (next_fs (log_file s')) = fd (next_fs (log_file s))"
proof (rule log_buffer_flush.raw_induct
    [where P = "\<lambda>u s s'. fd (curr (log_file s')) = fd (curr (log_file s))
       \<and> fd (next_fs (log_file s')) = fd (next_fs (log_file s))", OF _ assms])
  fix flush u s s'
  assume IH: "\<And>u s s'. flush u s = Some s' \<Longrightarrow>
      fd (curr (log_file s')) = fd (curr (log_file s))
       \<and> fd (next_fs (log_file s')) = fd (next_fs (log_file s))"
    and eq: "(if LOGSN_IS_LE (nxt_flush_lsn s) u
              then (case do_log_buff_flush True s of None \<Rightarrow> None
                    | Some (n, s1) \<Rightarrow>
                        if n = 0 then None
                        else if LOGSN_IS_GT (nxt_flush_lsn s1) u then Some s1
                        else flush u s1)
              else Some s) = Some s'"
  show "fd (curr (log_file s')) = fd (curr (log_file s))
       \<and> fd (next_fs (log_file s')) = fd (next_fs (log_file s))"
  proof (cases "LOGSN_IS_LE (nxt_flush_lsn s) u")
    case False
    with eq show ?thesis by simp
  next
    case True
    with eq obtain n s1 where fl: "do_log_buff_flush True s = Some (n, s1)"
      and r: "(if LOGSN_IS_GT (nxt_flush_lsn s1) u then Some s1 else flush u s1) = Some s'"
      by (auto split: option.splits if_splits)
    show ?thesis
    proof (cases "LOGSN_IS_GT (nxt_flush_lsn s1) u")
      case True
      with r do_log_buff_flush_fd [OF fl] show ?thesis by simp
    next
      case False
      with r have "flush u s1 = Some s'" by simp
      from IH [OF this] do_log_buff_flush_fd [OF fl] show ?thesis by simp
    qed
  qed
qed

lemma log_file_sync_fd:
  assumes "log_file_sync s = Some s'"
  shows "fd (curr (log_file s')) = fd (curr (log_file s))"
proof (cases "fd (curr (log_file s)) = -1")
  case True
  with assms show ?thesis by (simp add: log_file_sync_def Let_def)
next
  case c: False
  show ?thesis
  proof (cases "fd (next_fs (log_file s)) = -1")
    case True
    with c assms show ?thesis by (auto simp: log_file_sync_def Let_def)
  next
    case n: False
    show ?thesis
    proof (cases "fd (next_fs (log_file s)) = fd (curr (log_file s))")
      case True
      with c n assms show ?thesis by (auto simp: log_file_sync_def Let_def)
    next
      case False
      with c n assms show ?thesis by (auto simp: log_file_sync_def Let_def)
    qed
  qed
qed

lemma step_curr_fd:
  assumes "step x s = Some s'" "x \<noteq> CompleteDualWrite True" "fd (curr (log_file s)) \<noteq> -1"
  shows "fd (curr (log_file s')) = fd (curr (log_file s))"
proof (cases x)
  case (Prepare opened)
  with assms(1,3) show ?thesis by (auto simp: cmdlog_file_prepare_def Let_def)
next
  case (RecordWrite logrec dual)
  with assms(1) obtain s1 lb where
    fs: "buff_find_space (total_length_of logrec) s = Some s1"
    and s': "s' = s1\<lparr>log_buffer := lb,
        nxt_write_lsn := add_roffset (total_length_of logrec) (nxt_write_lsn s1)\<rparr>"
    by (auto simp: log_record_write_def do_log_buff_write_def Let_def
        split: if_splits option.splits)
  from buff_find_space_fd [OF fs] s' show ?thesis by simp
next
  case (FlushOnce flush_all)
  with assms(1) obtain n where "do_log_buff_flush flush_all s = Some (n, s')" by auto
  from do_log_buff_flush_fd [OF this] show ?thesis by simp
next
  case (BufferFlush upto_lsn)
  with assms(1) log_buffer_flush_fd [of upto_lsn s s'] show ?thesis by simp
next
  case FileSync
  with assms(1) log_file_sync_fd [of s s'] show ?thesis by simp
next
  case (CompleteDualWrite success)
  with assms(2) have "\<not> success" by simp
  with assms(1) CompleteDualWrite show ?thesis
    by (auto simp: cmdlog_complete_dual_write_def Let_def split: if_splits option.splits)
qed

lemma run_curr_fd:
  assumes "run xs s = Some s'" "CompleteDualWrite True \<notin> set xs"
    "fd (curr (log_file s)) \<noteq> -1"
  shows "fd (curr (log_file s')) = fd (curr (log_file s))"
  using assms
proof (induction xs arbitrary: s)
  case Nil
  then show ?case by simp
next
  case (Cons x xs)
  from Cons.prems(1) obtain s1 where s1: "step x s = Some s1" "run xs s1 = Some s'"
    by (auto split: option.splits)
  from Cons.prems(2) have x: "x \<noteq> CompleteDualWrite True" "CompleteDualWrite True \<notin> set xs"
    by auto
  from step_curr_fd [OF s1(1) x(1) Cons.prems(3)]
  have e: "fd (curr (log_file s1)) = fd (curr (log_file s))" .
  with Cons.prems(3) have "fd (curr (log_file s1)) \<noteq> -1" by simp
  from Cons.IH [OF s1(2) x(2) this] e show ?case by simp
qed

lemma rotation_curr_fd:
  assumes "fd (next_fs (log_file s0)) \<noteq> -1" "cmdlog_complete_dual_write True s0 = Some s1"
    "run xs s1 = Some s" "CompleteDualWrite True \<notin> set xs"
  shows "fd (curr (log_file s)) = fd (next_fs (log_file s0))"
proof -
  from assms(1,2) have "fd (curr (log_file s1)) = fd (next_fs (log_file s0))"
    by (auto simp: cmdlog_complete_dual_write_def Let_def split: if_splits)
  with run_curr_fd [OF assms(3,4)] assms(1) show ?thesis by simp
qed

lemma do_log_buff_flush_dw:
  assumes "do_log_buff_flush flush_all s = Some (n, s')"
  shows "dw_end (log_buffer s') = dw_end (log_buffer s) \<or> dw_end (log_buffer s') = -1"
  using assms
proof (cases rule: do_log_buff_flush_inv)
  case (idle d f c lb)
  from idle(1) have "dw_end lb = dw_end (log_buffer s) \<or> dw_end lb = -1"
    by (auto simp: flush_select_def end_cleanup_def wrap_reclaim_def Let_def split: if_splits)
  with idle(3) show ?thesis by (simp add: flush_lsn_step_def)
next
  case (work d f c lb s2)
  from work(1) have lb: "dw_end lb = dw_end (log_buffer s) \<or> dw_end lb = -1"
    by (auto simp: flush_select_def end_cleanup_def wrap_reclaim_def Let_def split: if_splits)
  from work(3) have "log_buffer s2 = lb"
    by (auto simp: flush_write_def do_log_file_write_def flush_lsn_step_def Let_def
        split: if_splits)
  with work(4) lb show ?thesis
    by (simp add: flush_finish_def flush_consume_def wrap_reclaim_def Let_def)
qed

lemma space_check_dw:
  assumes "space_check t lb = Some (enough, lb')"
  shows "dw_end lb' = dw_end lb"
  using assms by (auto simp: space_check_def Let_def split: if_splits)

lemma buff_find_space_dw:
  assumes "buff_find_space total_length s = Some s'"
  shows "dw_end (log_buffer s') = dw_end (log_buffer s) \<or> dw_end (log_buffer s') = -1"
proof (rule buff_find_space.raw_induct
    [where P = "\<lambda>t s s'. dw_end (log_buffer s') = dw_end (log_buffer s)
       \<or> dw_end (log_buffer s') = -1", OF _ assms])
  fix find t s s'
  assume IH: "\<And>t s s'. find t s = Some s' \<Longrightarrow>
            dw_end (log_buffer s') = dw_end (log_buffer s) \<or> dw_end (log_buffer s') = -1"
    and eq: "(case space_check t (log_buffer s) of None \<Rightarrow> None
      | Some (enough, lb) \<Rightarrow>
          if enough then Some (s\<lparr>log_buffer := lb\<rparr>)
          else (case do_log_buff_flush False (s\<lparr>log_buffer := lb\<rparr>) of
               None \<Rightarrow> None
             | Some (n, s2) \<Rightarrow> find t s2)) = Some s'"
  from eq obtain enough lb where
    sc: "space_check t (log_buffer s) = Some (enough, lb)"
    by (auto split: option.splits)
  note dw = space_check_dw [OF sc]
  show "dw_end (log_buffer s') = dw_end (log_buffer s) \<or> dw_end (log_buffer s') = -1"
  proof (cases enough)
    case True
    with eq sc have "s' = s\<lparr>log_buffer := lb\<rparr>" by simp
    with dw show ?thesis by simp
  next
    case False
    with eq sc obtain n s2 where
      fl: "do_log_buff_flush False (s\<lparr>log_buffer := lb\<rparr>) = Some (n, s2)"
      and rec: "find t s2 = Some s'"
      by (auto split: option.splits)
    from IH [OF rec] do_log_buff_flush_dw [OF fl] dw show ?thesis by auto
  qed
qed

lemma log_buffer_flush_dw:
  assumes "log_buffer_flush upto_lsn s = Some s'"
  shows "dw_end (log_buffer s') = dw_end (log_buffer s) \<or> dw_end (log_buffer s') = -1"
proof (rule log_buffer_flush.raw_induct
    [where P = "\<lambda>u s s'. dw_end (log_buffer s') = dw_end (log_buffer s)
       \<or> dw_end (log_buffer s') = -1", OF _ assms])
  fix flush u s s'
  assume IH: "\<And>u s s'. flush u s = Some s' \<Longrightarrow>
      dw_end (log_buffer s') = dw_end (log_buffer s) \<or> dw_end (log_buffer s') = -1"
    and eq: "(if LOGSN_IS_LE (nxt_flush_lsn s) u
              then (case do_log_buff_flush True s of None \<Rightarrow> None
                    | Some (n, s1) \<Rightarrow>
                        if n = 0 then None
                        else if LOGSN_IS_GT (nxt_flush_lsn s1) u then Some s1
                        else flush u s1)
              else Some s) = Some s'"
  show "dw_end (log_buffer s') = dw_end (log_buffer s) \<or> dw_end (log_buffer s') = -1"
  proof (cases "LOGSN_IS_LE (nxt_flush_lsn s) u")
    case False
    with eq show ?thesis by simp
  next
    case True
    with eq obtain n s1 where fl: "do_log_buff_flush True s = Some (n, s1)"
      and r: "(if LOGSN_IS_GT (nxt_flush_lsn s1) u then Some s1 else flush u s1) = Some s'"
      by (auto split: option.splits if_splits)
    show ?thesis
    proof (cases "LOGSN_IS_GT (nxt_flush_lsn s1) u")
      case True
      with r do_log_buff_flush_dw [OF fl] show ?thesis by simp
    next
      case False
      with r have "flush u s1 = Some s'" by simp
      from IH [OF this] do_log_buff_flush_dw [OF fl] show ?thesis by auto
    qed
  qed
qed

lemma fque_append_dw:
  assumes "fque_append total_length dual lb = Some lb'"
  shows "dw_end lb' = dw_end lb"
proof (rule fque_append.raw_induct
    [where P = "\<lambda>t d lb lb'. dw_end lb' = dw_end lb", OF _ assms])
  fix app t d lb lb'
  assume IH: "\<And>t d lb lb'. app t d lb = Some lb' \<Longrightarrow> dw_end lb' = dw_end lb"
    and eq: "(if 0 < t then app (u32 (int t - int (fst (fque_put t d lb)))) d
                (snd (fque_put t d lb)) else Some lb) = Some lb'"
  show "dw_end lb' = dw_end lb"
  proof (cases "0 < t")
    case False
    with eq show ?thesis by simp
  next
    case True
    with eq have "app (u32 (int t - int (fst (fque_put t d lb)))) d (snd (fque_put t d lb))
        = Some lb'" by simp
    from IH [OF this] show ?thesis by (simp add: fque_put_def Let_def)
  qed
qed

lemma step_window:
  assumes "step x s = Some s'" "dw_end (log_buffer s') \<noteq> -1"
  shows "(x = CompleteDualWrite True \<and> fd (next_fs (log_file s)) \<noteq> -1
          \<and> fd (curr (log_file s')) = fd (next_fs (log_file s)))
       \<or> (dw_end (log_buffer s) \<noteq> -1
          \<and> (fd (curr (log_file s)) \<noteq> -1
               \<longrightarrow> fd (curr (log_file s')) = fd (curr (log_file s))))"
proof (cases "x = CompleteDualWrite True \<and> fd (next_fs (log_file s)) \<noteq> -1")
  case True
  with assms(1) have "fd (curr (log_file s')) = fd (next_fs (log_file s))"
    by (auto simp: cmdlog_complete_dual_write_def Let_def split: if_splits)
  with True show ?thesis by simp
next
  case nr: False
  have dw: "dw_end (log_buffer s') = dw_end (log_buffer s) \<or> dw_end (log_buffer s') = -1"
  proof (cases x)
    case (Prepare opened)
    with assms(1) show ?thesis by (auto simp: cmdlog_file_prepare_def Let_def)
  next
    case (RecordWrite logrec dual)
    with assms(1) obtain s1 lb where
      fs: "buff_find_space (total_length_of logrec) s = Some s1"
      and ap: "fque_append (total_length_of logrec) dual
                 (buff_place logrec (total_length_of logrec) dual (log_buffer s1)) = Some lb"
      and s': "s' = s1\<lparr>log_buffer := lb,
          nxt_write_lsn := add_roffset (total_length_of logrec) (nxt_write_lsn s1)\<rparr>"
      by (auto simp: log_record_write_def do_log_buff_write_def Let_def
          split: if_splits option.splits)
    from fque_append_dw [OF ap] have "dw_end lb = dw_end (log_buffer s1)"
      by (simp add: buff_place_def Let_def)
    with buff_find_space_dw [OF fs] s' show ?thesis by simp
  next
    case (FlushOnce flush_all)
    with assms(1) obtain n where "do_log_buff_flush flush_all s = Some (n, s')" by auto
    from do_log_buff_flush_dw [OF this] show ?thesis .
  next
    case (BufferFlush upto_lsn)
    with assms(1) log_buffer_flush_dw [of upto_lsn s s'] show ?thesis by simp
  next
    case FileSync
    with assms(1) log_file_sync_frame(1) [of s s'] show ?thesis by simp
  next
    case (CompleteDualWrite success)
    show ?thesis
    proof (cases "fd (next_fs (log_file s)) = -1")
      case True
      with assms(1) CompleteDualWrite show ?thesis
        by (simp add: cmdlog_complete_dual_write_def Let_def)
    next
      case False
      with nr CompleteDualWrite have ns: "\<not> success" by simp
      with False assms(1) CompleteDualWrite obtain lb1 where
        r: "reset_dual_write (fbgn (log_buffer s)) (log_buffer s) = Some lb1"
        and "log_buffer s' = lb1"
        by (auto simp: cmdlog_complete_dual_write_def Let_def split: option.splits)
      with reset_dual_write_frame [OF r] show ?thesis by simp
    qed
  qed
  have fdc: "fd (curr (log_file s')) = fd (curr (log_file s))"
    if c: "fd (curr (log_file s)) \<noteq> -1"
  proof (cases "x = CompleteDualWrite True")
    case False
    from step_curr_fd [OF assms(1) False c] show ?thesis .
  next
    case True
    with nr have "fd (next_fs (log_file s)) = -1" by simp
    with True assms(1) show ?thesis by (simp add: cmdlog_complete_dual_write_def Let_def)
  qed
  from dw assms(2) fdc show ?thesis by auto
qed

lemma run_window:
  assumes "run xs t = Some s" "dw_end (log_buffer t) = -1" "dw_end (log_buffer s) \<noteq> -1"
  shows "\<exists>ys zs s0 s1. xs = ys @ CompleteDualWrite True # zs \<and> run ys t = Some s0
           \<and> fd (next_fs (log_file s0)) \<noteq> -1
           \<and> cmdlog_complete_dual_write True s0 = Some s1 \<and> run zs s1 = Some s
           \<and> (\<forall>us vs. zs = us @ vs \<longrightarrow>
                  (\<exists>s2. run us s1 = Some s2 \<and> dw_end (log_buffer s2) \<noteq> -1))
           \<and> fd (curr (log_file s)) = fd (next_fs (log_file s0))"
  using assms(1,3)
proof (induction xs arbitrary: s rule: rev_induct)
  case Nil
  with assms(2) show ?case by simp
next
  case (snoc x xs)
  from snoc.prems(1) obtain s2 where s2: "run xs t = Some s2" "step x s2 = Some s"
    by (auto simp: run_append split: option.splits)
  from step_window [OF s2(2) snoc.prems(2)] show ?case
  proof
    assume rot: "x = CompleteDualWrite True \<and> fd (next_fs (log_file s2)) \<noteq> -1
          \<and> fd (curr (log_file s)) = fd (next_fs (log_file s2))"
    have "\<forall>us vs. [] = us @ vs \<longrightarrow>
                  (\<exists>s3. run us s = Some s3 \<and> dw_end (log_buffer s3) \<noteq> -1)"
      using snoc.prems(2) by simp
    with rot s2 have "xs @ [x] = xs @ CompleteDualWrite True # [] \<and> run xs t = Some s2
           \<and> fd (next_fs (log_file s2)) \<noteq> -1
           \<and> cmdlog_complete_dual_write True s2 = Some s \<and> run [] s = Some s
           \<and> (\<forall>us vs. [] = us @ vs \<longrightarrow>
                  (\<exists>s3. run us s = Some s3 \<and> dw_end (log_buffer s3) \<noteq> -1))
           \<and> fd (curr (log_file s)) = fd (next_fs (log_file s2))"
      by simp
    then show ?thesis by blast
  next
    assume keep: "dw_end (log_buffer s2) \<noteq> -1
          \<and> (fd (curr (log_file s2)) \<noteq> -1
               \<longrightarrow> fd (curr (log_file s)) = fd (curr (log_file s2)))"
    from snoc.IH [OF s2(1)] keep obtain ys zs s0 s1 where
      d: "xs = ys @ CompleteDualWrite True # zs" "run ys t = Some s0"
        "fd (next_fs (log_file s0)) \<noteq> -1"
        "cmdlog_complete_dual_write True s0 = Some s1" "run zs s1 = Some s2"
        "fd (curr (log_file s2)) = fd (next_fs (log_file s0))"
      and op: "\<And>us vs. zs = us @ vs \<Longrightarrow>
                  \<exists>s3. run us s1 = Some s3 \<and> dw_end (log_buffer s3) \<noteq> -1"
      by blast
    from d(5) s2(2) have r: "run (zs @ [x]) s1 = Some s" by (simp add: run_append)
    have e: "xs @ [x] = ys @ CompleteDualWrite True # (zs @ [x])" using d(1) by simp
    have c: "fd (curr (log_file s)) = fd (next_fs (log_file s0))" using keep d(3,6) by simp
    have o: "\<exists>s3. run us s1 = Some s3 \<and> dw_end (log_buffer s3) \<noteq> -1"
      if h: "zs @ [x] = us @ vs" for us vs
    proof (cases vs rule: rev_cases)
      case Nil
      with h have "us = zs @ [x]" by simp
      with r snoc.prems(2) show ?thesis by simp
    next
      case (snoc vs' v)
      with h have "zs = us @ vs'" by simp
      from op [OF this] show ?thesis .
    qed
    from e d(2,3,4) r o c show ?thesis by blast
  qed
qed

section \<open>The claims\<close>



text \<open>
  C3. \<^verbatim>\<open>cmdlog_complete_dual_write(true)\<close> with \<^verbatim>\<open>next.fd\<close> present, \<open>dw_end = -1\<close> and
  a current file returns, and then: \<open>fend\<close> has moved on exactly when the request at the
  tail was not empty; \<open>dw_end\<close> is the new \<open>fend\<close>; the write LSN is
  \<open>(filenum + 1, 0)\<close>; \<^verbatim>\<open>curr\<close> is what \<^verbatim>\<open>next\<close> was and \<^verbatim>\<open>next\<close> is cleared
  (no descriptor, size 0); and the descriptor that was current is closed by this call if
  and only if its \<^verbatim>\<open>fsync_ongoing\<close> flag was false.
\<close>

theorem C3_complete_dual_write_handover:
  assumes "fd (next_fs (log_file s)) \<noteq> -1"
    and "dw_end (log_buffer s) = -1"
    and "fd (curr (log_file s)) \<noteq> -1"
  shows "\<exists>s'. cmdlog_complete_dual_write True s = Some s'
      \<and> fend (log_buffer s') =
           (if 0 < nflush (fque (log_buffer s) (fend (log_buffer s)))
            then fq_next (fend (log_buffer s)) (fqsz (log_buffer s))
            else fend (log_buffer s))
      \<and> dw_end (log_buffer s') = i32 (int (fend (log_buffer s')))
      \<and> nxt_write_lsn s' = \<lparr>filenum = u32 (int (filenum (nxt_write_lsn s)) + 1), roffset = 0\<rparr>
      \<and> curr (log_file s') = next_fs (log_file s)
      \<and> next_fs (log_file s') = \<lparr>fd = -1, fsync_ongoing = False, size_fs = 0\<rparr>
      \<and> (fd (curr (log_file s)) \<in> set (closed_fds (os s'))
           \<longleftrightarrow> \<not> fsync_ongoing (curr (log_file s))
               \<or> fd (curr (log_file s)) \<in> set (closed_fds (os s)))
      \<and> closed_fds (os s') =
           (if fsync_ongoing (curr (log_file s)) then closed_fds (os s)
            else fd (curr (log_file s)) # closed_fds (os s))"
  using assms
  by (simp add: cmdlog_complete_dual_write_def Let_def bump_filenum_def disk_close_def)

text \<open>The witness: the rotation from descriptor 3 to descriptor 4 with one record
  waiting in the queue.\<close>

theorem C3_witness:
  "\<exists>s s'. run [Prepare 3, Prepare 4, RecordWrite (rec_of 8) True] fresh = Some s
      \<and> fd (curr (log_file s)) = 3 \<and> fd (next_fs (log_file s)) = 4
      \<and> \<not> fsync_ongoing (curr (log_file s)) \<and> closed_fds (os s) = []
      \<and> fend (log_buffer s) = 0 \<and> nflush (fque (log_buffer s) 0) = 16
      \<and> cmdlog_complete_dual_write True s = Some s'
      \<and> fend (log_buffer s') = 1 \<and> dw_end (log_buffer s') = 1
      \<and> nxt_write_lsn s' = \<lparr>filenum = 2, roffset = 0\<rparr>
      \<and> fd (curr (log_file s')) = 4
      \<and> next_fs (log_file s') = \<lparr>fd = -1, fsync_ongoing = False, size_fs = 0\<rparr>
      \<and> closed_fds (os s') = [3]"
proof -
  define s where "s = the (run [Prepare 3, Prepare 4, RecordWrite (rec_of 8) True] fresh)"
  have r: "run [Prepare 3, Prepare 4, RecordWrite (rec_of 8) True] fresh = Some s"
    by (simp add: s_def eval_simps)
  have f: "fd (curr (log_file s)) = 3" "fd (next_fs (log_file s)) = 4"
    "\<not> fsync_ongoing (curr (log_file s))" "closed_fds (os s) = []"
    "fend (log_buffer s) = 0" "nflush (fque (log_buffer s) 0) = 16"
    "dw_end (log_buffer s) = -1" "fqsz (log_buffer s) = 6553600"
    "nxt_write_lsn s = \<lparr>filenum = 1, roffset = 16\<rparr>"
    by (simp_all add: s_def eval_simps)
  from C3_complete_dual_write_handover [of s] f
  obtain s' where "cmdlog_complete_dual_write True s = Some s'"
    "fend (log_buffer s') = 1" "dw_end (log_buffer s') = 1"
    "nxt_write_lsn s' = \<lparr>filenum = 2, roffset = 0\<rparr>"
    "fd (curr (log_file s')) = 4"
    "next_fs (log_file s') = \<lparr>fd = -1, fsync_ongoing = False, size_fs = 0\<rparr>"
    "closed_fds (os s') = [3]"
    by (auto simp: fq_next_def u32_def i32_def)
  with r f show ?thesis
    by (intro exI [of _ s] exI [of _ s']) simp
qed



text \<open>
  C9, as amended. Scenario S1: after init, one prepared file, three records with bodies
  of 8, 16 and 32 bytes (headers of 8 bytes), \<^verbatim>\<open>log_buffer_flush\<close> up to \<open>(1, 72)\<close> and
  \<^verbatim>\<open>log_file_sync\<close>, all three LSNs are \<open>(1, 80)\<close> and the file holds 80 bytes: the
  three records take 16 + 24 + 40 bytes.
\<close>

theorem C9_scenario_S1:
  "\<exists>s. run [Prepare 3, RecordWrite (rec_of 8) False, RecordWrite (rec_of 16) False,
             RecordWrite (rec_of 32) False, BufferFlush \<lparr>filenum = 1, roffset = 72\<rparr>,
             FileSync] fresh = Some s
       \<and> nxt_write_lsn s = \<lparr>filenum = 1, roffset = 80\<rparr>
       \<and> nxt_flush_lsn s = \<lparr>filenum = 1, roffset = 80\<rparr>
       \<and> nxt_fsync_lsn s = \<lparr>filenum = 1, roffset = 80\<rparr>
       \<and> length (disk (os s) 3) = 80
       \<and> size_fs (curr (log_file s)) = 80
       \<and> cmdlog_file_getsize s = 80
       \<and> fsynced_fds (os s) = [3]"
  by (simp add: eval_simps)

text \<open>Against C9 as stated: in scenario S1 the fsync LSN is not \<open>(1, 72)\<close> and the file
  is not 72 bytes long.\<close>

theorem C9_counterexample:
  "(case run [Prepare 3, RecordWrite (rec_of 8) False, RecordWrite (rec_of 16) False,
              RecordWrite (rec_of 32) False, BufferFlush \<lparr>filenum = 1, roffset = 72\<rparr>,
              FileSync] fresh of
      None \<Rightarrow> False
    | Some s \<Rightarrow> nxt_fsync_lsn s \<noteq> \<lparr>filenum = 1, roffset = 72\<rparr>
               \<and> length (disk (os s) 3) \<noteq> 72
               \<and> size_fs (curr (log_file s)) \<noteq> 72)"
  by (simp add: eval_simps)

text \<open>
  C7, as amended. Let the file behind \<^verbatim>\<open>curr.fd\<close>, read from offset 0 and smaller than
  2 GiB, be a sequence of replayable records followed by \<open>rest\<close>. If \<open>rest\<close> is a torn tail
  (or empty), \<^verbatim>\<open>cmdlog_file_apply\<close> returns 0 after giving the redo hook, in order,
  every record of the sequence whose body is not empty (a record with
  \<^verbatim>\<open>body_length = 0\<close> is skipped without redo), and it leaves \<^verbatim>\<open>curr.size\<close> and the file
  offset at the end of the last complete record: for a torn body that is the offset after
  the header, moved back by the length of the header. If \<open>rest\<close> begins with a complete
  record whose body is longer than \<^verbatim>\<open>MAX_LOG_RECORD_SIZE - sizeof(LogHdr)\<close>, or with a
  record that the redo hook answers with \<^verbatim>\<open>ENGINE_ENOMEM\<close>, the result is -1 and the
  descriptor is closed.
\<close>

theorem C7_file_apply_recovery:
  assumes fd: "0 < fd (curr (log_file s))" "f = fd (curr (log_file s))"
    and ini: "initialized s"
    and pos: "fpos (os s) f = 0"
    and mx: "sizeof_LogHdr \<le> MAX_LOG_RECORD_SIZE c" "MAX_LOG_RECORD_SIZE c < 2 ^ 31"
    and small: "length (disk (os s) f) < 2 ^ 31"
    and dsk: "disk (os s) f = concat (map rec_image recs) @ rest"
    and recs: "\<forall>r \<in> set recs. replayable c r"
  shows "(torn_tail c rest \<longrightarrow>
            (\<exists>s'. cmdlog_file_apply c s = Some (0, s', filter (\<lambda>r. 0 < length (snd r)) recs)
                \<and> size_fs (curr (log_file s')) = length (concat (map rec_image recs))
                \<and> fpos (os s') f = length (concat (map rec_image recs))
                \<and> disk (os s') = disk (os s)
                \<and> closed_fds (os s') = closed_fds (os s)))
       \<and> (\<forall>hb bb more. rest = hb @ bb @ more \<and> complete_rec c (hb, bb)
               \<and> MAX_LOG_RECORD_SIZE c - sizeof_LogHdr < length bb \<longrightarrow>
            (\<exists>s'. cmdlog_file_apply c s = Some (-1, s', filter (\<lambda>r. 0 < length (snd r)) recs)
                \<and> closed_fds (os s') = f # closed_fds (os s)))
       \<and> (\<forall>hb bb more. rest = hb @ bb @ more \<and> complete_rec c (hb, bb)
               \<and> 0 < length bb \<and> length bb \<le> MAX_LOG_RECORD_SIZE c - sizeof_LogHdr
               \<and> lrec_redo_from_record c hb bb = ENGINE_ENOMEM \<longrightarrow>
            (\<exists>s'. cmdlog_file_apply c s
                     = Some (-1, s', filter (\<lambda>r. 0 < length (snd r)) recs @ [(hb, bb)])
                \<and> closed_fds (os s') = f # closed_fds (os s)))"
proof -
  let ?n = "length (concat (map rec_image recs))"
  let ?sz = "length (disk (os s) f)"
  let ?tr = "filter (\<lambda>r. 0 < length (snd r)) recs"
  let ?e = "set_fpos f ?n (os s)"
  from mx have mx': "MAX_LOG_RECORD_SIZE c < 2 ^ 32" by simp
  have "apply_loop c f True ?sz (int (length ([]::byte list))) (os s) [] =
        apply_loop c f True ?sz (int (length ([]::byte list) + ?n))
          (set_fpos f (length ([]::byte list) + ?n) (os s)) ([] @ ?tr)"
    using pos dsk recs small
    by (intro apply_loop_recs [OF _ mx(1) mx', where post = rest]) simp_all
  then have pre: "apply_loop c f (initialized s) ?sz 0 (os s) []
      = apply_loop c f True ?sz (int ?n) ?e ?tr"
    using ini by simp
  have nsz: "?n \<le> ?sz" using dsk by simp
  have un: "u64 (int ?n) = ?n" using seek_small(1) [OF nsz small] .
  have e: "fpos ?e f = length (concat (map rec_image recs))"
    "disk ?e f = concat (map rec_image recs) @ rest" "?sz = length (disk ?e f)"
    using dsk by simp_all
  have A: "torn_tail c rest \<Longrightarrow> apply_loop c f True ?sz (int ?n) ?e ?tr = (0, int ?n, ?e, ?tr)"
    using e small by (intro apply_loop_torn) simp_all
  have B: "\<And>hb bb more. rest = hb @ bb @ more \<Longrightarrow> complete_rec c (hb, bb)
      \<Longrightarrow> MAX_LOG_RECORD_SIZE c - sizeof_LogHdr < length bb
      \<Longrightarrow> apply_loop c f True ?sz (int ?n) ?e ?tr
          = (-1, int (?n + sizeof_LogHdr), set_fpos f (?n + sizeof_LogHdr) ?e, ?tr)"
    using e mx(1) mx' small
    by (intro apply_loop_too_big) (auto simp: complete_rec_def)
  have C: "\<And>hb bb more. rest = hb @ bb @ more \<Longrightarrow> complete_rec c (hb, bb)
      \<Longrightarrow> 0 < length bb \<Longrightarrow> length bb \<le> MAX_LOG_RECORD_SIZE c - sizeof_LogHdr
      \<Longrightarrow> lrec_redo_from_record c hb bb = ENGINE_ENOMEM
      \<Longrightarrow> apply_loop c f True ?sz (int ?n) ?e ?tr
          = (-1, int (?n + sizeof_LogHdr + length bb),
             set_fpos f (?n + sizeof_LogHdr + length bb) ?e, ?tr @ [(hb, bb)])"
    using e mx(1) mx' small
    by (intro apply_loop_enomem) (auto simp: complete_rec_def)
  have empty: "?n = 0 \<and> ?tr = [] \<and> rest = []" if z: "?sz = 0"
  proof (cases recs)
    case Nil
    with z dsk show ?thesis by simp
  next
    case (Cons r rs)
    with recs have "length (fst r) = sizeof_LogHdr"
      by (simp add: replayable_def complete_rec_def)
    with Cons z dsk show ?thesis
      by (simp add: rec_image_def sizeof_LogHdr_def)
  qed
  show ?thesis
  proof (intro conjI impI allI)
    assume t: "torn_tail c rest"
    show "\<exists>s'. cmdlog_file_apply c s = Some (0, s', ?tr)
                \<and> size_fs (curr (log_file s')) = ?n
                \<and> fpos (os s') f = ?n
                \<and> disk (os s') = disk (os s)
                \<and> closed_fds (os s') = closed_fds (os s)"
    proof (cases "?sz = 0")
      case True
      with empty [OF True] fd pos show ?thesis
        by (simp add: cmdlog_file_apply_def Let_def)
    next
      case False
      with fd pre A [OF t] un show ?thesis
        by (simp add: cmdlog_file_apply_def Let_def)
    qed
  next
    fix hb bb more
    assume h: "rest = hb @ bb @ more \<and> complete_rec c (hb, bb)
               \<and> MAX_LOG_RECORD_SIZE c - sizeof_LogHdr < length bb"
    then have nz: "?sz \<noteq> 0" using dsk by (auto simp: complete_rec_def sizeof_LogHdr_def)
    from h B have "apply_loop c f True ?sz (int ?n) ?e ?tr
          = (-1, int (?n + sizeof_LogHdr), set_fpos f (?n + sizeof_LogHdr) ?e, ?tr)" by blast
    with fd pre nz show "\<exists>s'. cmdlog_file_apply c s = Some (-1, s', ?tr)
                \<and> closed_fds (os s') = f # closed_fds (os s)"
      by (simp add: cmdlog_file_apply_def Let_def disk_close_def)
  next
    fix hb bb more
    assume h: "rest = hb @ bb @ more \<and> complete_rec c (hb, bb)
               \<and> 0 < length bb \<and> length bb \<le> MAX_LOG_RECORD_SIZE c - sizeof_LogHdr
               \<and> lrec_redo_from_record c hb bb = ENGINE_ENOMEM"
    then have nz: "?sz \<noteq> 0" using dsk by (auto simp: complete_rec_def sizeof_LogHdr_def)
    from h C have "apply_loop c f True ?sz (int ?n) ?e ?tr
          = (-1, int (?n + sizeof_LogHdr + length bb),
             set_fpos f (?n + sizeof_LogHdr + length bb) ?e, ?tr @ [(hb, bb)])" by blast
    with fd pre nz show "\<exists>s'. cmdlog_file_apply c s = Some (-1, s', ?tr @ [(hb, bb)])
                \<and> closed_fds (os s') = f # closed_fds (os s)"
      by (simp add: cmdlog_file_apply_def Let_def disk_close_def)
  qed
qed

text \<open>The witness: a file of two complete records (the second with an empty body) and a
  torn third; a file whose record has a body of 9 bytes where 8 are allowed; and a file
  whose record makes the redo hook run out of memory.\<close>

theorem C7_witness:
  "(\<exists>s'. cmdlog_file_apply sample_codec
            (recovering [0, 0, 0, 0, 2, 0, 0, 0, 7, 9, 0, 0, 0, 0, 0, 0, 0, 0,
                        0, 0, 0, 0, 3, 0, 0, 0, 1])
          = Some (0, s', [([0, 0, 0, 0, 2, 0, 0, 0], [7, 9])])
        \<and> size_fs (curr (log_file s')) = 18 \<and> fpos (os s') 3 = 18 \<and> closed_fds (os s') = [])
   \<and> (\<exists>s'. cmdlog_file_apply sample_codec
            (recovering [0, 0, 0, 0, 9, 0, 0, 0, 1, 2, 3, 4, 5, 6, 7, 8, 9])
          = Some (-1, s', [])
        \<and> closed_fds (os s') = [3])
   \<and> (\<exists>s'. cmdlog_file_apply sample_codec (recovering [0, 0, 0, 0, 1, 0, 0, 0, 255])
          = Some (-1, s', [([0, 0, 0, 0, 1, 0, 0, 0], [255])])
        \<and> closed_fds (os s') = [3])"
proof (intro conjI)
  let ?a = "[0, 0, 0, 0, 2, 0, 0, 0, 7, 9, 0, 0, 0, 0, 0, 0, 0, 0, 0, 0, 0, 0, 3, 0, 0, 0, 1 :: byte]"
  let ?s = "recovering ?a"
  let ?recs = "[([0, 0, 0, 0, 2, 0, 0, 0], [7, 9]), ([0, 0, 0, 0, 0, 0, 0, 0 :: byte], [] :: byte list)]"
  have h: "0 < fd (curr (log_file ?s))" "fd (curr (log_file ?s)) = 3" "initialized ?s"
    "fpos (os ?s) 3 = 0" "disk (os ?s) 3 = ?a" "closed_fds (os ?s) = []"
    by (simp_all add: recovering_def eval_simps)
  have c: "sizeof_LogHdr \<le> MAX_LOG_RECORD_SIZE sample_codec"
    "MAX_LOG_RECORD_SIZE sample_codec < 2 ^ 31"
    by (simp_all add: sample_codec_def sizeof_LogHdr_def)
  have r: "\<forall>r \<in> set ?recs. replayable sample_codec r"
    by (simp add: replayable_def complete_rec_def sample_codec_def sizeof_LogHdr_def)
  have t: "torn_tail sample_codec [0, 0, 0, 0, 3, 0, 0, 0, 1]"
    by (simp add: torn_tail_def sample_codec_def sizeof_LogHdr_def)
  have d: "disk (os ?s) 3 = concat (map rec_image ?recs) @ [0, 0, 0, 0, 3, 0, 0, 0, 1]"
    by (simp add: h rec_image_def)
  have sm: "length (disk (os ?s) 3) < 2 ^ 31" by (simp add: h)
  have n: "length (concat (map rec_image ?recs)) = 18"
    by (simp add: rec_image_def)
  have tr: "filter (\<lambda>r. 0 < length (snd r)) ?recs = [([0, 0, 0, 0, 2, 0, 0, 0], [7, 9])]"
    by simp
  from C7_file_apply_recovery [OF h(1) h(2) [symmetric] h(3,4) c sm d r,
      THEN conjunct1, rule_format, OF t]
  show "\<exists>s'. cmdlog_file_apply sample_codec ?s
          = Some (0, s', [([0, 0, 0, 0, 2, 0, 0, 0], [7, 9])])
        \<and> size_fs (curr (log_file s')) = 18 \<and> fpos (os s') 3 = 18 \<and> closed_fds (os s') = []"
    unfolding n tr h(6) by blast
next
  let ?b = "[0, 0, 0, 0, 9, 0, 0, 0, 1, 2, 3, 4, 5, 6, 7, 8, 9 :: byte]"
  let ?s = "recovering ?b"
  have h: "0 < fd (curr (log_file ?s))" "fd (curr (log_file ?s)) = 3" "initialized ?s"
    "fpos (os ?s) 3 = 0" "disk (os ?s) 3 = ?b" "closed_fds (os ?s) = []"
    by (simp_all add: recovering_def eval_simps)
  have c: "sizeof_LogHdr \<le> MAX_LOG_RECORD_SIZE sample_codec"
    "MAX_LOG_RECORD_SIZE sample_codec < 2 ^ 31"
    by (simp_all add: sample_codec_def sizeof_LogHdr_def)
  have d: "disk (os ?s) 3 = concat (map rec_image []) @ ?b"
    by (simp add: h)
  have sm: "length (disk (os ?s) 3) < 2 ^ 31" by (simp add: h)
  have big: "?b = [0, 0, 0, 0, 9, 0, 0, 0] @ [1, 2, 3, 4, 5, 6, 7, 8, 9] @ []
      \<and> complete_rec sample_codec ([0, 0, 0, 0, 9, 0, 0, 0], [1, 2, 3, 4, 5, 6, 7, 8, 9])
      \<and> MAX_LOG_RECORD_SIZE sample_codec - sizeof_LogHdr
           < length [1, 2, 3, 4, 5, 6, 7, 8, 9 :: byte]"
    by (simp add: complete_rec_def sample_codec_def sizeof_LogHdr_def)
  from C7_file_apply_recovery [OF h(1) h(2) [symmetric] h(3,4) c sm d,
      THEN conjunct2, THEN conjunct1, rule_format, OF _ big]
  show "\<exists>s'. cmdlog_file_apply sample_codec ?s = Some (-1, s', [])
        \<and> closed_fds (os s') = [3]"
    unfolding h(6) by simp
next
  let ?c = "[0, 0, 0, 0, 1, 0, 0, 0, 255 :: byte]"
  let ?s = "recovering ?c"
  have h: "0 < fd (curr (log_file ?s))" "fd (curr (log_file ?s)) = 3" "initialized ?s"
    "fpos (os ?s) 3 = 0" "disk (os ?s) 3 = ?c" "closed_fds (os ?s) = []"
    by (simp_all add: recovering_def eval_simps)
  have c: "sizeof_LogHdr \<le> MAX_LOG_RECORD_SIZE sample_codec"
    "MAX_LOG_RECORD_SIZE sample_codec < 2 ^ 31"
    by (simp_all add: sample_codec_def sizeof_LogHdr_def)
  have d: "disk (os ?s) 3 = concat (map rec_image []) @ ?c"
    by (simp add: h)
  have sm: "length (disk (os ?s) 3) < 2 ^ 31" by (simp add: h)
  have oom: "?c = [0, 0, 0, 0, 1, 0, 0, 0] @ [255] @ []
      \<and> complete_rec sample_codec ([0, 0, 0, 0, 1, 0, 0, 0], [255])
      \<and> 0 < length [255 :: byte]
      \<and> length [255 :: byte] \<le> MAX_LOG_RECORD_SIZE sample_codec - sizeof_LogHdr
      \<and> lrec_redo_from_record sample_codec [0, 0, 0, 0, 1, 0, 0, 0] [255] = ENGINE_ENOMEM"
    by (simp add: complete_rec_def sample_codec_def sizeof_LogHdr_def)
  from C7_file_apply_recovery [OF h(1) h(2) [symmetric] h(3,4) c sm d,
      THEN conjunct2, THEN conjunct2, rule_format, OF _ oom]
  show "\<exists>s'. cmdlog_file_apply sample_codec ?s
          = Some (-1, s', [([0, 0, 0, 0, 1, 0, 0, 0], [255])])
        \<and> closed_fds (os s') = [3]"
    unfolding h(6) by simp
qed

text \<open>Against C7 as stated (every complete record is replayed): the file is one complete
  record, a header with \<^verbatim>\<open>body_length = 0\<close> and no body; \<^verbatim>\<open>cmdlog_file_apply\<close> returns 0
  without calling the redo hook.\<close>

theorem C7_counterexample:
  "complete_rec sample_codec ([0, 0, 0, 0, 0, 0, 0, 0], [])
   \<and> disk (os (recovering [0, 0, 0, 0, 0, 0, 0, 0])) 3
        = rec_image ([0, 0, 0, 0, 0, 0, 0, 0], [])
   \<and> (case cmdlog_file_apply sample_codec (recovering [0, 0, 0, 0, 0, 0, 0, 0]) of
         None \<Rightarrow> False
       | Some (ret, s', tr) \<Rightarrow> ret = 0 \<and> tr = [] \<and> size_fs (curr (log_file s')) = 8)"
  apply (simp add: complete_rec_def rec_image_def cmdlog_file_apply_def recovering_def
      eval_simps sample_codec_def)
  apply (subst apply_loop.simps)
  apply (simp add: eval_simps)
  apply (subst apply_loop.simps)
  apply (simp add: eval_simps)
  done

text \<open>
  C1, as amended. In every state reached from \<^verbatim>\<open>cmdlog_buf_init\<close> by a sequence of
  file preparations, record writes, flushes, flushes on demand, syncs and completions of a
  dual write, each of them started within the limits of the counters (\<open>limits_ok\<close>: the
  flush-request queue has room for the requests the operation may close, and the write LSN
  does not wrap), the fsync LSN is at most the flush LSN, which is at most the write LSN.
\<close>

theorem C1_lsn_ordering:
  assumes "run xs (cmdlog_buf_init e) = Some s"
    and "limits_ok xs (cmdlog_buf_init e)"
  shows "LOGSN_IS_LE (nxt_fsync_lsn s) (nxt_flush_lsn s)
       \<and> LOGSN_IS_LE (nxt_flush_lsn s) (nxt_write_lsn s)"
proof -
  note m = reachable_inv(1) [OF assms]
  from lsn_rel_le [OF inv_atD(2) [OF m]] show ?thesis by simp
qed

text \<open>The witness: a record is written, flushed and synced, the log rotates to
  descriptor 4, and a second record is written in the cleanup window.\<close>

theorem C1_witness:
  "\<exists>s. run [Prepare 3, RecordWrite (rec_of 8) False, FlushOnce True, FileSync, Prepare 4,
             CompleteDualWrite True, RecordWrite (rec_of 8) False] fresh = Some s
     \<and> limits_ok [Prepare 3, RecordWrite (rec_of 8) False, FlushOnce True, FileSync, Prepare 4,
             CompleteDualWrite True, RecordWrite (rec_of 8) False] fresh
     \<and> nxt_fsync_lsn s = \<lparr>filenum = 1, roffset = 16\<rparr>
     \<and> nxt_flush_lsn s = \<lparr>filenum = 1, roffset = 16\<rparr>
     \<and> nxt_write_lsn s = \<lparr>filenum = 2, roffset = 16\<rparr>
     \<and> LOGSN_IS_LE (nxt_fsync_lsn s) (nxt_flush_lsn s)
     \<and> LOGSN_IS_LE (nxt_flush_lsn s) (nxt_write_lsn s)"
proof -
  define s where
    "s = the (run [Prepare 3, RecordWrite (rec_of 8) False, FlushOnce True, FileSync, Prepare 4,
             CompleteDualWrite True, RecordWrite (rec_of 8) False] fresh)"
  have r: "run [Prepare 3, RecordWrite (rec_of 8) False, FlushOnce True, FileSync, Prepare 4,
             CompleteDualWrite True, RecordWrite (rec_of 8) False] (cmdlog_buf_init no_files)
           = Some s"
    by (simp add: s_def eval_simps)
  have l: "limits_ok [Prepare 3, RecordWrite (rec_of 8) False, FlushOnce True, FileSync,
             Prepare 4, CompleteDualWrite True, RecordWrite (rec_of 8) False]
             (cmdlog_buf_init no_files)"
    by (simp add: within_limits_def qlen_def eval_simps)
  have f: "nxt_fsync_lsn s = \<lparr>filenum = 1, roffset = 16\<rparr>"
    "nxt_flush_lsn s = \<lparr>filenum = 1, roffset = 16\<rparr>"
    "nxt_write_lsn s = \<lparr>filenum = 2, roffset = 16\<rparr>"
    by (simp_all add: s_def eval_simps)
  from C1_lsn_ordering [OF r l] r l f show ?thesis
    unfolding fresh_def by (intro exI [of _ s]) simp
qed

text \<open>
  Against C1 as stated (any sequence): the file number is 32 bits wide and
  \<^verbatim>\<open>cmdlog_complete_dual_write\<close> increments it unchecked. After \<open>2 ^ 32 - 1\<close> rotations,
  each followed by the flush that ends its cleanup window, and no sync, the write and flush
  LSNs have wrapped to file 0 while the fsync LSN is still \<open>(1, 0)\<close>, above the flush LSN.
\<close>

theorem C1_counterexample:
  "\<exists>s. run (Prepare 3 # concat (replicate 4294967295
                 [Prepare 4, CompleteDualWrite True, FlushOnce False])) fresh = Some s
       \<and> nxt_fsync_lsn s = \<lparr>filenum = 1, roffset = 0\<rparr>
       \<and> nxt_flush_lsn s = \<lparr>filenum = 0, roffset = 0\<rparr>
       \<and> \<not> LOGSN_IS_LE (nxt_fsync_lsn s) (nxt_flush_lsn s)"
proof -
  have "rotated 0 (snd (cmdlog_file_prepare 3 fresh))"
    by (simp add: rotated_def eval_simps)
  from rotated_cycles [OF this, of 4294967295] obtain s where
    s: "run (concat (replicate 4294967295
                 [Prepare 4, CompleteDualWrite True, FlushOnce False]))
          (snd (cmdlog_file_prepare 3 fresh)) = Some s" "rotated 4294967295 s"
    by auto
  from s(2) have "nxt_fsync_lsn s = \<lparr>filenum = 1, roffset = 0\<rparr>"
    "nxt_flush_lsn s = \<lparr>filenum = 0, roffset = 0\<rparr>"
    "\<not> LOGSN_IS_LE (nxt_fsync_lsn s) (nxt_flush_lsn s)"
    by (simp_all add: rotated_def LOGSN_IS_LE_def u32_def)
  with s(1) show ?thesis by simp
qed

text \<open>
  C2, as amended. Take any call of \<^verbatim>\<open>do_log_buff_flush\<close> in a cleanup window
  (\<open>dw_end \<noteq> -1\<close> on entry) that returns. No file but the one behind \<^verbatim>\<open>curr.fd\<close>
  changes. Nothing at all is written when no request is selected or the selected request
  has no \<open>dual_write\<close> flag; with the flag, the bytes of the request are written once, to
  \<^verbatim>\<open>curr.fd\<close>. When \<open>fbgn = dw_end\<close> on entry, \<open>dw_end\<close> becomes \<open>-1\<close> and the flush LSN
  becomes \<open>(filenum + 1, n)\<close>: the offset is reset to 0 and then moved by the \<open>n\<close> bytes of
  the request selected in the same call. And \<^verbatim>\<open>curr.fd\<close> is not the pre-rotation file:
  in every state reached from a \<^verbatim>\<open>cmdlog_complete_dual_write(true)\<close> that found a
  \<^verbatim>\<open>next.fd\<close>, by any operations other than a further completed rotation, it is the
  descriptor that was \<^verbatim>\<open>next.fd\<close>, the file the checkpoint created; the descriptor that
  was current before the rotation, when it is another one, receives nothing from the call.
  Every cleanup window is of this kind: whatever the operations that led to the state of
  the call from a state outside a cleanup window, one of them is a
  \<^verbatim>\<open>cmdlog_complete_dual_write(true)\<close> that found a \<^verbatim>\<open>next.fd\<close>, the window has been open ever
  since, and \<^verbatim>\<open>curr.fd\<close> is what \<^verbatim>\<open>next.fd\<close> was then.
\<close>

theorem C2_cleanup_routing:
  assumes "dw_end (log_buffer s) \<noteq> -1"
    and "do_log_buff_flush flush_all s = Some (n, s')"
  shows "(\<forall>f. f \<noteq> fd (curr (log_file s))
              \<longrightarrow> disk (os s') f = disk (os s) f \<and> fpos (os s') f = fpos (os s) f)
       \<and> (n = 0 \<or> \<not> dual_write (fque (log_buffer s) (fbgn (log_buffer s)))
              \<longrightarrow> os s' = os s)
       \<and> (0 < n \<and> dual_write (fque (log_buffer s) (fbgn (log_buffer s)))
              \<longrightarrow> os s' = disk_byte_write (fd (curr (log_file s)))
                              (buf_bytes (log_buffer s) (head (wrap_reclaim (log_buffer s))) n)
                              (os s))
       \<and> (fbgn (log_buffer s) = u32 (dw_end (log_buffer s))
              \<longrightarrow> dw_end (log_buffer s') = -1
                \<and> nxt_flush_lsn s' = \<lparr>filenum = u32 (int (filenum (nxt_flush_lsn s)) + 1),
                                        roffset = u64 (int n)\<rparr>)
       \<and> (\<forall>s0 s1 xs. fd (next_fs (log_file s0)) \<noteq> -1
                \<and> cmdlog_complete_dual_write True s0 = Some s1
                \<and> run xs s1 = Some s \<and> CompleteDualWrite True \<notin> set xs
              \<longrightarrow> fd (curr (log_file s)) = fd (next_fs (log_file s0))
                \<and> (fd (curr (log_file s0)) \<noteq> fd (next_fs (log_file s0))
                     \<longrightarrow> disk (os s') (fd (curr (log_file s0)))
                           = disk (os s) (fd (curr (log_file s0)))))
       \<and> (\<forall>t xs. dw_end (log_buffer t) = -1 \<and> run xs t = Some s
              \<longrightarrow> (\<exists>ys zs s0 s1. xs = ys @ CompleteDualWrite True # zs
                     \<and> run ys t = Some s0 \<and> fd (next_fs (log_file s0)) \<noteq> -1
                     \<and> cmdlog_complete_dual_write True s0 = Some s1 \<and> run zs s1 = Some s
                     \<and> (\<forall>us vs. zs = us @ vs \<longrightarrow>
                            (\<exists>s2. run us s1 = Some s2 \<and> dw_end (log_buffer s2) \<noteq> -1))
                     \<and> fd (curr (log_file s)) = fd (next_fs (log_file s0))
                     \<and> (fd (curr (log_file s0)) \<noteq> fd (next_fs (log_file s0))
                          \<longrightarrow> disk (os s') (fd (curr (log_file s0)))
                                = disk (os s) (fd (curr (log_file s0))))))"
proof -
  have routing: "(\<forall>f. f \<noteq> fd (curr (log_file s))
              \<longrightarrow> disk (os s') f = disk (os s) f \<and> fpos (os s') f = fpos (os s) f)
       \<and> (n = 0 \<or> \<not> dual_write (fque (log_buffer s) (fbgn (log_buffer s)))
              \<longrightarrow> os s' = os s)
       \<and> (0 < n \<and> dual_write (fque (log_buffer s) (fbgn (log_buffer s)))
              \<longrightarrow> os s' = disk_byte_write (fd (curr (log_file s)))
                              (buf_bytes (log_buffer s) (head (wrap_reclaim (log_buffer s))) n)
                              (os s))
       \<and> (fbgn (log_buffer s) = u32 (dw_end (log_buffer s))
              \<longrightarrow> dw_end (log_buffer s') = -1
                \<and> nxt_flush_lsn s' = \<lparr>filenum = u32 (int (filenum (nxt_flush_lsn s)) + 1),
                                        roffset = u64 (int n)\<rparr>)"
    using assms(2)
  proof (cases rule: do_log_buff_flush_inv)
    case (idle d f c lb)
    note r = flush_select_result [OF idle(1)]
    from idle r show ?thesis
      by (simp add: bump_filenum_def u64_def)
  next
    case (work d f c lb s2)
    note r = flush_select_result [OF work(1)] and fr = flush_select_frame [OF work(1)]
    from r(2) assms(1) have c: "c" by simp
    have bytes: "buf_bytes lb (head lb) n
        = buf_bytes (log_buffer s) (head (wrap_reclaim (log_buffer s))) n"
      using r(6) [OF work(2)] fr(1) by (simp add: buf_bytes_def)
    have lsn2: "nxt_flush_lsn s2 = nxt_flush_lsn (flush_lsn_step f lb s)"
      and lb2: "log_buffer s2 = lb"
      using flush_write_frame [OF work(3)] by simp_all
    show ?thesis
    proof (cases d)
      case True
      with work c have w: "do_log_file_write (buf_bytes lb (head lb) n) False
            (flush_lsn_step f lb s) = Some s2"
        by (simp add: flush_write_def)
      from do_log_file_write_os [OF w] have os2: "os s2 = disk_byte_write (fd (curr (log_file s)))
            (buf_bytes (log_buffer s) (head (wrap_reclaim (log_buffer s))) n) (os s)"
        by (simp add: bytes)
      from work True r os2 lsn2 lb2 show ?thesis
        by (simp add: disk_byte_write_other bump_filenum_def add_roffset_def)
    next
      case False
      with work c have "s2 = flush_lsn_step f lb s"
        by (simp add: flush_write_def)
      with work False r show ?thesis
        by (simp add: bump_filenum_def add_roffset_def)
    qed
  qed
  have handover: "fd (curr (log_file s)) = fd (next_fs (log_file s0))
      \<and> (fd (curr (log_file s0)) \<noteq> fd (next_fs (log_file s0))
           \<longrightarrow> disk (os s') (fd (curr (log_file s0))) = disk (os s) (fd (curr (log_file s0))))"
    if h: "fd (next_fs (log_file s0)) \<noteq> -1 \<and> cmdlog_complete_dual_write True s0 = Some s1
        \<and> run xs s1 = Some s \<and> CompleteDualWrite True \<notin> set xs" for s0 s1 xs
  proof -
    from h have "fd (curr (log_file s)) = fd (next_fs (log_file s0))"
      by (intro rotation_curr_fd [of s0 s1 xs s]) simp_all
    with routing show ?thesis by simp
  qed
  have window: "\<exists>ys zs s0 s1. xs = ys @ CompleteDualWrite True # zs
                     \<and> run ys t = Some s0 \<and> fd (next_fs (log_file s0)) \<noteq> -1
                     \<and> cmdlog_complete_dual_write True s0 = Some s1 \<and> run zs s1 = Some s
                     \<and> (\<forall>us vs. zs = us @ vs \<longrightarrow>
                            (\<exists>s2. run us s1 = Some s2 \<and> dw_end (log_buffer s2) \<noteq> -1))
                     \<and> fd (curr (log_file s)) = fd (next_fs (log_file s0))
                     \<and> (fd (curr (log_file s0)) \<noteq> fd (next_fs (log_file s0))
                          \<longrightarrow> disk (os s') (fd (curr (log_file s0)))
                                = disk (os s) (fd (curr (log_file s0))))"
    if h: "dw_end (log_buffer t) = -1 \<and> run xs t = Some s" for t xs
  proof -
    from h have r: "run xs t = Some s" and t: "dw_end (log_buffer t) = -1" by simp_all
    from run_window [OF r t assms(1)] obtain ys zs s0 s1 where
      d: "xs = ys @ CompleteDualWrite True # zs" "run ys t = Some s0"
        "fd (next_fs (log_file s0)) \<noteq> -1"
        "cmdlog_complete_dual_write True s0 = Some s1" "run zs s1 = Some s"
        "\<forall>us vs. zs = us @ vs \<longrightarrow>
           (\<exists>s2. run us s1 = Some s2 \<and> dw_end (log_buffer s2) \<noteq> -1)"
        "fd (curr (log_file s)) = fd (next_fs (log_file s0))"
      by blast
    from routing d(7) have "fd (curr (log_file s0)) \<noteq> fd (next_fs (log_file s0))
         \<longrightarrow> disk (os s') (fd (curr (log_file s0))) = disk (os s) (fd (curr (log_file s0)))"
      by simp
    with d show ?thesis by blast
  qed
  have 1: "\<forall>s0 s1 xs. fd (next_fs (log_file s0)) \<noteq> -1
                \<and> cmdlog_complete_dual_write True s0 = Some s1
                \<and> run xs s1 = Some s \<and> CompleteDualWrite True \<notin> set xs
              \<longrightarrow> fd (curr (log_file s)) = fd (next_fs (log_file s0))
                \<and> (fd (curr (log_file s0)) \<noteq> fd (next_fs (log_file s0))
                     \<longrightarrow> disk (os s') (fd (curr (log_file s0)))
                           = disk (os s) (fd (curr (log_file s0))))"
    using handover by blast
  have 2: "\<forall>t xs. dw_end (log_buffer t) = -1 \<and> run xs t = Some s
              \<longrightarrow> (\<exists>ys zs s0 s1. xs = ys @ CompleteDualWrite True # zs
                     \<and> run ys t = Some s0 \<and> fd (next_fs (log_file s0)) \<noteq> -1
                     \<and> cmdlog_complete_dual_write True s0 = Some s1 \<and> run zs s1 = Some s
                     \<and> (\<forall>us vs. zs = us @ vs \<longrightarrow>
                            (\<exists>s2. run us s1 = Some s2 \<and> dw_end (log_buffer s2) \<noteq> -1))
                     \<and> fd (curr (log_file s)) = fd (next_fs (log_file s0))
                     \<and> (fd (curr (log_file s0)) \<noteq> fd (next_fs (log_file s0))
                          \<longrightarrow> disk (os s') (fd (curr (log_file s0)))
                                = disk (os s) (fd (curr (log_file s0)))))"
    using window by blast
  from routing 1 2 show ?thesis by (intro conjI) blast+
qed

text \<open>The witness: a record waits with the dual-write flag when the log rotates from
  descriptor 3 to descriptor 4; in the cleanup window a second record is written and the
  first is flushed. The call is the next flush, in which \<open>fbgn = dw_end\<close>: it sends the 16
  bytes of the second record to descriptor 4, nothing to descriptor 3, and ends the
  window.\<close>

theorem C2_witness:
  "\<exists>s0 s1 s s'. run [Prepare 3, Prepare 4, RecordWrite (rec_of 8) True] fresh = Some s0
         \<and> fd (curr (log_file s0)) = 3 \<and> fd (next_fs (log_file s0)) = 4
         \<and> cmdlog_complete_dual_write True s0 = Some s1
         \<and> run [RecordWrite (rec_of 8) True, FlushOnce False] s1 = Some s
         \<and> dw_end (log_buffer s) = 1 \<and> fbgn (log_buffer s) = 1
         \<and> dual_write (fque (log_buffer s) 1)
         \<and> do_log_buff_flush True s = Some (16, s')
         \<and> fd (curr (log_file s)) = 4
         \<and> os s' = disk_byte_write 4 (buf_bytes (log_buffer s) 16 16) (os s)
         \<and> disk (os s') 3 = disk (os s) 3
         \<and> dw_end (log_buffer s') = -1
         \<and> nxt_flush_lsn s' = \<lparr>filenum = 2, roffset = 16\<rparr>
         \<and> dw_end (log_buffer fresh) = -1
         \<and> run [Prepare 3, Prepare 4, RecordWrite (rec_of 8) True, CompleteDualWrite True,
                 RecordWrite (rec_of 8) True, FlushOnce False] fresh = Some s
         \<and> (\<exists>ys zs t0 t1.
                [Prepare 3, Prepare 4, RecordWrite (rec_of 8) True, CompleteDualWrite True,
                 RecordWrite (rec_of 8) True, FlushOnce False]
                  = ys @ CompleteDualWrite True # zs
              \<and> run ys fresh = Some t0 \<and> fd (next_fs (log_file t0)) \<noteq> -1
              \<and> cmdlog_complete_dual_write True t0 = Some t1 \<and> run zs t1 = Some s
              \<and> fd (next_fs (log_file t0)) = 4)"
proof -
  define s0 where "s0 = the (run [Prepare 3, Prepare 4, RecordWrite (rec_of 8) True] fresh)"
  define s1 where "s1 = the (cmdlog_complete_dual_write True s0)"
  define s where "s = the (run [RecordWrite (rec_of 8) True, FlushOnce False] s1)"
  define s' where "s' = snd (the (do_log_buff_flush True s))"
  have r0: "run [Prepare 3, Prepare 4, RecordWrite (rec_of 8) True] fresh = Some s0"
    by (simp add: s0_def eval_simps)
  have f0: "fd (curr (log_file s0)) = 3" "fd (next_fs (log_file s0)) = 4"
    by (simp_all add: s0_def eval_simps)
  have r1: "cmdlog_complete_dual_write True s0 = Some s1"
    by (simp add: s1_def s0_def eval_simps)
  have r: "run [RecordWrite (rec_of 8) True, FlushOnce False] s1 = Some s"
    by (simp add: s_def s1_def s0_def eval_simps)
  have f: "dw_end (log_buffer s) = 1" "fbgn (log_buffer s) = 1"
    "dual_write (fque (log_buffer s) 1)" "head (wrap_reclaim (log_buffer s)) = 16"
    "nxt_flush_lsn s = \<lparr>filenum = 1, roffset = 16\<rparr>"
    by (simp_all add: s_def s1_def s0_def eval_simps)
  have fl: "do_log_buff_flush True s = Some (16, s')"
    by (simp add: s'_def s_def s1_def s0_def eval_simps)
  have w: "dw_end (log_buffer s) \<noteq> -1" using f(1) by simp
  have x: "fd (next_fs (log_file s0)) \<noteq> -1 \<and> cmdlog_complete_dual_write True s0 = Some s1
      \<and> run [RecordWrite (rec_of 8) True, FlushOnce False] s1 = Some s
      \<and> CompleteDualWrite True \<notin> set [RecordWrite (rec_of 8) True, FlushOnce False]"
    using f0 r1 r by simp
  note c = C2_cleanup_routing [OF w fl]
  from c [THEN conjunct2, THEN conjunct2, THEN conjunct2, THEN conjunct2, THEN conjunct1,
      rule_format, OF x] f0
  have h: "fd (curr (log_file s)) = 4" "disk (os s') 3 = disk (os s) 3"
    by simp_all
  from c [THEN conjunct2, THEN conjunct2, THEN conjunct1] f h(1)
  have o: "os s' = disk_byte_write 4 (buf_bytes (log_buffer s) 16 16) (os s)"
    by simp
  from c [THEN conjunct2, THEN conjunct2, THEN conjunct2, THEN conjunct1] f
  have e: "dw_end (log_buffer s') = -1" "nxt_flush_lsn s' = \<lparr>filenum = 2, roffset = 16\<rparr>"
    by (simp_all add: u32_def u64_def)
  have y: "dw_end (log_buffer fresh) = -1"
    "run [Prepare 3, Prepare 4, RecordWrite (rec_of 8) True, CompleteDualWrite True,
          RecordWrite (rec_of 8) True, FlushOnce False] fresh = Some s"
    by (simp_all add: s_def s1_def s0_def eval_simps)
  from c [THEN conjunct2, THEN conjunct2, THEN conjunct2, THEN conjunct2, THEN conjunct2,
      rule_format, OF conjI, OF y] h(1)
  have z: "\<exists>ys zs t0 t1.
                [Prepare 3, Prepare 4, RecordWrite (rec_of 8) True, CompleteDualWrite True,
                 RecordWrite (rec_of 8) True, FlushOnce False]
                  = ys @ CompleteDualWrite True # zs
              \<and> run ys fresh = Some t0 \<and> fd (next_fs (log_file t0)) \<noteq> -1
              \<and> cmdlog_complete_dual_write True t0 = Some t1 \<and> run zs t1 = Some s
              \<and> fd (next_fs (log_file t0)) = 4"
    by metis
  from r0 f0 r1 r f(1,2,3) fl h o e y z show ?thesis
    by (intro exI [of _ s0] exI [of _ s1] exI [of _ s] exI [of _ s']) (simp only: simp_thms)
qed

text \<open>
  Against C2 as stated (\<^verbatim>\<open>curr.fd\<close> points to the pre-rotation file): descriptor 3 is
  the file before the rotation and descriptor 4 the new one. A record is written with the
  dual-write flag and the rotation completes before any flush. The cleanup flush then writes
  the 16 bytes to descriptor 4, which is \<^verbatim>\<open>curr.fd\<close>; descriptor 3 has been closed by
  the rotation and stays empty.
\<close>

theorem C2_counterexample:
  "(case run [Prepare 3, Prepare 4, RecordWrite (rec_of 8) True] fresh of
      None \<Rightarrow> False
    | Some s0 \<Rightarrow>
        (case cmdlog_complete_dual_write True s0 of
           None \<Rightarrow> False
         | Some s \<Rightarrow>
             (case do_log_buff_flush False s of
                None \<Rightarrow> False
              | Some (n, s') \<Rightarrow>
                  fd (curr (log_file s0)) = 3 \<and> fd (next_fs (log_file s0)) = 4
                  \<and> dw_end (log_buffer s) = 1 \<and> fbgn (log_buffer s) = 0
                  \<and> dual_write (fque (log_buffer s) 0)
                  \<and> closed_fds (os s) = [3]
                  \<and> fd (curr (log_file s)) = 4
                  \<and> n = 16
                  \<and> disk (os s') 3 = []
                  \<and> length (disk (os s') 4) = 16)))"
  by (simp add: eval_simps)

text \<open>
  C6, as amended. \<^verbatim>\<open>log_buffer_flush\<close> returns only with the flush LSN above
  \<open>upto_lsn\<close>, from any state. Take a state reached from \<^verbatim>\<open>cmdlog_buf_init\<close> within the
  limits of the counters, with a current file and with \<open>upto_lsn\<close> below the write LSN.
  There the call returns exactly when bytes at or after \<open>upto_lsn\<close> wait in the queue:
  when no cleanup window is open, or at least one byte was written since the rotation, or
  the end of the pre-rotation file (\<^const>\<open>cleanup_end\<close>: the flush LSN advanced by the bytes
  queued before \<^verbatim>\<open>dw_end\<close>) is above \<open>upto_lsn\<close>. In that case no assertion fails on the
  way and, whenever the flush LSN is at most \<open>upto_lsn\<close>, \<^verbatim>\<open>do_log_buff_flush(true)\<close>
  returns a positive count and leaves the flush LSN strictly above where it was. In the
  other case the call does not return: the queue runs empty with the flush LSN still at
  most \<open>upto_lsn\<close> and the assertion \<^verbatim>\<open>nflush > 0\<close> fails.
\<close>

theorem C6_buffer_flush_progress:
  assumes "run xs (cmdlog_buf_init e) = Some s"
    and "limits_ok xs (cmdlog_buf_init e)"
    and "fd (curr (log_file s)) \<noteq> -1"
    and "\<not> LOGSN_IS_LE (nxt_write_lsn s) upto_lsn"
  shows "(dw_end (log_buffer s) = -1 \<or> 0 < roffset (nxt_write_lsn s)
            \<or> LOGSN_IS_GT (cleanup_end s) upto_lsn
          \<longrightarrow> (\<exists>s'. log_buffer_flush upto_lsn s = Some s'
                    \<and> LOGSN_IS_GT (nxt_flush_lsn s') upto_lsn)
            \<and> (LOGSN_IS_LE (nxt_flush_lsn s) upto_lsn \<longrightarrow>
                 (\<exists>n s1. do_log_buff_flush True s = Some (n, s1) \<and> 0 < n
                     \<and> LOGSN_IS_GT (nxt_flush_lsn s1) (nxt_flush_lsn s))))
       \<and> (\<not> (dw_end (log_buffer s) = -1 \<or> 0 < roffset (nxt_write_lsn s)
               \<or> LOGSN_IS_GT (cleanup_end s) upto_lsn)
          \<longrightarrow> log_buffer_flush upto_lsn s = None)
       \<and> (\<forall>t t'. log_buffer_flush upto_lsn t = Some t' \<longrightarrow>
             LOGSN_IS_GT (nxt_flush_lsn t') upto_lsn)"
proof -
  note m = reachable_inv(1) [OF assms(1,2)]
  have 1: "\<exists>s'. log_buffer_flush upto_lsn s = Some s' \<and> LOGSN_IS_GT (nxt_flush_lsn s') upto_lsn"
    if h: "dw_end (log_buffer s) = -1 \<or> 0 < roffset (nxt_write_lsn s)
            \<or> LOGSN_IS_GT (cleanup_end s) upto_lsn"
  proof -
    from log_buffer_flush_total [OF m assms(3,4) h] obtain s' where
      s': "log_buffer_flush upto_lsn s = Some s'" ..
    with log_buffer_flush_gt [OF s'] show ?thesis by blast
  qed
  have 2: "\<exists>n s1. do_log_buff_flush True s = Some (n, s1) \<and> 0 < n
                \<and> LOGSN_IS_GT (nxt_flush_lsn s1) (nxt_flush_lsn s)"
    if h: "dw_end (log_buffer s) = -1 \<or> 0 < roffset (nxt_write_lsn s)
            \<or> LOGSN_IS_GT (cleanup_end s) upto_lsn"
      and le: "LOGSN_IS_LE (nxt_flush_lsn s) upto_lsn"
  proof -
    note pos = pending_pos [OF m le assms(4) h]
    from flush_all_some [OF m assms(3) pos] obtain n s1 where
      fl: "do_log_buff_flush True s = Some (n, s1)" "0 < n" by blast
    from flush_inv [OF fl(1) m] fl(2) have "LOGSN_IS_GT (nxt_flush_lsn s1) (nxt_flush_lsn s)"
      by blast
    with fl show ?thesis by blast
  qed
  have 3: "log_buffer_flush upto_lsn s = None"
    if h: "\<not> (dw_end (log_buffer s) = -1 \<or> 0 < roffset (nxt_write_lsn s)
               \<or> LOGSN_IS_GT (cleanup_end s) upto_lsn)"
  proof -
    from h have "dw_end (log_buffer s) \<noteq> -1" "roffset (nxt_write_lsn s) = 0"
      "\<not> LOGSN_IS_GT (cleanup_end s) upto_lsn" by simp_all
    from log_buffer_flush_stuck [OF m this] show ?thesis .
  qed
  have 4: "\<forall>t t'. log_buffer_flush upto_lsn t = Some t' \<longrightarrow>
             LOGSN_IS_GT (nxt_flush_lsn t') upto_lsn"
    using log_buffer_flush_gt by blast
  from 1 2 3 4 show ?thesis by blast
qed

text \<open>The witness is in a cleanup window with nothing written since the rotation: a record
  of 16 bytes was queued before the log rotated from descriptor 3 to descriptor 4, so the
  pre-rotation file ends at \<open>(1, 16)\<close> and the write LSN is \<open>(2, 0)\<close>. Asked up to \<open>(1, 0)\<close>,
  the flush returns, and one \<^verbatim>\<open>do_log_buff_flush(true)\<close> writes the 16 bytes. Asked up to
  \<open>(1, 16)\<close>, which is still below the write LSN, it does not return.\<close>

theorem C6_witness:
  "\<exists>s s' s1. run [Prepare 3, Prepare 4, RecordWrite (rec_of 8) True, CompleteDualWrite True] fresh
               = Some s
     \<and> limits_ok [Prepare 3, Prepare 4, RecordWrite (rec_of 8) True, CompleteDualWrite True] fresh
     \<and> fd (curr (log_file s)) = 4
     \<and> nxt_flush_lsn s = \<lparr>filenum = 1, roffset = 0\<rparr>
     \<and> nxt_write_lsn s = \<lparr>filenum = 2, roffset = 0\<rparr>
     \<and> dw_end (log_buffer s) = 1
     \<and> cleanup_end s = \<lparr>filenum = 1, roffset = 16\<rparr>
     \<and> log_buffer_flush \<lparr>filenum = 1, roffset = 0\<rparr> s = Some s'
     \<and> LOGSN_IS_GT (nxt_flush_lsn s') \<lparr>filenum = 1, roffset = 0\<rparr>
     \<and> do_log_buff_flush True s = Some (16, s1)
     \<and> LOGSN_IS_GT (nxt_flush_lsn s1) (nxt_flush_lsn s)
     \<and> \<not> LOGSN_IS_LE (nxt_write_lsn s) \<lparr>filenum = 1, roffset = 16\<rparr>
     \<and> log_buffer_flush \<lparr>filenum = 1, roffset = 16\<rparr> s = None"
proof -
  define s where
    "s = the (run [Prepare 3, Prepare 4, RecordWrite (rec_of 8) True, CompleteDualWrite True]
                fresh)"
  define s1 where "s1 = snd (the (do_log_buff_flush True s))"
  have r: "run [Prepare 3, Prepare 4, RecordWrite (rec_of 8) True, CompleteDualWrite True]
             (cmdlog_buf_init no_files) = Some s"
    by (simp add: s_def eval_simps)
  have l: "limits_ok [Prepare 3, Prepare 4, RecordWrite (rec_of 8) True, CompleteDualWrite True]
             (cmdlog_buf_init no_files)"
    by (simp add: within_limits_def qlen_def eval_simps)
  have f: "fd (curr (log_file s)) = 4" "nxt_flush_lsn s = \<lparr>filenum = 1, roffset = 0\<rparr>"
    "nxt_write_lsn s = \<lparr>filenum = 2, roffset = 0\<rparr>" "dw_end (log_buffer s) = 1"
    by (simp_all add: s_def eval_simps)
  have ce: "cleanup_end s = \<lparr>filenum = 1, roffset = 16\<rparr>"
    by (simp add: cleanup_end_def old_end_def qlen_def win_def slot_at_def s_def eval_simps)
  have fl: "do_log_buff_flush True s = Some (16, s1)"
    by (simp add: s1_def s_def eval_simps)
  have h: "fd (curr (log_file s)) \<noteq> -1"
    "\<not> LOGSN_IS_LE (nxt_write_lsn s) \<lparr>filenum = 1, roffset = 0\<rparr>"
    "dw_end (log_buffer s) = -1 \<or> 0 < roffset (nxt_write_lsn s)
       \<or> LOGSN_IS_GT (cleanup_end s) \<lparr>filenum = 1, roffset = 0\<rparr>"
    "LOGSN_IS_LE (nxt_flush_lsn s) \<lparr>filenum = 1, roffset = 0\<rparr>"
    using f ce by (simp_all add: LOGSN_IS_LE_def LOGSN_IS_GT_def)
  have g: "\<not> LOGSN_IS_LE (nxt_write_lsn s) \<lparr>filenum = 1, roffset = 16\<rparr>"
    "\<not> (dw_end (log_buffer s) = -1 \<or> 0 < roffset (nxt_write_lsn s)
         \<or> LOGSN_IS_GT (cleanup_end s) \<lparr>filenum = 1, roffset = 16\<rparr>)"
    using f ce by (simp_all add: LOGSN_IS_LE_def LOGSN_IS_GT_def)
  from C6_buffer_flush_progress [OF r l h(1,2), THEN conjunct1, rule_format, OF h(3)] h(4) fl
  obtain s' where s': "log_buffer_flush \<lparr>filenum = 1, roffset = 0\<rparr> s = Some s'"
    "LOGSN_IS_GT (nxt_flush_lsn s') \<lparr>filenum = 1, roffset = 0\<rparr>"
    "LOGSN_IS_GT (nxt_flush_lsn s1) (nxt_flush_lsn s)"
    by auto
  from C6_buffer_flush_progress [OF r l h(1) g(1), THEN conjunct2, THEN conjunct1,
      rule_format, OF g(2)]
  have n: "log_buffer_flush \<lparr>filenum = 1, roffset = 16\<rparr> s = None" .
  from r l f ce s' fl g(1) n show ?thesis
    unfolding fresh_def by (intro exI [of _ s] exI [of _ s'] exI [of _ s1]) simp
qed

text \<open>
  Against C6 as stated (the precondition \<open>upto_lsn < nxt_write_lsn\<close> alone): a rotation
  completes with an empty queue. The write LSN is \<open>(2, 0)\<close> and the flush LSN \<open>(1, 0)\<close>, so
  \<open>upto_lsn = (1, 0)\<close> is below the write LSN and not below the flush LSN; but there is
  nothing to flush, \<^verbatim>\<open>do_log_buff_flush(true)\<close> returns 0 and the assertion
  \<^verbatim>\<open>nflush > 0\<close> of \<^verbatim>\<open>log_buffer_flush\<close> fails.
\<close>

theorem C6_counterexample:
  "\<exists>s. run [Prepare 3, Prepare 4, CompleteDualWrite True] fresh = Some s
     \<and> fd (curr (log_file s)) = 4
     \<and> nxt_flush_lsn s = \<lparr>filenum = 1, roffset = 0\<rparr>
     \<and> nxt_write_lsn s = \<lparr>filenum = 2, roffset = 0\<rparr>
     \<and> LOGSN_IS_LE (nxt_flush_lsn s) \<lparr>filenum = 1, roffset = 0\<rparr>
     \<and> LOGSN_IS_GT (nxt_write_lsn s) \<lparr>filenum = 1, roffset = 0\<rparr>
     \<and> map_option fst (do_log_buff_flush True s) = Some 0
     \<and> log_buffer_flush \<lparr>filenum = 1, roffset = 0\<rparr> s = None"
proof -
  define s where "s = the (run [Prepare 3, Prepare 4, CompleteDualWrite True] fresh)"
  have r: "run [Prepare 3, Prepare 4, CompleteDualWrite True] fresh = Some s"
    by (simp add: s_def eval_simps)
  have "fd (curr (log_file s)) = 4"
    "nxt_flush_lsn s = \<lparr>filenum = 1, roffset = 0\<rparr>"
    "nxt_write_lsn s = \<lparr>filenum = 2, roffset = 0\<rparr>"
    "LOGSN_IS_LE (nxt_flush_lsn s) \<lparr>filenum = 1, roffset = 0\<rparr>"
    "LOGSN_IS_GT (nxt_write_lsn s) \<lparr>filenum = 1, roffset = 0\<rparr>"
    "map_option fst (do_log_buff_flush True s) = Some 0"
    "log_buffer_flush \<lparr>filenum = 1, roffset = 0\<rparr> s = None"
    by (simp_all add: s_def eval_simps)
  with r show ?thesis by blast
qed

end
